(* ===== verification/Prelude.thy ===== *)
theory Prelude
  imports Main "HOL-Library.Monad_Syntax"
begin

text \<open>
  What the components share: the type of addresses, the 64-bit unsigned arithmetic of the
  kernel's \<open>uint64_t\<close> counters written out with its wrap-around, the \<open>for\<close> loop that
  stores one value in a range of array cells, and the dereference of a pointer into a store.

  A pointer is a natural number and \<open>0\<close> is \<open>NULL\<close>. A store is a map from addresses to
  objects; reading or writing an address that holds no object is a fault, the value
  \<open>None\<close> of the option monad.
\<close>

type_synonym addr = nat

named_theorems u64_simps \<open>unsigned arithmetic that does not wrap\<close>
named_theorems deref_simps \<open>reads and writes through a pointer that is valid\<close>

section \<open>Unsigned 64-bit arithmetic\<close>

abbreviation U64 :: nat where
  "U64 \<equiv> 2 ^ 64"

definition add64 :: "nat \<Rightarrow> nat \<Rightarrow> nat" where
  "add64 a b = (a + b) mod 2 ^ 64"

definition sub64 :: "nat \<Rightarrow> nat \<Rightarrow> nat" where
  "sub64 a b = (a + (2 ^ 64 - b mod 2 ^ 64)) mod 2 ^ 64"

lemma add64_small [u64_simps]: "a + b < 2 ^ 64 \<Longrightarrow> add64 a b = a + b"
  by (simp add: add64_def)

lemma sub64_small [u64_simps]:
  assumes "b \<le> a" and "a < 2 ^ 64"
  shows "sub64 a b = a - b"
proof -
  have "a + (2 ^ 64 - b) = (a - b) + 2 ^ 64"
    using assms by arith
  moreover have "b mod 2 ^ 64 = b"
    using assms by simp
  moreover have "a - b < 2 ^ 64"
    using assms by arith
  ultimately show ?thesis
    unfolding sub64_def by (metis mod_add_self2 mod_less)
qed

lemma sub64_bound: "sub64 a b < 2 ^ 64"
  by (simp add: sub64_def)

lemma add64_bound: "add64 a b < 2 ^ 64"
  by (simp add: add64_def)

lemma add64_sub64_cancel [u64_simps]:
  assumes "n \<le> i + 1" and "n < 2 ^ 64" and "i + 1 < 2 ^ 64"
  shows "add64 (sub64 i n) 1 = i + 1 - n"
proof -
  have "add64 (sub64 i n) 1 = (i + (2 ^ 64 - n) + 1) mod 2 ^ 64"
    using assms by (simp add: add64_def sub64_def mod_Suc_eq)
  also have "i + (2 ^ 64 - n) + 1 = (i + 1 - n) + 2 ^ 64"
    using assms by arith
  finally show ?thesis using assms by (metis mod_add_self2 mod_less diff_le_self le_less_trans)
qed

section \<open>Array cells\<close>

text \<open>\<open>for (j = i; j < n; j++) a[j] = v;\<close>\<close>

function fill_range :: "(nat \<Rightarrow> 'a) \<Rightarrow> nat \<Rightarrow> nat \<Rightarrow> 'a \<Rightarrow> (nat \<Rightarrow> 'a)" where
  "fill_range f i n v = (if i < n then fill_range (f(i := v)) (i + 1) n v else f)"
  by pat_completeness auto
termination
  by (relation "measure (\<lambda>(f, i, n, v). n - i)") auto

declare fill_range.simps [simp del]

lemma fill_range_apply:
  "fill_range f i n v k = (if i \<le> k \<and> k < n then v else f k)"
proof (induction f i n v rule: fill_range.induct)
  case (1 f i n v)
  show ?case
  proof (cases "i < n")
    case True
    with 1 have "fill_range f i n v k = (if Suc i \<le> k \<and> k < n then v else (f(i := v)) k)"
      by (subst fill_range.simps) (simp del: fun_upd_apply)
    with True show ?thesis by auto
  next
    case False
    then show ?thesis by (subst fill_range.simps) auto
  qed
qed

lemma fill_range_eq: "fill_range f i n v = (\<lambda>k. if i \<le> k \<and> k < n then v else f k)"
  by (rule ext) (rule fill_range_apply)

section \<open>Stores and pointers\<close>

definition deref :: "(addr \<rightharpoonup> 'a) \<Rightarrow> addr \<Rightarrow> 'a option" where
  "deref h p = (if p = 0 then None else h p)"

definition store :: "(addr \<rightharpoonup> 'a) \<Rightarrow> addr \<Rightarrow> ('a \<Rightarrow> 'a) \<Rightarrow> (addr \<rightharpoonup> 'a) option" where
  "store h p f = (case deref h p of None \<Rightarrow> None | Some x \<Rightarrow> Some (h(p \<mapsto> f x)))"

lemma deref_Some [deref_simps]: "p \<noteq> 0 \<Longrightarrow> h p = Some x \<Longrightarrow> deref h p = Some x"
  by (simp add: deref_def)

lemma deref_null [simp]: "deref h 0 = None"
  by (simp add: deref_def)

lemma store_Some [deref_simps]: "p \<noteq> 0 \<Longrightarrow> h p = Some x \<Longrightarrow> store h p f = Some (h(p \<mapsto> f x))"
  by (simp add: store_def deref_def)

lemma deref_eq_Some_iff: "deref h p = Some x \<longleftrightarrow> p \<noteq> 0 \<and> h p = Some x"
  by (auto simp: deref_def)

lemma store_eq_Some_iff:
  "store h p f = Some h' \<longleftrightarrow> p \<noteq> 0 \<and> (\<exists>x. h p = Some x \<and> h' = h(p \<mapsto> f x))"
  by (auto simp: store_def deref_def split: option.splits)

end
