(* ===== verification/Memory_Management.thy ===== *)
theory Memory_Management
  imports Prelude
begin

text \<open>
  The interface of \<open>Kernel/include/memoryManagement.h\<close>: what the rest of the kernel uses of
  the memory manager, as a locale. Two files of the kernel implement it, one is chosen at
  build time; both are modelled (theories \<open>Bitmap\<close> and \<open>Buddy\<close>) and both interpret it.

  \<open>live m\<close> are the pointers handed out and not freed, \<open>extent m p\<close> the bytes that belong to
  the live pointer \<open>p\<close>.
\<close>

definition POW2 :: "nat \<Rightarrow> nat" where
  "POW2 x = 2 ^ x"

definition HEAP_SIZE :: nat where
  "HEAP_SIZE = 256 * 1024 * 1024"

record mem_t =
  info_size :: nat
  info_used :: nat
  info_free :: nat

locale memory_manager =
  fixes alloc :: "nat \<Rightarrow> 'm \<Rightarrow> addr \<times> 'm"
    and release :: "addr \<Rightarrow> 'm \<Rightarrow> 'm"
    and live :: "'m \<Rightarrow> addr set"
    and extent :: "'m \<Rightarrow> addr \<Rightarrow> addr set"
    and inv :: "'m \<Rightarrow> bool"
  assumes null_not_live: "inv m \<Longrightarrow> 0 \<notin> live m"
    and alloc_inv: "inv m \<Longrightarrow> alloc n m = (p, m') \<Longrightarrow> inv m'"
    and alloc_null: "inv m \<Longrightarrow> alloc n m = (0, m') \<Longrightarrow> live m' = live m"
    and alloc_fresh: "inv m \<Longrightarrow> alloc n m = (p, m') \<Longrightarrow> p \<noteq> 0 \<Longrightarrow> p \<notin> live m"
    and alloc_live: "inv m \<Longrightarrow> alloc n m = (p, m') \<Longrightarrow> p \<noteq> 0 \<Longrightarrow> live m' = insert p (live m)"
    and alloc_block: "inv m \<Longrightarrow> alloc n m = (p, m') \<Longrightarrow> p \<noteq> 0 \<Longrightarrow> {p ..< p + n} \<subseteq> extent m' p"
    and alloc_frame: "inv m \<Longrightarrow> alloc n m = (p, m') \<Longrightarrow> q \<in> live m \<Longrightarrow> extent m' q = extent m q"
    and extents_disjoint: "inv m \<Longrightarrow> p \<in> live m \<Longrightarrow> q \<in> live m \<Longrightarrow> p \<noteq> q \<Longrightarrow>
      extent m p \<inter> extent m q = {}"
    and free_inv: "inv m \<Longrightarrow> p \<in> live m \<Longrightarrow> inv (release p m)"
    and free_live: "inv m \<Longrightarrow> p \<in> live m \<Longrightarrow> live (release p m) = live m - {p}"
    and free_frame: "inv m \<Longrightarrow> p \<in> live m \<Longrightarrow> q \<in> live m \<Longrightarrow> q \<noteq> p \<Longrightarrow>
      extent (release p m) q = extent m q"
    and free_null: "release 0 m = m"
begin

lemma alloc_then_free_live:
  assumes "inv m" and "alloc n m = (p, m')" and "p \<noteq> 0"
  shows "live (release p m') = live m" and "inv (release p m')"
proof -
  have "inv m'" and "live m' = insert p (live m)" and "p \<notin> live m"
    using alloc_inv [OF assms(1,2)] alloc_live [OF assms] alloc_fresh [OF assms] by simp_all
  then show "live (release p m') = live m" and "inv (release p m')"
    by (auto simp: free_live intro: free_inv)
qed

lemma new_block_disjoint:
  assumes "inv m" and "alloc n m = (p, m')" and "p \<noteq> 0" and "q \<in> live m"
  shows "{p ..< p + n} \<inter> extent m q = {}"
proof -
  have "inv m'" and "live m' = insert p (live m)" and "p \<notin> live m"
    using alloc_inv [OF assms(1,2)] alloc_live [OF assms(1-3)] alloc_fresh [OF assms(1-3)]
    by simp_all
  then have "extent m' p \<inter> extent m' q = {}"
    using assms(4) by (intro extents_disjoint) auto
  moreover have "extent m' q = extent m q"
    by (rule alloc_frame [OF assms(1,2,4)])
  moreover have "{p ..< p + n} \<subseteq> extent m' p"
    by (rule alloc_block [OF assms(1-3)])
  ultimately show ?thesis by auto
qed

lemma release_fold:
  assumes "inv m" and "set ps \<subseteq> live m" and "distinct ps"
  shows "inv (fold release ps m)" and "live (fold release ps m) = live m - set ps"
proof -
  have "inv (fold release ps m) \<and> live (fold release ps m) = live m - set ps"
    using assms
  proof (induction ps arbitrary: m)
    case Nil
    then show ?case by simp
  next
    case (Cons p ps)
    then have "inv (release p m)" and "live (release p m) = live m - {p}"
      by (auto simp: free_live intro: free_inv)
    with Cons show ?case by auto
  qed
  then show "inv (fold release ps m)" and "live (fold release ps m) = live m - set ps"
    by blast+
qed

end

text \<open>
  A manager that also keeps every block inside its arena. The bitmap manager does. The buddy
  manager rounds blocks up to powers of two in a region whose size is not one, so its last
  block can end behind the region; it implements the smaller interface only.
\<close>

locale arena_manager = memory_manager +
  fixes arena :: "'a \<Rightarrow> addr set"
  assumes extent_in_arena: "inv m \<Longrightarrow> p \<in> live m \<Longrightarrow> extent m p \<subseteq> arena m"
    and alloc_arena: "inv m \<Longrightarrow> alloc n m = (p, m') \<Longrightarrow> arena m' = arena m"
begin

lemma new_block_in_arena:
  assumes "inv m" and "alloc n m = (p, m')" and "p \<noteq> 0"
  shows "{p ..< p + n} \<subseteq> arena m"
proof -
  have "inv m'" and "p \<in> live m'"
    using alloc_inv [OF assms(1,2)] alloc_live [OF assms] by simp_all
  then have "extent m' p \<subseteq> arena m'"
    by (rule extent_in_arena)
  with assms show ?thesis
    by (metis alloc_arena alloc_block subset_trans)
qed

end

end
