(* ===== verification/Bitmap.thy ===== *)
theory Bitmap
  imports Memory_Management
begin

text \<open>
  \<open>Kernel/utils/memory/bitmap.c\<close>: the default memory manager. One byte of \<open>bitmap\<close> per
  block of 64 bytes, \<open>BORDER\<close> for the first block of an allocation and \<open>USED\<close> for the blocks
  after it. The static pointer to the manager and the structure it points to are the state.
  Addresses and the \<open>uint64_t\<close> counters are natural numbers; the two subtractions that could
  wrap are \<open>sub64\<close>.
\<close>

definition FREE :: nat where "FREE = 0"
definition USED :: nat where "USED = 1"
definition BORDER :: nat where "BORDER = 2"
definition BLOCK_SIZE :: nat where "BLOCK_SIZE = 64"

record bitmap_manager =
  bitmap :: "nat \<Rightarrow> nat"
  realMemStart :: addr
  blockCount :: nat
  usedBlocksCount :: nat

record bitmap_state =
  memoryBaseAddress :: addr
  manager :: bitmap_manager

definition sizeof_bitmap_manager :: nat where
  "sizeof_bitmap_manager = 32"

section \<open>Operations\<close>

definition bitmap_create :: "addr \<Rightarrow> nat \<Rightarrow> bitmap_state \<Rightarrow> addr \<times> bitmap_state" where
  "bitmap_create startAddress totalSize s =
     (let s1 = s\<lparr>memoryBaseAddress := startAddress\<rparr>; structSize = sizeof_bitmap_manager in
      if totalSize \<le> structSize then (0, s1)
      else
        let count = (totalSize - structSize) div (BLOCK_SIZE + 1);
            m1 = (manager s1)\<lparr>blockCount := count\<rparr> in
        if count = 0 then (0, s1\<lparr>manager := m1\<rparr>)
        else
          let bitmapAddr = startAddress + structSize;
              m2 = m1\<lparr>usedBlocksCount := 0, realMemStart := bitmapAddr + count,
                      bitmap := fill_range (bitmap m1) 0 count FREE\<rparr>
          in (startAddress, s1\<lparr>manager := m2\<rparr>))"

text \<open>
  The search loop of \<open>mm_alloc\<close>: \<open>freeBlocks\<close> counts the free cells that end at the current
  one. The result is the index \<open>i\<close> at which the run is long enough.
\<close>

function alloc_scan :: "(nat \<Rightarrow> nat) \<Rightarrow> nat \<Rightarrow> nat \<Rightarrow> nat \<Rightarrow> nat \<Rightarrow> nat option" where
  "alloc_scan bm count blocksNeeded i freeBlocks =
     (if i < count then
        if bm i = FREE then
          if freeBlocks + 1 = blocksNeeded then Some i
          else alloc_scan bm count blocksNeeded (i + 1) (freeBlocks + 1)
        else alloc_scan bm count blocksNeeded (i + 1) 0
      else None)"
  by pat_completeness auto
termination
  by (relation "measure (\<lambda>(bm, count, need, i, fb). count - i)") auto

definition bitmap_alloc :: "nat \<Rightarrow> bitmap_state \<Rightarrow> addr \<times> bitmap_state" where
  "bitmap_alloc bytes s =
     (let m = manager s in
      if memoryBaseAddress s = 0 \<or> bytes = 0 \<or> bytes > POW2 17 then (0, s)
      else
        let blocksNeeded = (bytes + (BLOCK_SIZE - 1)) div BLOCK_SIZE in
        if blocksNeeded > sub64 (blockCount m) (usedBlocksCount m) then (0, s)
        else
          (case alloc_scan (bitmap m) (blockCount m) blocksNeeded 0 0 of
             None \<Rightarrow> (0, s)
           | Some i \<Rightarrow>
               let start = add64 (sub64 i blocksNeeded) 1;
                   bm = fill_range ((bitmap m)(start := BORDER)) (start + 1) (i + 1) USED
               in (realMemStart m + start * BLOCK_SIZE,
                   s\<lparr>manager := m\<lparr>bitmap := bm,
                      usedBlocksCount := add64 (usedBlocksCount m) blocksNeeded\<rparr>\<rparr>)))"

text \<open>The loop of \<open>mm_free\<close> over the \<open>USED\<close> cells behind the border.\<close>

function free_run :: "(nat \<Rightarrow> nat) \<Rightarrow> nat \<Rightarrow> nat \<Rightarrow> nat \<Rightarrow> (nat \<Rightarrow> nat) \<times> nat" where
  "free_run bm used count i =
     (if i < count \<and> bm i = USED then free_run (bm(i := FREE)) (sub64 used 1) count (i + 1)
      else (bm, used))"
  by pat_completeness auto
termination
  by (relation "measure (\<lambda>(bm, used, count, i). count - i)") auto

definition bitmap_free :: "addr \<Rightarrow> bitmap_state \<Rightarrow> bitmap_state" where
  "bitmap_free ptr s =
     (let m = manager s in
      if memoryBaseAddress s = 0 \<or> ptr = 0 then s
      else if ptr < realMemStart m then s
      else
        let index = (ptr - realMemStart m) div BLOCK_SIZE in
        if index \<ge> blockCount m then s
        else if bitmap m index \<noteq> BORDER then s
        else
          let (bm, used) = free_run ((bitmap m)(index := FREE)) (sub64 (usedBlocksCount m) 1)
                             (blockCount m) (index + 1)
          in s\<lparr>manager := m\<lparr>bitmap := bm, usedBlocksCount := used\<rparr>\<rparr>)"

definition bitmap_info :: "bitmap_state \<Rightarrow> mem_t" where
  "bitmap_info s =
     (if memoryBaseAddress s = 0 then \<lparr>info_size = 0, info_used = 0, info_free = 0\<rparr>
      else
        let size = blockCount (manager s); used = usedBlocksCount (manager s)
        in \<lparr>info_size = size, info_used = used, info_free = sub64 size used\<rparr>)"

declare alloc_scan.simps [simp del] free_run.simps [simp del]

lemma cell_values [simp]:
  "FREE \<noteq> USED" "USED \<noteq> FREE" "FREE \<noteq> BORDER" "BORDER \<noteq> FREE" "USED \<noteq> BORDER" "BORDER \<noteq> USED"
  by (simp_all add: FREE_def USED_def BORDER_def)

section \<open>Abstraction and invariant\<close>

definition free_cells :: "(nat \<Rightarrow> nat) \<Rightarrow> nat \<Rightarrow> nat \<Rightarrow> bool" where
  "free_cells bm start n \<longleftrightarrow> (\<forall>k. start \<le> k \<and> k < start + n \<longrightarrow> bm k = FREE)"

definition occupied :: "(nat \<Rightarrow> nat) \<Rightarrow> nat \<Rightarrow> nat set" where
  "occupied bm count = {k. k < count \<and> bm k \<noteq> FREE}"

definition used_run :: "(nat \<Rightarrow> nat) \<Rightarrow> nat \<Rightarrow> nat \<Rightarrow> nat set" where
  "used_run bm count i = {k. i \<le> k \<and> k < count \<and> (\<forall>j. i \<le> j \<and> j \<le> k \<longrightarrow> bm j = USED)}"

definition block_cells :: "(nat \<Rightarrow> nat) \<Rightarrow> nat \<Rightarrow> nat \<Rightarrow> nat set" where
  "block_cells bm count i = insert i (used_run bm count (i + 1))"

definition cell_of :: "bitmap_state \<Rightarrow> addr \<Rightarrow> nat" where
  "cell_of s p = (p - realMemStart (manager s)) div BLOCK_SIZE"

definition bitmap_live :: "bitmap_state \<Rightarrow> addr set" where
  "bitmap_live s = (let m = manager s in
     {realMemStart m + i * BLOCK_SIZE | i. i < blockCount m \<and> bitmap m i = BORDER})"

definition bitmap_extent :: "bitmap_state \<Rightarrow> addr \<Rightarrow> addr set" where
  "bitmap_extent s p = (let m = manager s in
     {b. realMemStart m \<le> b \<and> cell_of s b \<in> block_cells (bitmap m) (blockCount m) (cell_of s p)})"

definition bitmap_arena :: "bitmap_state \<Rightarrow> addr set" where
  "bitmap_arena s = (let m = manager s in
     {realMemStart m ..< realMemStart m + blockCount m * BLOCK_SIZE})"

definition cells_ok :: "(nat \<Rightarrow> nat) \<Rightarrow> nat \<Rightarrow> bool" where
  "cells_ok bm count \<longleftrightarrow>
     (\<forall>i < count. bm i = FREE \<or> bm i = USED \<or> bm i = BORDER) \<and>
     (\<forall>i < count. bm i = USED \<longrightarrow> 0 < i \<and> bm (i - 1) \<noteq> FREE)"

definition bitmap_inv :: "bitmap_state \<Rightarrow> bool" where
  "bitmap_inv s \<longleftrightarrow> (let m = manager s in
     memoryBaseAddress s \<noteq> 0 \<and> 0 < realMemStart m \<and>
     realMemStart m + blockCount m * BLOCK_SIZE < 2 ^ 64 \<and>
     usedBlocksCount m = card (occupied (bitmap m) (blockCount m)) \<and>
     cells_ok (bitmap m) (blockCount m))"

section \<open>The search and release loops\<close>

lemma alloc_scan_Some:
  assumes "alloc_scan bm count need i fb = Some j"
    and "fb \<le> i" and "fb < need" and "free_cells bm (i - fb) fb"
  shows "j < count \<and> need \<le> j + 1 \<and> free_cells bm (j + 1 - need) need"
  using assms
proof (induction bm count need i fb rule: alloc_scan.induct)
  case (1 bm count need i fb)
  show ?case
  proof (cases "i < count \<and> bm i = FREE")
    case True
    have fc: "free_cells bm (i - fb) (fb + 1)"
      using True 1(4,6) unfolding free_cells_def
      by (metis add_Suc_right le_add_diff_inverse2 less_Suc_eq add.right_neutral One_nat_def)
    show ?thesis
    proof (cases "fb + 1 = need")
      case True
      with \<open>i < count \<and> bm i = FREE\<close> 1(3) have "j = i"
        by (subst (asm) alloc_scan.simps) simp
      moreover have "i - fb = i + 1 - need"
        using True by simp
      ultimately show ?thesis
        using fc True 1(4) \<open>i < count \<and> bm i = FREE\<close> by simp
    next
      case False
      with \<open>i < count \<and> bm i = FREE\<close> 1(3)
      have "alloc_scan bm count need (i + 1) (fb + 1) = Some j"
        by (subst (asm) alloc_scan.simps) simp
      with 1(1) \<open>i < count \<and> bm i = FREE\<close> False 1(4,5) fc show ?thesis
        by simp
    qed
  next
    case False
    with 1(3) have "i < count" and "bm i \<noteq> FREE" and "alloc_scan bm count need (i + 1) 0 = Some j"
      by (subst (asm) alloc_scan.simps; simp split: if_splits)+
    with 1(2) 1(5) show ?thesis
      by (simp add: free_cells_def)
  qed
qed

lemma alloc_scan_first_fit:
  assumes "free_cells bm start need" and "start + need \<le> count"
    and "fb \<le> i" and "fb < need" and "i - fb \<le> start"
  shows "\<exists>j. alloc_scan bm count need i fb = Some j \<and> j + 1 \<le> start + need"
  using assms
proof (induction bm count need i fb rule: alloc_scan.induct)
  case (1 bm count need i fb)
  have i: "i < count"
    using 1(4-7) by arith
  show ?case
  proof (cases "bm i = FREE")
    case True
    show ?thesis
    proof (cases "fb + 1 = need")
      case True
      with i \<open>bm i = FREE\<close> 1(5,7) show ?thesis
        by (subst alloc_scan.simps) simp
    next
      case False
      with 1(1) 1(3-7) i \<open>bm i = FREE\<close> show ?thesis
        by (subst alloc_scan.simps) simp
    qed
  next
    case False
    have "i < start"
    proof (rule ccontr)
      assume "\<not> i < start"
      with 1(5-7) have "start \<le> i \<and> i < start + need" by arith
      with 1(3) False show False by (simp add: free_cells_def)
    qed
    with 1(2) 1(3-6) i False show ?thesis
      by (subst alloc_scan.simps) simp
  qed
qed

lemma used_run_unfold:
  "used_run bm count i = (if i < count \<and> bm i = USED then insert i (used_run bm count (i + 1)) else {})"
proof (cases "i < count \<and> bm i = USED")
  case True
  have "k \<in> used_run bm count i \<longleftrightarrow> k = i \<or> k \<in> used_run bm count (i + 1)" for k
  proof (cases "k = i")
    case True
    with \<open>i < count \<and> bm i = USED\<close> show ?thesis
      by (auto simp: used_run_def dest: antisym)
  next
    case False
    then have "(i \<le> k) = (i + 1 \<le> k)" by arith
    moreover have "(\<forall>j. i \<le> j \<and> j \<le> k \<longrightarrow> bm j = USED) = (\<forall>j. i + 1 \<le> j \<and> j \<le> k \<longrightarrow> bm j = USED)"
      using True by (metis Suc_eq_plus1 Suc_leD le_antisym not_less_eq_eq)
    ultimately show ?thesis
      using False by (simp add: used_run_def)
  qed
  with True show ?thesis by auto
next
  case False
  then show ?thesis
    unfolding used_run_def by force
qed

lemma finite_used_run [simp]: "finite (used_run bm count i)"
  unfolding used_run_def by (rule finite_subset [of _ "{..<count}"]) auto

lemma used_run_upd: "k < i \<Longrightarrow> used_run (bm(k := v)) count i = used_run bm count i"
  unfolding used_run_def by auto

lemma free_run_spec:
  assumes "card (used_run bm count i) \<le> used" and "used < 2 ^ 64"
  shows "free_run bm used count i =
    ((\<lambda>k. if k \<in> used_run bm count i then FREE else bm k), used - card (used_run bm count i))"
  using assms
proof (induction bm used count i rule: free_run.induct)
  case (1 bm used count i)
  show ?case
  proof (cases "i < count \<and> bm i = USED")
    case True
    then have run: "used_run bm count i = insert i (used_run bm count (i + 1))"
      by (subst used_run_unfold) simp
    have nin: "i \<notin> used_run bm count (i + 1)"
      by (simp add: used_run_def)
    then have card: "card (used_run bm count i) = card (used_run bm count (i + 1)) + 1"
      by (simp add: run)
    with 1(2,3) have sub: "sub64 used 1 = used - 1"
      by (simp add: u64_simps)
    have upd: "used_run (bm(i := FREE)) count (i + 1) = used_run bm count (i + 1)"
      by (simp add: used_run_upd)
    have
      "free_run (bm(i := FREE)) (sub64 used 1) count (i + 1) =
       ((\<lambda>k. if k \<in> used_run bm count (i + 1) then FREE else (bm(i := FREE)) k),
        used - 1 - card (used_run bm count (i + 1)))"
      using 1(1) [OF True] 1(2,3) card unfolding sub upd by (simp del: fun_upd_apply)
    with True card run show ?thesis
      by (subst free_run.simps) auto
  next
    case False
    then have "used_run bm count i = {}"
      by (subst used_run_unfold) auto
    with False show ?thesis
      by (subst free_run.simps) auto
  qed
qed

section \<open>Allocation\<close>

definition marked :: "(nat \<Rightarrow> nat) \<Rightarrow> nat \<Rightarrow> nat \<Rightarrow> (nat \<Rightarrow> nat)" where
  "marked bm start n = (\<lambda>k. if k = start then BORDER else if start < k \<and> k < start + n then USED else bm k)"

definition cleared :: "(nat \<Rightarrow> nat) \<Rightarrow> nat set \<Rightarrow> (nat \<Rightarrow> nat)" where
  "cleared bm A = (\<lambda>k. if k \<in> A then FREE else bm k)"

lemma finite_occupied [simp]: "finite (occupied bm count)"
  unfolding occupied_def by simp

lemma occupied_le: "card (occupied bm count) \<le> count"
proof -
  have "occupied bm count \<subseteq> {..<count}" by (auto simp: occupied_def)
  then show ?thesis by (metis card_mono card_lessThan finite_lessThan)
qed

lemma fill_marked:
  "0 < n \<Longrightarrow> fill_range (bm(start := BORDER)) (start + 1) (start + n) USED = marked bm start n"
  by (auto simp: fill_range_eq marked_def)

lemma occupied_marked:
  assumes "free_cells bm start n" and "start + n \<le> count" and "0 < n"
  shows "occupied (marked bm start n) count = occupied bm count \<union> {start ..< start + n}"
    and "card (occupied (marked bm start n) count) = card (occupied bm count) + n"
proof -
  show eq: "occupied (marked bm start n) count = occupied bm count \<union> {start ..< start + n}"
    using assms by (auto simp: occupied_def marked_def)
  have "occupied bm count \<inter> {start ..< start + n} = {}"
    using assms(1) by (auto simp: occupied_def free_cells_def)
  then show "card (occupied (marked bm start n) count) = card (occupied bm count) + n"
    unfolding eq by (subst card_Un_disjoint) auto
qed

lemma cells_ok_marked:
  assumes "cells_ok bm count" and "free_cells bm start n" and "0 < n"
  shows "cells_ok (marked bm start n) count"
proof -
  have "0 < i \<and> marked bm start n (i - 1) \<noteq> FREE"
    if "i < count" and "marked bm start n i = USED" for i
  proof (cases "start < i \<and> i < start + n")
    case True
    then show ?thesis by (auto simp: marked_def)
  next
    case False
    with that have i: "bm i = USED" and "i \<noteq> start"
      by (auto simp: marked_def split: if_splits)
    with that assms(1) have "0 < i" and prev: "bm (i - 1) \<noteq> FREE"
      by (auto simp: cells_ok_def)
    then show ?thesis by (auto simp: marked_def)
  qed
  then show ?thesis
    using assms(1) by (auto simp: cells_ok_def marked_def)
qed

text \<open>What a successful \<open>mm_alloc\<close> does, in terms of cells.\<close>

definition blocks_for :: "nat \<Rightarrow> nat" where
  "blocks_for bytes = (bytes + 63) div 64"

lemma blocks_for_pos: "0 < bytes \<Longrightarrow> 0 < blocks_for bytes"
  by (simp add: blocks_for_def)

lemma blocks_for_enough: "bytes \<le> blocks_for bytes * 64"
  unfolding blocks_for_def by arith

lemma bitmap_invD:
  assumes "bitmap_inv s"
  shows "memoryBaseAddress s \<noteq> 0" "0 < realMemStart (manager s)"
    "realMemStart (manager s) + blockCount (manager s) * 64 < 2 ^ 64"
    "usedBlocksCount (manager s) = card (occupied (bitmap (manager s)) (blockCount (manager s)))"
    "cells_ok (bitmap (manager s)) (blockCount (manager s))"
    "blockCount (manager s) < 2 ^ 64"
    "usedBlocksCount (manager s) \<le> blockCount (manager s)"
  using assms occupied_le by (auto simp: bitmap_inv_def Let_def BLOCK_SIZE_def)

lemma bitmap_alloc_cases:
  assumes "bitmap_inv s"
  obtains (Null) "bitmap_alloc bytes s = (0, s)"
  | (Block) start where "0 < bytes" "bytes \<le> POW2 17"
      "start + blocks_for bytes \<le> blockCount (manager s)"
      "free_cells (bitmap (manager s)) start (blocks_for bytes)"
      "bitmap_alloc bytes s = (realMemStart (manager s) + start * 64,
         s\<lparr>manager := (manager s)\<lparr>bitmap := marked (bitmap (manager s)) start (blocks_for bytes),
           usedBlocksCount := usedBlocksCount (manager s) + blocks_for bytes\<rparr>\<rparr>)"
proof (cases "bitmap_alloc bytes s = (0, s)")
  case True
  then show ?thesis by (rule Null)
next
  case False
  note inv = bitmap_invD [OF assms]
  define m where "m = manager s"
  define need where "need = blocks_for bytes"
  from False have guard: "0 < bytes" "bytes \<le> POW2 17"
      "need \<le> sub64 (blockCount m) (usedBlocksCount m)"
    by (auto simp: bitmap_alloc_def Let_def m_def need_def blocks_for_def BLOCK_SIZE_def
        split: if_splits)
  from False guard obtain i where scan: "alloc_scan (bitmap m) (blockCount m) need 0 0 = Some i"
    by (auto simp: bitmap_alloc_def Let_def m_def need_def blocks_for_def BLOCK_SIZE_def
        split: if_splits option.splits)
  have pos: "0 < need"
    unfolding need_def by (rule blocks_for_pos [OF guard(1)])
  have res: "i < blockCount m" "need \<le> i + 1" "free_cells (bitmap m) (i + 1 - need) need"
    using alloc_scan_Some [OF scan] pos by (simp_all add: free_cells_def)
  have "sub64 (blockCount m) (usedBlocksCount m) = blockCount m - usedBlocksCount m"
    using inv by (simp add: m_def u64_simps)
  with guard have room: "usedBlocksCount m + need \<le> blockCount m"
    using inv(7) by (simp add: m_def)
  have start: "add64 (sub64 i need) 1 = i + 1 - need"
    using res inv(6) by (intro add64_sub64_cancel) (simp_all add: m_def)
  have "(i + 1 - need) + need = i + 1"
    using res by simp
  then have fill: "fill_range ((bitmap m)(i + 1 - need := BORDER)) (i + 1 - need + 1) (i + 1) USED
      = marked (bitmap m) (i + 1 - need) need"
    using fill_marked [OF pos, of "bitmap m" "i + 1 - need"] by simp
  have used: "add64 (usedBlocksCount m) need = usedBlocksCount m + need"
    using room inv(6) by (simp add: m_def u64_simps)
  have "bitmap_alloc bytes s = (realMemStart m + (i + 1 - need) * 64,
      s\<lparr>manager := m\<lparr>bitmap := marked (bitmap m) (i + 1 - need) need,
        usedBlocksCount := usedBlocksCount m + need\<rparr>\<rparr>)"
    using guard scan inv(1) start fill used
    by (simp add: bitmap_alloc_def Let_def m_def [symmetric] need_def [unfolded blocks_for_def, symmetric]
        BLOCK_SIZE_def del: One_nat_def)
  with guard res show ?thesis
    by (intro Block [of "i + 1 - need"]) (simp_all add: m_def need_def)
qed

lemma bitmap_alloc_inv:
  assumes "bitmap_inv s" and "bitmap_alloc bytes s = (p, s')"
  shows "bitmap_inv s'"
  using assms(1)
proof (cases rule: bitmap_alloc_cases [of s bytes])
  case Null
  with assms show ?thesis by simp
next
  case (Block start)
  note pos = blocks_for_pos [OF Block(1)]
  have "card (occupied (marked (bitmap (manager s)) start (blocks_for bytes)) (blockCount (manager s))) =
    usedBlocksCount (manager s) + blocks_for bytes"
    using occupied_marked(2) [OF Block(4,3) pos] bitmap_invD(4) [OF assms(1)] by simp
  moreover have "cells_ok (marked (bitmap (manager s)) start (blocks_for bytes)) (blockCount (manager s))"
    using bitmap_invD(5) [OF assms(1)] Block(4) pos by (rule cells_ok_marked)
  ultimately show ?thesis
    using assms Block(5) by (auto simp: bitmap_inv_def Let_def)
qed

declare BLOCK_SIZE_def [simp]

section \<open>Blocks as sets of cells\<close>

lemma cell_of_block [simp]:
  "cell_of s (realMemStart (manager s) + i * 64) = i"
  by (simp add: cell_of_def)

lemma bitmap_live_iff:
  "p \<in> bitmap_live s \<longleftrightarrow>
    (\<exists>i. p = realMemStart (manager s) + i * 64 \<and> i < blockCount (manager s) \<and>
      bitmap (manager s) i = BORDER)"
  by (auto simp: bitmap_live_def Let_def)

lemma block_cellsD: "k \<in> block_cells bm count i \<Longrightarrow> i \<le> k \<and> (\<forall>j. i < j \<and> j \<le> k \<longrightarrow> bm j = USED)"
  by (auto simp: block_cells_def used_run_def)

lemma block_cells_iff:
  "i < count \<Longrightarrow>
    k \<in> block_cells bm count i \<longleftrightarrow> i \<le> k \<and> k < count \<and> (\<forall>j. i < j \<and> j \<le> k \<longrightarrow> bm j = USED)"
  by (cases "k = i") (auto simp: block_cells_def used_run_def)

lemma finite_block_cells [simp]: "finite (block_cells bm count i)"
  by (simp add: block_cells_def)

lemma block_cells_disjoint:
  assumes "bm i = BORDER" and "bm j = BORDER" and "i \<noteq> j"
  shows "block_cells bm count i \<inter> block_cells bm count j = {}"
proof -
  have "k \<notin> block_cells bm count j" if "k \<in> block_cells bm count i" for k
  proof
    assume "k \<in> block_cells bm count j"
    with that have "i \<le> k" "j \<le> k" "\<forall>l. i < l \<and> l \<le> k \<longrightarrow> bm l = USED" "\<forall>l. j < l \<and> l \<le> k \<longrightarrow> bm l = USED"
      by (auto dest: block_cellsD)
    with assms show False by (metis cell_values(5) linorder_neqE_nat)
  qed
  then show ?thesis by auto
qed

lemma block_cells_occupied:
  assumes "i < count" and "bm i = BORDER"
  shows "block_cells bm count i \<subseteq> occupied bm count"
  using assms by (auto simp: block_cells_def used_run_def occupied_def)

lemma block_cells_marked_new:
  assumes "cells_ok bm count" and "free_cells bm start n" and "0 < n" and "start + n \<le> count"
  shows "block_cells (marked bm start n) count start = {start ..< start + n}"
proof -
  have out: "marked bm start n (start + n) \<noteq> USED" if "start + n < count"
  proof
    assume "marked bm start n (start + n) = USED"
    then have "bm (start + n) = USED" using assms(3) by (simp add: marked_def)
    with that assms(1) have "bm (start + n - 1) \<noteq> FREE" by (auto simp: cells_ok_def)
    with assms(2,3) show False by (simp add: free_cells_def)
  qed
  have "k \<in> block_cells (marked bm start n) count start \<longleftrightarrow> start \<le> k \<and> k < start + n" for k
  proof
    assume k: "k \<in> block_cells (marked bm start n) count start"
    have "start < count" using assms(3,4) by simp
    from block_cells_iff [OF this] k have "start \<le> k" and "k < count"
      and run: "\<forall>j. start < j \<and> j \<le> k \<longrightarrow> marked bm start n j = USED"
      by blast+
    moreover have "\<not> start + n \<le> k"
    proof
      assume le: "start + n \<le> k"
      then have "marked bm start n (start + n) = USED"
        using assms(3) by (intro run [rule_format]) simp
      with out le \<open>k < count\<close> show False by simp
    qed
    ultimately show "start \<le> k \<and> k < start + n" by simp
  next
    assume "start \<le> k \<and> k < start + n"
    with assms(3,4) show "k \<in> block_cells (marked bm start n) count start"
      by (auto simp: block_cells_iff marked_def)
  qed
  then show ?thesis by (intro set_eqI) simp
qed

lemma block_cells_marked_other:
  assumes "free_cells bm start n" and "bm i = BORDER" and "i < count" and "0 < n"
  shows "block_cells (marked bm start n) count i = block_cells bm count i"
proof -
  have i: "i < start \<or> start + n \<le> i"
    using assms(1,2) by (metis cell_values(4) free_cells_def not_le)
  have same: "(\<forall>j. i < j \<and> j \<le> k \<longrightarrow> marked bm start n j = USED) =
      (\<forall>j. i < j \<and> j \<le> k \<longrightarrow> bm j = USED)" (is "?L = ?R") for k
  proof
    assume L: ?L
    show ?R
    proof (intro allI impI)
      fix j assume j: "i < j \<and> j \<le> k"
      with L have mj: "marked bm start n j = USED" by blast
      show "bm j = USED"
      proof (cases "start < j \<and> j < start + n")
        case True
        with i j have "i < start \<and> start \<le> k" by arith
        with L have "marked bm start n start = USED" by blast
        then show ?thesis by (simp add: marked_def)
      next
        case False
        with mj show ?thesis by (auto simp: marked_def split: if_splits)
      qed
    qed
  next
    assume R: ?R
    show ?L
    proof (intro allI impI)
      fix j assume j: "i < j \<and> j \<le> k"
      with R have bj: "bm j = USED" by blast
      with assms(1) have "\<not> (start \<le> j \<and> j < start + n)"
        by (auto simp: free_cells_def)
      with bj assms(4) show "marked bm start n j = USED" by (auto simp: marked_def)
    qed
  qed
  show ?thesis
    using assms(3) by (intro set_eqI) (simp add: block_cells_iff same)
qed

lemma block_cells_cleared_other:
  assumes "bm i = BORDER" and "bm j = BORDER" and "i \<noteq> j" and "j < count"
  shows "block_cells (cleared bm (block_cells bm count i)) count j = block_cells bm count j"
proof (intro set_eqI iffI)
  fix k assume k: "k \<in> block_cells (cleared bm (block_cells bm count i)) count j"
  then show "k \<in> block_cells bm count j"
    using assms(4) by (auto simp: block_cells_iff cleared_def) (metis cell_values(1))
next
  fix k assume k: "k \<in> block_cells bm count j"
  have "l \<notin> block_cells bm count i" if "j < l" "l \<le> k" for l
  proof -
    have "l \<in> block_cells bm count j"
      using k that assms(4) by (auto simp: block_cells_iff)
    with block_cells_disjoint [OF assms(1-3), of count] show ?thesis by blast
  qed
  with k assms(4) show "k \<in> block_cells (cleared bm (block_cells bm count i)) count j"
    by (auto simp: block_cells_iff cleared_def)
qed

lemma cells_ok_cleared:
  assumes "cells_ok bm count" and "i < count"
  shows "cells_ok (cleared bm (block_cells bm count i)) count"
proof -
  let ?c = "cleared bm (block_cells bm count i)"
  have "0 < k \<and> ?c (k - 1) \<noteq> FREE" if k: "k < count" and "?c k = USED" for k
  proof -
    from that have kn: "k \<notin> block_cells bm count i" and bk: "bm k = USED"
      by (auto simp: cleared_def split: if_splits)
    from bk k assms(1) have prev: "0 < k" "bm (k - 1) \<noteq> FREE"
      by (auto simp: cells_ok_def)
    have "k - 1 \<notin> block_cells bm count i"
    proof
      assume k1: "k - 1 \<in> block_cells bm count i"
      then have "i \<le> k - 1" and run: "\<forall>j. i < j \<and> j \<le> k - 1 \<longrightarrow> bm j = USED"
        by (auto dest: block_cellsD)
      have "bm j = USED" if "i < j" "j \<le> k" for j
        using that run bk prev(1) by (cases "j = k") auto
      with kn k \<open>i \<le> k - 1\<close> assms(2) show False by (simp add: block_cells_iff)
    qed
    with prev show ?thesis by (simp add: cleared_def)
  qed
  moreover have "\<forall>k < count. ?c k = FREE \<or> ?c k = USED \<or> ?c k = BORDER"
    using assms(1) by (auto simp: cells_ok_def cleared_def)
  ultimately show ?thesis
    unfolding cells_ok_def by blast
qed

lemma bitmap_free_live:
  assumes "bitmap_inv s" and "i < blockCount (manager s)" and "bitmap (manager s) i = BORDER"
  shows "bitmap_free (realMemStart (manager s) + i * 64) s =
    s\<lparr>manager := (manager s)\<lparr>
        bitmap := cleared (bitmap (manager s)) (block_cells (bitmap (manager s)) (blockCount (manager s)) i),
        usedBlocksCount := usedBlocksCount (manager s) -
          card (block_cells (bitmap (manager s)) (blockCount (manager s)) i)\<rparr>\<rparr>"
proof -
  define m where "m = manager s"
  note inv = bitmap_invD [OF assms(1), folded m_def]
  let ?run = "used_run (bitmap m) (blockCount m) (i + 1)"
  have card: "card (block_cells (bitmap m) (blockCount m) i) = card ?run + 1"
    by (simp add: block_cells_def used_run_def)
  have "card (block_cells (bitmap m) (blockCount m) i) \<le> usedBlocksCount m"
    using block_cells_occupied assms(2,3) inv(4) unfolding m_def by (metis card_mono finite_occupied)
  with card have le: "card ?run + 1 \<le> usedBlocksCount m" by simp
  have u: "sub64 (usedBlocksCount m) 1 = usedBlocksCount m - 1"
    using le inv(6,7) by (simp add: u64_simps)
  have run: "used_run ((bitmap m)(i := FREE)) (blockCount m) (i + 1) = ?run"
    by (simp add: used_run_upd)
  have "free_run ((bitmap m)(i := FREE)) (usedBlocksCount m - 1) (blockCount m) (i + 1) =
      ((\<lambda>k. if k \<in> ?run then FREE else ((bitmap m)(i := FREE)) k), usedBlocksCount m - 1 - card ?run)"
    using le inv(6,7) by (subst free_run_spec) (simp_all add: used_run_upd del: fun_upd_apply)
  moreover have "(\<lambda>k. if k \<in> ?run then FREE else ((bitmap m)(i := FREE)) k) =
      cleared (bitmap m) (block_cells (bitmap m) (blockCount m) i)"
    by (auto simp: cleared_def block_cells_def)
  ultimately show ?thesis
    using assms inv(1,2) u card
    by (simp add: bitmap_free_def Let_def m_def [symmetric] del: fun_upd_apply One_nat_def)
qed

lemma occupied_cleared: "occupied (cleared bm A) count = occupied bm count - A"
  by (auto simp: occupied_def cleared_def)

lemma bitmap_free_inv:
  assumes "bitmap_inv s" and "p \<in> bitmap_live s"
  shows "bitmap_inv (bitmap_free p s)"
proof -
  from assms(2) obtain i where i: "p = realMemStart (manager s) + i * 64" "i < blockCount (manager s)"
      "bitmap (manager s) i = BORDER"
    by (auto simp: bitmap_live_iff)
  let ?B = "block_cells (bitmap (manager s)) (blockCount (manager s)) i"
  have "card (occupied (bitmap (manager s)) (blockCount (manager s)) - ?B) =
      usedBlocksCount (manager s) - card ?B"
    using bitmap_invD(4) [OF assms(1)] block_cells_occupied [of i _ "bitmap (manager s)", OF i(2,3)]
    by (simp add: card_Diff_subset)
  moreover have "cells_ok (cleared (bitmap (manager s)) ?B) (blockCount (manager s))"
    using bitmap_invD(5) [OF assms(1)] i(2) by (rule cells_ok_cleared)
  ultimately show ?thesis
    using assms(1) i bitmap_free_live [OF assms(1) i(2,3)]
    by (auto simp: bitmap_inv_def Let_def occupied_cleared)
qed

section \<open>The manager implements the interface\<close>

lemma bitmap_live_alloc:
  assumes "bitmap_inv s" and "free_cells (bitmap (manager s)) start n" and "0 < n"
    and "start + n \<le> blockCount (manager s)"
    and "s' = s\<lparr>manager := (manager s)\<lparr>bitmap := marked (bitmap (manager s)) start n, usedBlocksCount := u\<rparr>\<rparr>"
  shows "bitmap_live s' = insert (realMemStart (manager s) + start * 64) (bitmap_live s)"
    and "realMemStart (manager s) + start * 64 \<notin> bitmap_live s"
proof -
  have "marked (bitmap (manager s)) start n i = BORDER \<longleftrightarrow> i = start \<or> bitmap (manager s) i = BORDER" for i
    using assms(2) by (auto simp: marked_def free_cells_def)
  then show "bitmap_live s' = insert (realMemStart (manager s) + start * 64) (bitmap_live s)"
    using assms(3-5) by (intro set_eqI) (auto simp: bitmap_live_iff)
  have "bitmap (manager s) start = FREE"
    using assms(2,3) by (simp add: free_cells_def)
  then show "realMemStart (manager s) + start * 64 \<notin> bitmap_live s"
    by (auto simp: bitmap_live_iff)
qed

lemma bitmap_extent_iff:
  "b \<in> bitmap_extent s (realMemStart (manager s) + i * 64) \<longleftrightarrow>
    realMemStart (manager s) \<le> b \<and>
    (b - realMemStart (manager s)) div 64 \<in> block_cells (bitmap (manager s)) (blockCount (manager s)) i"
  by (simp add: bitmap_extent_def Let_def cell_of_def)

lemma bitmap_extent_alloc:
  assumes "bitmap_inv s" and "free_cells (bitmap (manager s)) start n" and "0 < n"
    and "start + n \<le> blockCount (manager s)"
    and "s' = s\<lparr>manager := (manager s)\<lparr>bitmap := marked (bitmap (manager s)) start n, usedBlocksCount := u\<rparr>\<rparr>"
  shows "bitmap_extent s' (realMemStart (manager s) + start * 64) =
      {realMemStart (manager s) + start * 64 ..< realMemStart (manager s) + (start + n) * 64}"
    and "q \<in> bitmap_live s \<Longrightarrow> bitmap_extent s' q = bitmap_extent s q"
proof -
  define r where "r = realMemStart (manager s)"
  have r': "realMemStart (manager s') = r" using assms(5) by (simp add: r_def)
  have new: "block_cells (bitmap (manager s')) (blockCount (manager s')) start = {start ..< start + n}"
    using block_cells_marked_new [OF bitmap_invD(5) [OF assms(1)] assms(2-4)] assms(5) by simp
  have "r \<le> b \<and> start \<le> (b - r) div 64 \<and> (b - r) div 64 < start + n \<longleftrightarrow>
      r + start * 64 \<le> b \<and> b < r + (start + n) * 64" for b
    by (auto simp: less_eq_div_iff_mult_less_eq div_less_iff_less_mult)
  then show "bitmap_extent s' (realMemStart (manager s) + start * 64) =
      {realMemStart (manager s) + start * 64 ..< realMemStart (manager s) + (start + n) * 64}"
    using bitmap_extent_iff [of _ s' start] new unfolding r' r_def [symmetric]
    by (intro set_eqI) simp
  assume "q \<in> bitmap_live s"
  then obtain i where q: "q = r + i * 64" "i < blockCount (manager s)" "bitmap (manager s) i = BORDER"
    by (auto simp: bitmap_live_iff r_def)
  have "block_cells (bitmap (manager s')) (blockCount (manager s')) i =
      block_cells (bitmap (manager s)) (blockCount (manager s)) i"
    using block_cells_marked_other [OF assms(2) q(3,2) assms(3)] assms(5) by simp
  then show "bitmap_extent s' q = bitmap_extent s q"
    using bitmap_extent_iff [of _ s' i] bitmap_extent_iff [of _ s i] q(1)
    unfolding r' r_def [symmetric] by (intro set_eqI) simp
qed

lemma bitmap_extent_in_arena:
  assumes "bitmap_inv s" and "p \<in> bitmap_live s"
  shows "bitmap_extent s p \<subseteq> bitmap_arena s"
proof
  fix b assume b: "b \<in> bitmap_extent s p"
  from assms(2) obtain i where i: "p = realMemStart (manager s) + i * 64" "i < blockCount (manager s)"
    by (auto simp: bitmap_live_iff)
  with b have "realMemStart (manager s) \<le> b"
    and "(b - realMemStart (manager s)) div 64 < blockCount (manager s)"
    by (auto simp: bitmap_extent_iff block_cells_iff)
  then show "b \<in> bitmap_arena s"
    by (auto simp: bitmap_arena_def Let_def div_less_iff_less_mult)
qed

interpretation bitmap_mm: arena_manager bitmap_alloc bitmap_free bitmap_live bitmap_extent bitmap_inv bitmap_arena
proof unfold_locales
  fix s s' :: bitmap_state and p q n
  assume inv: "bitmap_inv s"
  show "0 \<notin> bitmap_live s"
    using bitmap_invD(2) [OF inv] by (auto simp: bitmap_live_iff)
  show "bitmap_extent s p \<subseteq> bitmap_arena s" if "p \<in> bitmap_live s"
    using inv that by (rule bitmap_extent_in_arena)
  { assume alloc: "bitmap_alloc n s = (p, s')"
    show "bitmap_inv s'" using inv alloc by (rule bitmap_alloc_inv)
    show "bitmap_arena s' = bitmap_arena s"
      using alloc by (cases rule: bitmap_alloc_cases [OF inv, of n]) (auto simp: bitmap_arena_def Let_def)
    show "bitmap_extent s' q = bitmap_extent s q" if "q \<in> bitmap_live s"
    proof (cases rule: bitmap_alloc_cases [OF inv, of n])
      case (2 start)
      note ext = bitmap_extent_alloc(2) [OF inv 2(4) blocks_for_pos [OF 2(1)] 2(3) refl that]
      from alloc 2(5) show ?thesis
        using ext [of "usedBlocksCount (manager s) + blocks_for n"] by auto
    qed (use alloc in simp)
    show "p \<notin> bitmap_live s" and "bitmap_live s' = insert p (bitmap_live s)"
      and "{p ..< p + n} \<subseteq> bitmap_extent s' p" if "p \<noteq> 0"
    proof -
      have "p \<notin> bitmap_live s \<and> bitmap_live s' = insert p (bitmap_live s) \<and> {p ..< p + n} \<subseteq> bitmap_extent s' p"
      proof (cases rule: bitmap_alloc_cases [OF inv, of n])
        case (2 start)
        note pre = inv 2(4) blocks_for_pos [OF 2(1)] 2(3)
        from 2(5) alloc have p: "p = realMemStart (manager s) + start * 64"
          and s': "s' = s\<lparr>manager := (manager s)\<lparr>bitmap := marked (bitmap (manager s)) start (blocks_for n),
            usedBlocksCount := usedBlocksCount (manager s) + blocks_for n\<rparr>\<rparr>" by auto
        show ?thesis
          using bitmap_live_alloc [OF pre s'] bitmap_extent_alloc(1) [OF pre s'] blocks_for_enough [of n]
          unfolding p by auto
      qed (use alloc that in simp)
      then show "p \<notin> bitmap_live s" and "bitmap_live s' = insert p (bitmap_live s)"
        and "{p ..< p + n} \<subseteq> bitmap_extent s' p" by blast+
    qed }
  { assume alloc: "bitmap_alloc n s = (0, s')"
    show "bitmap_live s' = bitmap_live s"
      using alloc bitmap_invD(2) [OF inv] by (cases rule: bitmap_alloc_cases [OF inv, of n]) auto }
  { assume p: "p \<in> bitmap_live s"
    then obtain i where i: "p = realMemStart (manager s) + i * 64" "i < blockCount (manager s)"
        "bitmap (manager s) i = BORDER"
      by (auto simp: bitmap_live_iff)
    note free = bitmap_free_live [OF inv i(2,3)]
    show "bitmap_inv (bitmap_free p s)" using inv p by (rule bitmap_free_inv)
    show "bitmap_live (bitmap_free p s) = bitmap_live s - {p}"
      unfolding i(1) free
    proof (intro set_eqI)
      fix x
      have "j \<in> block_cells (bitmap (manager s)) (blockCount (manager s)) i \<longleftrightarrow> j = i"
        if "j < blockCount (manager s)" "bitmap (manager s) j = BORDER" for j
        using that i(2) by (auto simp: block_cells_iff dest: spec [of _ j])
      then show "x \<in> bitmap_live (s\<lparr>manager := (manager s)\<lparr>bitmap := cleared (bitmap (manager s))
            (block_cells (bitmap (manager s)) (blockCount (manager s)) i),
          usedBlocksCount := usedBlocksCount (manager s) -
            card (block_cells (bitmap (manager s)) (blockCount (manager s)) i)\<rparr>\<rparr>) \<longleftrightarrow>
          x \<in> bitmap_live s - {realMemStart (manager s) + i * 64}"
        by (auto simp: bitmap_live_iff cleared_def)
    qed
    { assume q: "q \<in> bitmap_live s" "q \<noteq> p"
      then obtain j where j: "q = realMemStart (manager s) + j * 64" "j < blockCount (manager s)"
          "bitmap (manager s) j = BORDER"
        by (auto simp: bitmap_live_iff)
      with q i have "i \<noteq> j" by auto
      then show "bitmap_extent (bitmap_free p s) q = bitmap_extent s q"
        using block_cells_cleared_other [OF i(3) j(3) _ j(2)] unfolding i(1) free j(1)
        by (intro set_eqI) (simp add: bitmap_extent_def Let_def cell_of_def) } }
  { assume pq: "p \<in> bitmap_live s" "q \<in> bitmap_live s" "p \<noteq> q"
    then obtain i j where ij: "p = realMemStart (manager s) + i * 64" "bitmap (manager s) i = BORDER"
        "q = realMemStart (manager s) + j * 64" "bitmap (manager s) j = BORDER"
      by (auto simp: bitmap_live_iff)
    with pq(3) have "i \<noteq> j" by auto
    with block_cells_disjoint [of "bitmap (manager s)" i j, OF ij(2,4), of "blockCount (manager s)"] show "bitmap_extent s p \<inter> bitmap_extent s q = {}"
      unfolding ij(1,3) by (auto simp: bitmap_extent_iff) }
next
  show "bitmap_free 0 s = s" for s
    by (simp add: bitmap_free_def Let_def)
qed

section \<open>Properties\<close>

definition fits :: "bitmap_state \<Rightarrow> nat \<Rightarrow> nat \<Rightarrow> bool" where
  "fits s bytes start \<longleftrightarrow>
     start + blocks_for bytes \<le> blockCount (manager s) \<and>
     free_cells (bitmap (manager s)) start (blocks_for bytes)"

text \<open>A small arena of four free blocks, for the witnesses.\<close>

definition small_bitmap :: bitmap_state where
  "small_bitmap = \<lparr>memoryBaseAddress = 64,
     manager = \<lparr>bitmap = (\<lambda>_. FREE), realMemStart = 100, blockCount = 4, usedBlocksCount = 0\<rparr>\<rparr>"

lemma small_bitmap_inv: "bitmap_inv small_bitmap"
  by (simp add: bitmap_inv_def small_bitmap_def cells_ok_def occupied_def)

lemma small_bitmap_alloc:
  "bitmap_alloc 100 small_bitmap =
    (100, small_bitmap\<lparr>manager := (manager small_bitmap)\<lparr>
       bitmap := (\<lambda>_. FREE)(0 := BORDER, 1 := USED), usedBlocksCount := 2\<rparr>\<rparr>)"
  by (simp add: bitmap_alloc_def small_bitmap_def POW2_def sub64_def add64_def alloc_scan.simps
      fill_range.simps Let_def)

text \<open>
  C10. A successful \<open>mm_alloc\<close> of the bitmap manager returns a pointer that
  was not live, and from then on is; the requested bytes lie inside the managed arena and
  overlap no block handed out before; the blocks of every other live pointer stay as they
  were, and the manager's invariant (cell encoding, used-block counter, no wrap-around) holds.
\<close>

theorem bitmap_alloc_sound:
  assumes "bitmap_inv s" and "bitmap_alloc bytes s = (p, s')" and "p \<noteq> 0"
  shows "bitmap_inv s' \<and> p \<notin> bitmap_live s \<and> bitmap_live s' = insert p (bitmap_live s) \<and>
    {p ..< p + bytes} \<subseteq> bitmap_arena s \<and>
    (\<forall>q \<in> bitmap_live s. {p ..< p + bytes} \<inter> bitmap_extent s q = {} \<and>
       bitmap_extent s' q = bitmap_extent s q)"
  using bitmap_mm.alloc_inv [OF assms(1,2)] bitmap_mm.alloc_fresh [OF assms]
    bitmap_mm.alloc_live [OF assms] bitmap_mm.new_block_in_arena [OF assms]
    bitmap_mm.new_block_disjoint [OF assms] bitmap_mm.alloc_frame [OF assms(1,2)]
  by blast

theorem bitmap_alloc_sound_witness:
  "{100 ..< 100 + 100} \<subseteq> bitmap_arena small_bitmap \<and> 100 \<notin> bitmap_live small_bitmap"
  using bitmap_alloc_sound [OF small_bitmap_inv small_bitmap_alloc] by simp

lemma bitmap_alloc_lowest:
  assumes "bitmap_inv s"
  shows "fst (bitmap_alloc bytes s) =
    (if 0 < bytes \<and> bytes \<le> 131072 \<and> (\<exists>start. fits s bytes start)
     then realMemStart (manager s) + (LEAST start. fits s bytes start) * 64 else 0)"
proof -
  have small: "POW2 17 = 131072" by (simp add: POW2_def)
  define m where "m = manager s"
  note inv = bitmap_invD [OF assms, folded m_def]
  show ?thesis
  proof (cases "0 < bytes \<and> bytes \<le> 131072 \<and> (\<exists>start. fits s bytes start)")
    case True
    define l where "l = (LEAST start. fits s bytes start)"
    have l: "fits s bytes l"
      unfolding l_def using True by (auto intro: LeastI)
    have pos: "0 < blocks_for bytes" using True by (simp add: blocks_for_pos)
    have "card (occupied (bitmap m) (blockCount m)) + blocks_for bytes \<le> blockCount m"
      using occupied_marked(2) [of "bitmap m" l "blocks_for bytes" "blockCount m"] l pos occupied_le
      by (metis fits_def m_def)
    with inv have room: "\<not> blocks_for bytes > sub64 (blockCount m) (usedBlocksCount m)"
      by (simp add: u64_simps)
    obtain j where j: "alloc_scan (bitmap m) (blockCount m) (blocks_for bytes) 0 0 = Some j"
        "j + 1 \<le> l + blocks_for bytes"
      using alloc_scan_first_fit [of "bitmap m" l "blocks_for bytes" "blockCount m" 0 0] l pos
      by (auto simp: fits_def m_def)
    have js: "j < blockCount m" "blocks_for bytes \<le> j + 1"
        "free_cells (bitmap m) (j + 1 - blocks_for bytes) (blocks_for bytes)"
      using alloc_scan_Some [OF j(1)] pos by (simp_all add: free_cells_def)
    then have "fits s bytes (j + 1 - blocks_for bytes)"
      by (simp add: fits_def m_def)
    then have "l \<le> j + 1 - blocks_for bytes"
      unfolding l_def by (rule Least_le)
    with j(2) js(2) have "j + 1 - blocks_for bytes = l" by arith
    moreover have "add64 (sub64 j (blocks_for bytes)) 1 = j + 1 - blocks_for bytes"
      using js inv(6) by (intro add64_sub64_cancel) simp_all
    ultimately show ?thesis
      using True room j(1) inv(1)
      by (simp add: bitmap_alloc_def Let_def small m_def [symmetric] l_def [symmetric]
          blocks_for_def [symmetric, simplified])
  next
    case False
    have "fst (bitmap_alloc bytes s) = 0"
    proof (cases rule: bitmap_alloc_cases [OF assms, of bytes])
      case (2 start)
      with False show ?thesis by (auto simp: fits_def small)
    qed simp
    with False show ?thesis by (simp only: if_False)
  qed
qed

text \<open>
  \<open>mm_alloc\<close> is a complete first-fit search: with the manager
  initialised it returns NULL exactly when the request is empty, larger than 128 KiB, or no
  run of free cells is long enough, and otherwise the lowest address at which the request
  fits. In particular the early exit on the used-block counter never refuses a request that
  would fit.
\<close>

theorem bitmap_alloc_first_fit:
  assumes "bitmap_inv s"
  shows "fst (bitmap_alloc bytes s) =
    (if 0 < bytes \<and> bytes \<le> 131072 \<and> (\<exists>start. fits s bytes start)
     then realMemStart (manager s) + (LEAST start. fits s bytes start) * 64 else 0)"
  using assms by (rule bitmap_alloc_lowest)

theorem bitmap_alloc_first_fit_witness:
  "fst (bitmap_alloc 100 small_bitmap) =
    100 + (LEAST start. fits small_bitmap 100 start) * 64"
proof -
  have "fits small_bitmap 100 0"
    by (simp add: fits_def small_bitmap_def blocks_for_def free_cells_def)
  then show ?thesis
    using bitmap_alloc_first_fit [OF small_bitmap_inv, of 100] by (auto simp: small_bitmap_def)
qed

text \<open>
  Freeing a block right after it was allocated restores the manager's
  state exactly, every bitmap cell and the used-block counter included.
\<close>

theorem bitmap_free_roundtrip:
  assumes "bitmap_inv s" and "bitmap_alloc bytes s = (p, s')" and "p \<noteq> 0"
  shows "bitmap_free p s' = s"
proof (cases rule: bitmap_alloc_cases [OF assms(1), of bytes])
  case (2 start)
  note pos = blocks_for_pos [OF 2(1)]
  let ?bm = "bitmap (manager s)"
  let ?n = "blocks_for bytes"
  have p: "p = realMemStart (manager s') + start * 64"
    and s': "s' = s\<lparr>manager := (manager s)\<lparr>bitmap := marked ?bm start ?n,
      usedBlocksCount := usedBlocksCount (manager s) + ?n\<rparr>\<rparr>"
    using 2(5) assms(2) by auto
  have blk: "block_cells (bitmap (manager s')) (blockCount (manager s')) start = {start ..< start + ?n}"
    using block_cells_marked_new [OF bitmap_invD(5) [OF assms(1)] 2(4) pos 2(3)] s' by simp
  have clr: "cleared (marked ?bm start ?n) {start ..< start + ?n} = ?bm"
    using 2(4) pos by (intro ext) (auto simp: cleared_def marked_def free_cells_def)
  have "bitmap_free p s' = s'\<lparr>manager := (manager s')\<lparr>
      bitmap := cleared (bitmap (manager s')) {start ..< start + ?n},
      usedBlocksCount := usedBlocksCount (manager s') - ?n\<rparr>\<rparr>"
    using bitmap_free_live [OF bitmap_alloc_inv [OF assms(1,2)], of start] 2(3) pos blk p
    by (simp add: s' marked_def)
  also have "\<dots> = s"
    by (simp add: s' clr)
  finally show ?thesis .
qed (use assms in simp)

theorem bitmap_free_roundtrip_witness:
  "bitmap_free 100 (snd (bitmap_alloc 100 small_bitmap)) = small_bitmap"
  using bitmap_free_roundtrip [OF small_bitmap_inv small_bitmap_alloc]
  by (simp add: small_bitmap_alloc)

text \<open>
  \<open>mm_free\<close> for an arbitrary argument: NULL, an address outside the arena
  and an address whose 64-byte cell is not the first cell of an allocation leave the state
  unchanged; any address inside the first cell of a block (aligned or not) frees exactly that
  block. Double frees and frees of interior blocks are therefore harmless.
\<close>

theorem bitmap_free_exact:
  assumes "bitmap_inv s"
  shows "bitmap_free ptr s =
    (if realMemStart (manager s) \<le> ptr \<and> cell_of s ptr < blockCount (manager s) \<and>
        bitmap (manager s) (cell_of s ptr) = BORDER
     then bitmap_free (realMemStart (manager s) + cell_of s ptr * 64) s else s) \<and>
    (ptr \<notin> bitmap_live s \<longrightarrow> ptr mod 64 = realMemStart (manager s) mod 64 \<longrightarrow> bitmap_free ptr s = s)"
proof
  have "0 < realMemStart (manager s)" using bitmap_invD(2) [OF assms] .
  then show "bitmap_free ptr s =
    (if realMemStart (manager s) \<le> ptr \<and> cell_of s ptr < blockCount (manager s) \<and>
        bitmap (manager s) (cell_of s ptr) = BORDER
     then bitmap_free (realMemStart (manager s) + cell_of s ptr * 64) s else s)"
    by (auto simp: bitmap_free_def Let_def cell_of_def)
  show "ptr \<notin> bitmap_live s \<longrightarrow> ptr mod 64 = realMemStart (manager s) mod 64 \<longrightarrow> bitmap_free ptr s = s"
  proof (intro impI)
    assume nl: "ptr \<notin> bitmap_live s" and al: "ptr mod 64 = realMemStart (manager s) mod 64"
    have "ptr = realMemStart (manager s) + cell_of s ptr * 64" if "realMemStart (manager s) \<le> ptr"
    proof -
      have "(ptr - realMemStart (manager s)) mod 64 = 0"
        using al that by (metis mod_eq_dvd_iff_nat dvd_imp_mod_0)
      with div_mult_mod_eq [of "ptr - realMemStart (manager s)" 64]
      have "(ptr - realMemStart (manager s)) div 64 * 64 = ptr - realMemStart (manager s)" by simp
      with that show ?thesis unfolding cell_of_def BLOCK_SIZE_def by linarith
    qed
    with nl show "bitmap_free ptr s = s"
      by (auto simp: bitmap_free_def Let_def cell_of_def bitmap_live_iff)
  qed
qed

theorem bitmap_free_exact_witness:
  "bitmap_free 164 (snd (bitmap_alloc 100 small_bitmap)) = snd (bitmap_alloc 100 small_bitmap)"
proof -
  have "bitmap_inv (snd (bitmap_alloc 100 small_bitmap))"
    using bitmap_alloc_inv [OF small_bitmap_inv small_bitmap_alloc] by (simp add: small_bitmap_alloc)
  from bitmap_free_exact [OF this, of 164] show ?thesis
    unfolding small_bitmap_alloc by (simp add: small_bitmap_def cell_of_def)
qed

text \<open>
  \<open>mm_create\<close> on a region of at least 97 bytes that does not reach the end
  of the address space returns the region's start and establishes the invariant, with every
  block free, and the arena of blocks lies inside the region behind the header and the
  bitmap.
\<close>

theorem bitmap_create_ok:
  assumes "0 < start" and "97 \<le> totalSize" and "start + totalSize < 2 ^ 64"
    and "bitmap_create start totalSize s = (r, s')"
  shows "r = start \<and> bitmap_inv s' \<and> bitmap_live s' = {} \<and>
    blockCount (manager s') = (totalSize - 32) div 65 \<and>
    bitmap_arena s' \<subseteq> {start + 32 + (totalSize - 32) div 65 ..< start + totalSize}"
proof -
  define n where "n = (totalSize - 32) div 65"
  have n: "0 < n" "65 * n \<le> totalSize - 32"
    using assms(2) by (simp_all add: n_def)
  have s': "r = start" "memoryBaseAddress s' = start" "blockCount (manager s') = n"
      "usedBlocksCount (manager s') = 0" "realMemStart (manager s') = start + 32 + n"
      "\<forall>i < n. bitmap (manager s') i = FREE"
    using assms(2,4) n(1)
    by (auto simp: bitmap_create_def Let_def sizeof_bitmap_manager_def n_def fill_range_eq split: if_splits)
  have "occupied (bitmap (manager s')) n = {}"
    using s'(6) by (auto simp: occupied_def)
  then show ?thesis
    using assms(1-3) s' n
    by (auto simp: bitmap_inv_def cells_ok_def bitmap_live_iff bitmap_arena_def Let_def n_def [symmetric])
qed

theorem bitmap_create_ok_witness:
  "fst (bitmap_create 6291456 268435456 small_bitmap) = 6291456 \<and>
   bitmap_inv (snd (bitmap_create 6291456 268435456 small_bitmap))"
  using bitmap_create_ok [of 6291456 268435456 small_bitmap
      "fst (bitmap_create 6291456 268435456 small_bitmap)"
      "snd (bitmap_create 6291456 268435456 small_bitmap)"]
  by simp

text \<open>
  \<open>mm_info\<close> reports the true state: the used count is the number of cells
  that belong to live blocks, and used and free blocks add up to the size.
\<close>

theorem bitmap_info_exact:
  assumes "bitmap_inv s"
  shows "info_used (bitmap_info s) = card (occupied (bitmap (manager s)) (blockCount (manager s))) \<and>
    info_used (bitmap_info s) + info_free (bitmap_info s) = info_size (bitmap_info s)"
  using bitmap_invD [OF assms] by (simp add: bitmap_info_def Let_def u64_simps)

theorem bitmap_info_exact_witness: "info_free (bitmap_info small_bitmap) = 4"
  using bitmap_info_exact [OF small_bitmap_inv]
  by (simp add: bitmap_info_def small_bitmap_def Let_def)

end
