(* ===== verification/Buddy.thy ===== *)
theory Buddy
  imports Memory_Management "HOL-Library.Word"
begin

text \<open>
  \<open>Kernel/utils/memory/buddy.c\<close>: the other memory manager, a binary buddy system whose tree is
  an array of one-byte states. The array is modelled as a function from node indices to
  states; \<open>uint8_t\<close> levels are 8-bit words, the \<open>uint64_t\<close> counters natural numbers with
  the wrap-around of \<open>sub64\<close> and \<open>add64\<close>. The result \<open>-1\<close> of the node searches is \<open>None\<close>.
\<close>

definition NODE_FREE :: nat where "NODE_FREE = 0"
definition NODE_USED :: nat where "NODE_USED = 1"
definition NODE_SPLIT :: nat where "NODE_SPLIT = 2"
definition MIN_EXP :: nat where "MIN_EXP = 4"
definition MAX_EXP :: nat where "MAX_EXP = 28"

record buddy_manager =
  treeStart :: addr
  tree :: "nat \<Rightarrow> nat"
  bsize :: nat
  bused :: nat
  maxExp :: nat
  totalNodes :: nat

record buddy_state =
  buddyBaseAddress :: addr
  buddy :: buddy_manager

definition sizeof_buddy_manager :: nat where
  "sizeof_buddy_manager = 48"

section \<open>Operations\<close>

function compute_max_exp :: "nat \<Rightarrow> nat \<Rightarrow> nat" where
  "compute_max_exp totalSize c =
     (if POW2 (c + 1) \<le> totalSize \<and> c < MAX_EXP then compute_max_exp totalSize (c + 1) else c)"
  by pat_completeness auto
termination
  by (relation "measure (\<lambda>(t, c). MAX_EXP - c)") auto

definition buddy_create :: "addr \<Rightarrow> nat \<Rightarrow> buddy_state \<Rightarrow> addr \<times> buddy_state" where
  "buddy_create startAddress totalSize s =
     (if totalSize < POW2 MIN_EXP then (0, s)
      else
        let computedMax = compute_max_exp totalSize MIN_EXP;
            nodes = POW2 (computedMax - MIN_EXP + 1) - 1;
            needed = sizeof_buddy_manager + nodes + POW2 MIN_EXP in
        if totalSize < needed then (0, s)
        else
          (startAddress,
           s\<lparr>buddyBaseAddress := startAddress,
             buddy := \<lparr>treeStart = startAddress + sizeof_buddy_manager + nodes,
                       tree = fill_range (tree (buddy s)) 0 nodes NODE_FREE,
                       bsize = totalSize - (sizeof_buddy_manager + nodes),
                       bused = 0,
                       maxExp = computedMax,
                       totalNodes = nodes\<rparr>\<rparr>))"

function getExponent_from :: "nat \<Rightarrow> nat \<Rightarrow> nat" where
  "getExponent_from sz exponent =
     (if POW2 exponent < sz then getExponent_from sz (exponent + 1) else exponent)"
  by pat_completeness auto
termination
proof (relation "measure (\<lambda>(sz, e). sz - e)")
  fix sz e :: nat
  assume "POW2 e < sz"
  then have "e < sz" unfolding POW2_def using less_exp [of e] by (rule less_trans [rotated])
  then show "((sz, e + 1), (sz, e)) \<in> measure (\<lambda>(sz, e). sz - e)" by simp
qed simp

definition getExponent :: "nat \<Rightarrow> nat" where
  "getExponent sz = getExponent_from sz MIN_EXP"

definition getNodeLevel :: "buddy_manager \<Rightarrow> nat \<Rightarrow> nat" where
  "getNodeLevel m exponent = POW2 (maxExp m - exponent) - 1"

lemma level_measure:
  "level \<noteq> (target :: 8 word) \<Longrightarrow> unat (target - (level + 1)) < unat (target - level)"
proof -
  assume "level \<noteq> target"
  then have "target - level \<noteq> 0" by simp
  then have "unat (target - level - 1) < unat (target - level)"
    by (simp add: unat_minus_one word_neq_0_conv unat_gt_0)
  then show ?thesis by (simp add: algebra_simps)
qed

function findFreeNode :: "(nat \<Rightarrow> nat) \<Rightarrow> nat \<Rightarrow> 8 word \<Rightarrow> 8 word \<Rightarrow> nat option" where
  "findFreeNode t node level targetLevel =
     (if level = targetLevel then (if t node = NODE_FREE then Some node else None)
      else if t node \<noteq> NODE_SPLIT \<and> t node \<noteq> NODE_FREE then None
      else
        (case findFreeNode t ((node * 2 + 1) mod 2 ^ 64) (level + 1) targetLevel of
           Some left \<Rightarrow> Some left
         | None \<Rightarrow> findFreeNode t ((node * 2 + 2) mod 2 ^ 64) (level + 1) targetLevel))"
  by pat_completeness auto
termination
  by (relation "measure (\<lambda>(t, node, level, target). unat (target - level))")
     (auto simp: level_measure)

function splitTree :: "(nat \<Rightarrow> nat) \<Rightarrow> nat \<Rightarrow> (nat \<Rightarrow> nat)" where
  "splitTree t node =
     (if node = 0 then t
      else let parent = (node - 1) div 2 in splitTree (t(parent := NODE_SPLIT)) parent)"
  by pat_completeness auto
termination
  by (relation "measure (\<lambda>(t, node). node)") auto

definition setSplitedChildren :: "nat \<Rightarrow> (nat \<Rightarrow> nat) \<Rightarrow> nat \<Rightarrow> (nat \<Rightarrow> nat)" where
  "setSplitedChildren nodes t node = (if node < nodes then t(node := NODE_USED) else t)"

definition buddy_alloc :: "nat \<Rightarrow> buddy_state \<Rightarrow> addr \<times> buddy_state" where
  "buddy_alloc sz s =
     (let m = buddy s in
      if sz > sub64 (bsize m) (bused m) \<or> sz = 0 \<or> sz > POW2 17 then (0, s)
      else
        let exponent = getExponent sz in
        (case findFreeNode (tree m) 0 0 (word_of_int (int (maxExp m) - int exponent)) of
           None \<Rightarrow> (0, s)
         | Some nodo \<Rightarrow>
             let t = setSplitedChildren (totalNodes m) (splitTree (tree m) nodo) nodo;
                 s' = s\<lparr>buddy := m\<lparr>tree := t, bused := add64 (bused m) (POW2 exponent)\<rparr>\<rparr>;
                 offset = (nodo - getNodeLevel m exponent) * POW2 exponent in
             if offset \<ge> bsize m then (0, s') else (treeStart m + offset, s')))"

function exponent_loop :: "nat \<Rightarrow> nat \<Rightarrow> nat" where
  "exponent_loop address exponent =
     (if address mod POW2 exponent \<noteq> 0 then exponent_loop address (exponent - 1) else exponent)"
  by pat_completeness auto
termination
proof (relation "measure (\<lambda>(a, e). e)")
  fix address exponent :: nat
  assume "address mod POW2 exponent \<noteq> 0"
  then have "0 < exponent" by (cases exponent) (auto simp: POW2_def)
  then show "((address, exponent - 1), (address, exponent)) \<in> measure (\<lambda>(a, e). e)" by simp
qed simp

definition getExponentPtr :: "buddy_manager \<Rightarrow> addr \<Rightarrow> nat" where
  "getExponentPtr m ptr =
     (if ptr < treeStart m then 0 else exponent_loop (ptr - treeStart m) (maxExp m))"

text \<open>The loop of \<open>getNodeIndex\<close>; the result is the node and the final \<open>levelExponent\<close>.\<close>

fun getNodeIndex_from :: "buddy_manager \<Rightarrow> addr \<Rightarrow> nat \<Rightarrow> nat \<Rightarrow> (nat \<times> nat) option" where
  "getNodeIndex_from m ptr node 0 = Some (node, 0)"
| "getNodeIndex_from m ptr node (Suc e) =
     (if tree m node = NODE_USED then Some (node, Suc e)
      else if ptr < treeStart m then None
      else
        let offset = ptr - treeStart m in
        if offset \<ge> bsize m then None
        else getNodeIndex_from m ptr (offset div POW2 (Suc e) + getNodeLevel m (Suc e)) e)"

definition getNodeIndex :: "buddy_manager \<Rightarrow> addr \<Rightarrow> nat \<Rightarrow> (nat \<times> nat) option" where
  "getNodeIndex m ptr exponent = getNodeIndex_from m ptr 0 exponent"

function setMerge :: "nat \<Rightarrow> (nat \<Rightarrow> nat) \<Rightarrow> nat \<Rightarrow> (nat \<Rightarrow> nat)" where
  "setMerge nodes t node =
     (if node = 0 then t
      else
        let sibling = (if node mod 2 = 0 then node - 1 else node + 1) in
        if node mod 2 \<noteq> 0 \<and> sibling \<ge> nodes then t
        else if sibling < nodes \<and> t sibling = NODE_FREE \<and> t node = NODE_FREE then
          let parent = (node - 1) div 2 in
          if parent < nodes \<and> t parent = NODE_SPLIT then setMerge nodes (t(parent := NODE_FREE)) parent
          else t
        else t)"
  by pat_completeness auto
termination
  by (relation "measure (\<lambda>(nodes, t, node). node)") auto

definition buddy_free :: "addr \<Rightarrow> buddy_state \<Rightarrow> buddy_state" where
  "buddy_free ptr s =
     (let m = buddy s in
      if ptr = 0 then s
      else
        (case getNodeIndex m ptr (getExponentPtr m ptr) of
           None \<Rightarrow> s
         | Some (nodo, exponent) \<Rightarrow>
             s\<lparr>buddy := m\<lparr>tree := setMerge (totalNodes m) ((tree m)(nodo := NODE_FREE)) nodo,
                          bused := sub64 (bused m) (POW2 exponent)\<rparr>\<rparr>))"

definition buddy_info :: "buddy_state \<Rightarrow> mem_t" where
  "buddy_info s =
     (if buddyBaseAddress s = 0 then \<lparr>info_size = 0, info_used = 0, info_free = 0\<rparr>
      else
        let m = buddy s
        in \<lparr>info_size = bsize m, info_used = bused m, info_free = sub64 (bsize m) (bused m)\<rparr>)"

declare compute_max_exp.simps [simp del] getExponent_from.simps [simp del]
  findFreeNode.simps [simp del] splitTree.simps [simp del] exponent_loop.simps [simp del]
  setMerge.simps [simp del]

lemma node_values [simp]:
  "NODE_FREE \<noteq> NODE_USED" "NODE_USED \<noteq> NODE_FREE" "NODE_FREE \<noteq> NODE_SPLIT"
  "NODE_SPLIT \<noteq> NODE_FREE" "NODE_USED \<noteq> NODE_SPLIT" "NODE_SPLIT \<noteq> NODE_USED"
  by (simp_all add: NODE_FREE_def NODE_USED_def NODE_SPLIT_def)

section \<open>Nodes, levels and ancestors\<close>

text \<open>
  Node \<open>n\<close> is number \<open>n + 1\<close> counted from one, so its parent is number \<open>(n + 1) div 2\<close>.
\<close>

definition at_level :: "nat \<Rightarrow> nat \<Rightarrow> bool" where
  "at_level n l \<longleftrightarrow> 2 ^ l \<le> n + 1 \<and> n + 1 < 2 ^ (l + 1)"

definition ancestor :: "nat \<Rightarrow> nat \<Rightarrow> bool" where
  "ancestor a n \<longleftrightarrow> (\<exists>k > 0. a + 1 = (n + 1) div 2 ^ k)"

lemma parent_number: "0 < n \<Longrightarrow> (n - 1) div 2 + 1 = (n + 1) div (2 :: nat)"
  by arith

lemma ancestor_parent:
  assumes "0 < n"
  shows "ancestor a n \<longleftrightarrow> a = (n - 1) div 2 \<or> ancestor a ((n - 1) div 2)"
proof
  assume "ancestor a n"
  then obtain k where k: "0 < k" "a + 1 = (n + 1) div 2 ^ k"
    by (auto simp: ancestor_def)
  then have "a + 1 = ((n + 1) div 2) div 2 ^ (k - 1)"
    by (cases k) (simp_all add: div_mult2_eq)
  then have e: "a + 1 = ((n - 1) div 2 + 1) div 2 ^ (k - 1)"
    using parent_number [OF assms] by simp
  show "a = (n - 1) div 2 \<or> ancestor a ((n - 1) div 2)"
  proof (cases "k = 1")
    case True
    with e show ?thesis by simp
  next
    case False
    with k e have "0 < k - 1" by simp
    with e show ?thesis unfolding ancestor_def by blast
  qed
next
  assume "a = (n - 1) div 2 \<or> ancestor a ((n - 1) div 2)"
  then obtain k where "a + 1 = ((n - 1) div 2 + 1) div 2 ^ k"
    by (auto simp: ancestor_def intro: that [of 0])
  then have "a + 1 = (n + 1) div 2 ^ (Suc k)"
    using parent_number [OF assms] by (simp add: div_mult2_eq)
  then show "ancestor a n" unfolding ancestor_def by blast
qed

lemma ancestor_root [simp]: "\<not> ancestor a 0"
proof
  assume "ancestor a 0"
  then obtain k where "k > 0" and "a + 1 = 1 div 2 ^ k" by (auto simp: ancestor_def)
  with one_less_power [of "2 :: nat" k] show False by simp
qed

lemma ancestor_less: "ancestor a n \<Longrightarrow> a < n"
proof -
  assume "ancestor a n"
  then obtain k where k: "k > 0" "a + 1 = (n + 1) div 2 ^ k" by (auto simp: ancestor_def)
  then have "(n + 1) div 2 ^ k < n + 1"
    using one_less_power [of "2 :: nat" k] by (intro div_less_dividend) simp_all
  with k show ?thesis by simp
qed

lemma ancestor_child:
  assumes "ancestor a n"
  shows "\<exists>c. (c = 2 * a + 1 \<or> c = 2 * a + 2) \<and> (c = n \<or> ancestor c n)"
  using assms
proof (induction n rule: less_induct)
  case (less n)
  then have n: "0 < n" by (cases n) auto
  from less(2) ancestor_parent [OF n] consider "a = (n - 1) div 2" | "ancestor a ((n - 1) div 2)"
    by blast
  then show ?case
  proof cases
    case 1
    then show ?thesis using n by (intro exI [of _ n]) arith
  next
    case 2
    moreover have "(n - 1) div 2 < n" using n by arith
    ultimately obtain c where c: "c = 2 * a + 1 \<or> c = 2 * a + 2"
        "c = (n - 1) div 2 \<or> ancestor c ((n - 1) div 2)"
      using less(1) by blast
    then have "ancestor c n" using ancestor_parent [OF n] by blast
    with c show ?thesis by blast
  qed
qed

lemma child_parent: "c = 2 * n + 1 \<or> c = 2 * n + 2 \<Longrightarrow> (c - 1) div 2 = (n :: nat) \<and> 0 < c"
  by auto

lemma splitTree_eq: "splitTree t n = (\<lambda>x. if ancestor x n then NODE_SPLIT else t x)"
proof (induction n arbitrary: t rule: less_induct)
  case (less n)
  show ?case
  proof (cases "n = 0")
    case True
    then show ?thesis by (subst splitTree.simps) simp
  next
    case False
    then have "(n - 1) div 2 < n" by arith
    from less [OF this] have
      "splitTree (t((n - 1) div 2 := NODE_SPLIT)) ((n - 1) div 2) =
        (\<lambda>x. if ancestor x ((n - 1) div 2) then NODE_SPLIT else (t((n - 1) div 2 := NODE_SPLIT)) x)" .
    with False show ?thesis
      by (subst splitTree.simps) (auto simp: Let_def ancestor_parent [of n])
  qed
qed

section \<open>The tree invariant\<close>

text \<open>
  Stated locally for every node: a node that is not split has free children, a split node has
  two children of which at least one is not free.
\<close>

definition states_ok :: "(nat \<Rightarrow> nat) \<Rightarrow> nat \<Rightarrow> bool" where
  "states_ok t N \<longleftrightarrow> (\<forall>n < N. t n = NODE_FREE \<or> t n = NODE_USED \<or> t n = NODE_SPLIT)"

definition leaves_free :: "(nat \<Rightarrow> nat) \<Rightarrow> nat \<Rightarrow> bool" where
  "leaves_free t N \<longleftrightarrow> (\<forall>n c. t n \<noteq> NODE_SPLIT \<longrightarrow> c = 2 * n + 1 \<or> c = 2 * n + 2 \<longrightarrow> c < N \<longrightarrow> t c = NODE_FREE)"

definition split_inner :: "(nat \<Rightarrow> nat) \<Rightarrow> nat \<Rightarrow> bool" where
  "split_inner t N \<longleftrightarrow> (\<forall>n < N. t n = NODE_SPLIT \<longrightarrow> 2 * n + 2 < N)"

definition split_busy :: "(nat \<Rightarrow> nat) \<Rightarrow> nat \<Rightarrow> nat set \<Rightarrow> bool" where
  "split_busy t N X \<longleftrightarrow> (\<forall>n < N. n \<notin> X \<longrightarrow> t n = NODE_SPLIT \<longrightarrow>
     t (2 * n + 1) \<noteq> NODE_FREE \<or> t (2 * n + 2) \<noteq> NODE_FREE)"

definition tree_ok :: "(nat \<Rightarrow> nat) \<Rightarrow> nat \<Rightarrow> bool" where
  "tree_ok t N \<longleftrightarrow> states_ok t N \<and> leaves_free t N \<and> split_inner t N \<and> split_busy t N {}"

lemma below_unsplit_free:
  assumes "leaves_free t N" and "n < N" and "ancestor a n" and "t a \<noteq> NODE_SPLIT"
  shows "t n = NODE_FREE"
  using assms(2,3)
proof (induction n rule: less_induct)
  case (less n)
  then have n: "0 < n" by (cases n) auto
  let ?p = "(n - 1) div 2"
  have np: "n = 2 * ?p + 1 \<or> n = 2 * ?p + 2" using n by arith
  have "?p < n" using n by arith
  have "t ?p \<noteq> NODE_SPLIT"
  proof (cases "a = ?p")
    case True
    with assms(4) show ?thesis by simp
  next
    case False
    with less(3) ancestor_parent [OF n] have "ancestor a ?p" by blast
    with less(1) [OF \<open>?p < n\<close>] less(2) \<open>?p < n\<close> have "t ?p = NODE_FREE" by simp
    then show ?thesis by simp
  qed
  with assms(1) np less(2) show ?case unfolding leaves_free_def by blast
qed

lemma busy_ancestors_split:
  assumes "tree_ok t N" and "n < N" and "t n \<noteq> NODE_FREE" and "ancestor a n"
  shows "t a = NODE_SPLIT"
  using assms below_unsplit_free by (auto simp: tree_ok_def)

lemma tree_ok_alloc:
  assumes ok: "tree_ok t N" and odd: "odd N" and n: "n < N" "t n = NODE_FREE"
  shows "tree_ok ((splitTree t n)(n := NODE_USED)) N"
proof -
  let ?t = "(splitTree t n)(n := NODE_USED)"
  have na: "\<not> ancestor n n" using ancestor_less by blast
  have t: "?t x = (if x = n then NODE_USED else if ancestor x n then NODE_SPLIT else t x)" for x
    by (simp add: splitTree_eq)
  have path: "ancestor x n" if "c = 2 * x + 1 \<or> c = 2 * x + 2" "c = n \<or> ancestor c n" for x c
  proof -
    from child_parent [OF that(1)] have c: "(c - 1) div 2 = x" "0 < c" by blast+
    then have "ancestor x c" using ancestor_parent [OF c(2)] by blast
    from that(2) show ?thesis
    proof (elim disjE)
      assume "c = n"
      with \<open>ancestor x c\<close> show "ancestor x n" by simp
    next
      assume "ancestor c n"
      then obtain k where k: "c + 1 = (n + 1) div 2 ^ k" by (auto simp: ancestor_def)
      from \<open>ancestor x c\<close> obtain j where j: "0 < j" "x + 1 = (c + 1) div 2 ^ j" by (auto simp: ancestor_def)
      then have "x + 1 = (n + 1) div 2 ^ (k + j)"
        unfolding k by (simp add: div_mult2_eq power_add)
      with j show "ancestor x n" unfolding ancestor_def by (metis add_gr_0)
    qed
  qed
  have "states_ok ?t N"
    using ok unfolding tree_ok_def states_ok_def t by auto
  moreover have "leaves_free ?t N"
    unfolding leaves_free_def
  proof (intro allI impI)
    fix x c assume x: "?t x \<noteq> NODE_SPLIT" and c: "c = 2 * x + 1 \<or> c = 2 * x + 2" and cN: "c < N"
    from x have xs: "x = n \<or> \<not> ancestor x n" by (auto simp: splitTree_eq split: if_splits)
    then have "\<not> ancestor x n" using na by blast
    with path [OF c] have cn: "c \<noteq> n" "\<not> ancestor c n" by blast+
    have "t x \<noteq> NODE_SPLIT" using x n(2) \<open>\<not> ancestor x n\<close> by (auto simp: splitTree_eq split: if_splits)
    with ok c cN have "t c = NODE_FREE" unfolding tree_ok_def leaves_free_def by blast
    with cn show "?t c = NODE_FREE" by (simp add: splitTree_eq)
  qed
  moreover have "split_inner ?t N"
    unfolding split_inner_def
  proof (intro allI impI)
    fix x assume x: "x < N" "?t x = NODE_SPLIT"
    show "2 * x + 2 < N"
    proof (cases "ancestor x n")
      case True
      from ancestor_child [OF this] obtain c where c: "c = 2 * x + 1 \<or> c = 2 * x + 2" "c = n \<or> ancestor c n"
        by blast
      then have "c < N" using n(1) ancestor_less by (metis less_trans)
      with c(1) odd show ?thesis by (elim disjE) presburger+
    next
      case False
      with x ok show ?thesis unfolding tree_ok_def split_inner_def by (auto simp: splitTree_eq split: if_splits)
    qed
  qed
  moreover have "split_busy ?t N {}"
    unfolding split_busy_def
  proof (intro allI impI)
    fix x assume x: "x < N" "?t x = NODE_SPLIT"
    show "?t (2 * x + 1) \<noteq> NODE_FREE \<or> ?t (2 * x + 2) \<noteq> NODE_FREE"
    proof (cases "ancestor x n")
      case True
      from ancestor_child [OF this] obtain c where c: "c = 2 * x + 1 \<or> c = 2 * x + 2" "c = n \<or> ancestor c n"
        by blast
      then have "?t c \<noteq> NODE_FREE" by (auto simp: splitTree_eq)
      with c(1) show ?thesis by blast
    next
      case False
      with x have "t x = NODE_SPLIT" by (auto simp: splitTree_eq split: if_splits)
      with x ok have "t (2 * x + 1) \<noteq> NODE_FREE \<or> t (2 * x + 2) \<noteq> NODE_FREE"
        unfolding tree_ok_def split_busy_def by blast
      then show ?thesis by (auto simp: splitTree_eq)
    qed
  qed
  ultimately show ?thesis unfolding tree_ok_def by blast
qed

text \<open>
  Merging: at the node just freed only the parent may violate the tree invariant, and the
  loop restores it without touching a used node.
\<close>

definition parent_of :: "nat \<Rightarrow> nat set" where
  "parent_of n = (if n = 0 then {} else {(n - 1) div 2})"

lemma setMerge_ok:
  assumes "states_ok t N" and "leaves_free t N" and "split_inner t N" and "split_busy t N (parent_of n)"
    and "odd N" and "n < N" and "t n = NODE_FREE"
  shows "tree_ok (setMerge N t n) N \<and> (\<forall>x. (setMerge N t n x = NODE_USED) = (t x = NODE_USED)) \<and>
    (\<forall>x \<ge> N. setMerge N t n x = t x)"
  using assms
proof (induction n arbitrary: t rule: less_induct)
  case (less n)
  show ?case
  proof (cases "n = 0")
    case True
    then show ?thesis
      using less(2-5) by (subst (1 2 3) setMerge.simps) (simp_all add: tree_ok_def parent_of_def)
  next
    case False
    let ?p = "(n - 1) div 2"
    define b where "b = (if n mod 2 = 0 then n - 1 else n + 1)"
    have p: "?p < n" "?p < N" using False less(7) by arith+
    have nb: "(n = 2 * ?p + 1 \<and> b = 2 * ?p + 2) \<or> (n = 2 * ?p + 2 \<and> b = 2 * ?p + 1)"
      using False unfolding b_def by (cases "n mod 2 = 0") (simp_all, presburger+)
    have bN: "b < N" using nb less(6,7) by (elim disjE) presburger+
    show ?thesis
    proof (cases "t b = NODE_FREE \<and> t ?p = NODE_SPLIT")
      case True
      let ?t = "t(?p := NODE_FREE)"
      have step: "setMerge N t n = setMerge N ?t ?p"
        using False bN True less(8) p
        by (subst setMerge.simps) (auto simp: Let_def b_def split: if_splits)
      have np: "n \<noteq> ?p" "b \<noteq> ?p" using nb by arith+
      have s1: "states_ok ?t N" using less(2) by (simp add: states_ok_def)
      have s2: "leaves_free ?t N"
        unfolding leaves_free_def
      proof (intro allI impI)
        fix x c assume x: "?t x \<noteq> NODE_SPLIT" and c: "c = 2 * x + 1 \<or> c = 2 * x + 2" and cN: "c < N"
        show "?t c = NODE_FREE"
        proof (cases "x = ?p")
          case True
          with c nb have "c = n \<or> c = b" by arith
          with \<open>t b = NODE_FREE \<and> t ?p = NODE_SPLIT\<close> less(8) np show ?thesis by auto
        next
          case False
          with x have "t x \<noteq> NODE_SPLIT" by simp
          with less(3) c cN have "t c = NODE_FREE" unfolding leaves_free_def by blast
          then show ?thesis by simp
        qed
      qed
      have s3: "split_inner ?t N" using less(4) by (simp add: split_inner_def)
      have s4: "split_busy ?t N (parent_of ?p)"
        unfolding split_busy_def
      proof (intro allI impI)
        fix x assume x: "x < N" "x \<notin> parent_of ?p" "?t x = NODE_SPLIT"
        then have xp: "x \<noteq> ?p" "t x = NODE_SPLIT" by (auto split: if_splits)
        with x(1) less(5) False have "t (2 * x + 1) \<noteq> NODE_FREE \<or> t (2 * x + 2) \<noteq> NODE_FREE"
          by (simp add: split_busy_def parent_of_def)
        moreover have "2 * x + 1 \<noteq> ?p" "2 * x + 2 \<noteq> ?p"
          using x(2) by (auto simp: parent_of_def split: if_splits)
        ultimately show "?t (2 * x + 1) \<noteq> NODE_FREE \<or> ?t (2 * x + 2) \<noteq> NODE_FREE" by simp
      qed
      have "tree_ok (setMerge N ?t ?p) N \<and> (\<forall>x. (setMerge N ?t ?p x = NODE_USED) = (?t x = NODE_USED)) \<and>
        (\<forall>x \<ge> N. setMerge N ?t ?p x = ?t x)"
        by (rule less(1) [OF p(1) s1 s2 s3 s4 less(6) p(2)]) simp
      with True p show ?thesis unfolding step by auto
    next
      case same: False
      have stop: "setMerge N t n = t"
        using False bN same p(2)
        by (subst setMerge.simps) (auto simp: Let_def b_def split: if_splits)
      have "split_busy t N {}"
        unfolding split_busy_def
      proof (intro allI impI)
        fix x assume x: "x < N" "t x = NODE_SPLIT"
        show "t (2 * x + 1) \<noteq> NODE_FREE \<or> t (2 * x + 2) \<noteq> NODE_FREE"
        proof (cases "x = ?p")
          case True
          with x(2) same have "t b \<noteq> NODE_FREE" by simp
          with nb True show ?thesis by auto
        next
          case False
          with x less(5) show ?thesis by (simp add: split_busy_def parent_of_def)
        qed
      qed
      with less(2-4) stop show ?thesis by (simp add: tree_ok_def)
    qed
  qed
qed

lemma tree_ok_free:
  assumes ok: "tree_ok t N" and odd: "odd N" and n: "n < N" "t n = NODE_USED"
  shows "tree_ok (setMerge N (t(n := NODE_FREE)) n) N"
    and "(setMerge N (t(n := NODE_FREE)) n x = NODE_USED) = (x \<noteq> n \<and> t x = NODE_USED)"
    and "N \<le> x \<Longrightarrow> setMerge N (t(n := NODE_FREE)) n x = t x"
proof -
  let ?t = "t(n := NODE_FREE)"
  have "states_ok ?t N" using ok by (simp add: tree_ok_def states_ok_def)
  moreover have "leaves_free ?t N"
    using ok n unfolding tree_ok_def leaves_free_def by (metis fun_upd_apply node_values(5))
  moreover have "split_inner ?t N" using ok by (simp add: tree_ok_def split_inner_def)
  moreover have "split_busy ?t N (parent_of n)"
    unfolding split_busy_def
  proof (intro allI impI)
    fix y assume y: "y < N" "y \<notin> parent_of n" "?t y = NODE_SPLIT"
    then have "t y = NODE_SPLIT" by (auto split: if_splits)
    with y(1) ok have "t (2 * y + 1) \<noteq> NODE_FREE \<or> t (2 * y + 2) \<noteq> NODE_FREE"
      by (simp add: tree_ok_def split_busy_def)
    moreover have "2 * y + 1 \<noteq> n" "2 * y + 2 \<noteq> n"
      using y(2) by (auto simp: parent_of_def split: if_splits)
    ultimately show "?t (2 * y + 1) \<noteq> NODE_FREE \<or> ?t (2 * y + 2) \<noteq> NODE_FREE" by simp
  qed
  ultimately have res: "tree_ok (setMerge N ?t n) N \<and>
      (\<forall>x. (setMerge N ?t n x = NODE_USED) = (?t x = NODE_USED)) \<and> (\<forall>x \<ge> N. setMerge N ?t n x = ?t x)"
    using odd n(1) by (intro setMerge_ok) simp_all
  then show "tree_ok (setMerge N ?t n) N" by blast
  from res show "(setMerge N ?t n x = NODE_USED) = (x \<noteq> n \<and> t x = NODE_USED)" by simp
  from res n(1) show "N \<le> x \<Longrightarrow> setMerge N ?t n x = t x" by simp
qed

text \<open>The used nodes determine the whole tree.\<close>

lemma split_has_used:
  assumes "tree_ok t N" and "n < N" and "t n = NODE_SPLIT"
  shows "\<exists>x < N. ancestor n x \<and> t x = NODE_USED"
  using assms(2,3)
proof (induction "N - n" arbitrary: n rule: less_induct)
  case less
  have inner: "2 * n + 2 < N" and "t (2 * n + 1) \<noteq> NODE_FREE \<or> t (2 * n + 2) \<noteq> NODE_FREE"
    using assms(1) less(2,3) by (auto simp: tree_ok_def split_inner_def split_busy_def)
  then have "\<exists>c. (c = 2 * n + 1 \<or> c = 2 * n + 2) \<and> t c \<noteq> NODE_FREE" by blast
  with inner obtain c where c: "c = 2 * n + 1 \<or> c = 2 * n + 2" "t c \<noteq> NODE_FREE" "c < N" "n < c"
    by force
  from child_parent [OF c(1)] have nc: "ancestor n c" using ancestor_parent by metis
  from c(3) assms(1) c(2) consider "t c = NODE_USED" | "t c = NODE_SPLIT"
    by (auto simp: tree_ok_def states_ok_def)
  then show ?case
  proof cases
    case 1
    with nc c(3) show ?thesis by blast
  next
    case 2
    have "N - c < N - n" using c(3,4) by arith
    from less(1) [OF this c(3) 2] obtain x where x: "x < N" "ancestor c x" "t x = NODE_USED" by blast
    from x(2) obtain k where k: "c + 1 = (x + 1) div 2 ^ k" by (auto simp: ancestor_def)
    from nc obtain j where j: "0 < j" "n + 1 = (c + 1) div 2 ^ j" by (auto simp: ancestor_def)
    then have "n + 1 = (x + 1) div 2 ^ (k + j)" unfolding k by (simp add: div_mult2_eq power_add)
    with j have "ancestor n x" unfolding ancestor_def by (metis add_gr_0)
    with x show ?thesis by blast
  qed
qed

lemma tree_ok_unique:
  assumes "tree_ok t N" and "tree_ok u N" and "\<forall>x < N. (t x = NODE_USED) = (u x = NODE_USED)" and "n < N"
  shows "t n = u n"
proof -
  have split: "(v n = NODE_SPLIT) = (\<exists>x < N. ancestor n x \<and> v x = NODE_USED)" if "tree_ok v N" for v
    using split_has_used [OF that assms(4)] busy_ancestors_split [OF that] by auto
  have "(t n = NODE_SPLIT) = (u n = NODE_SPLIT)"
    using split [OF assms(1)] split [OF assms(2)] assms(3) by blast
  moreover have "t n = NODE_FREE \<or> t n = NODE_USED \<or> t n = NODE_SPLIT"
      "u n = NODE_FREE \<or> u n = NODE_USED \<or> u n = NODE_SPLIT"
    using assms by (auto simp: tree_ok_def states_ok_def)
  ultimately show ?thesis using assms(3,4) by auto
qed

section \<open>The search for a free node\<close>

lemma level_word_neq: "L < T \<Longrightarrow> T < 256 \<Longrightarrow> (word_of_nat L :: 8 word) \<noteq> word_of_nat T"
  by (auto simp: word_of_nat_eq_iff take_bit_eq_mod)

lemma at_level_child:
  "at_level n l \<Longrightarrow> c = 2 * n + 1 \<or> c = 2 * n + 2 \<Longrightarrow> at_level c (l + 1)"
  by (auto simp: at_level_def)

lemma at_level_small: "at_level n l \<Longrightarrow> l \<le> 60 \<Longrightarrow> 2 * n + 2 < 2 ^ 64"
proof -
  assume "at_level n l" and "l \<le> 60"
  then have "n + 1 < 2 ^ (l + 1)" and "(2 :: nat) ^ (l + 1) \<le> 2 ^ 61"
    unfolding at_level_def by (blast, intro power_increasing) simp_all
  then show ?thesis by simp
qed

lemma findFreeNode_step:
  assumes "L < T" and "T \<le> 60" and "at_level n L"
  shows "findFreeNode t n (word_of_nat L) (word_of_nat T) =
    (if t n \<noteq> NODE_SPLIT \<and> t n \<noteq> NODE_FREE then None
     else case findFreeNode t (2 * n + 1) (word_of_nat (L + 1)) (word_of_nat T) of
        Some left \<Rightarrow> Some left
      | None \<Rightarrow> findFreeNode t (2 * n + 2) (word_of_nat (L + 1)) (word_of_nat T))"
proof -
  have "(word_of_nat L :: 8 word) \<noteq> word_of_nat T"
    using assms by (intro level_word_neq) auto
  moreover have "(n * 2 + 1) mod 2 ^ 64 = 2 * n + 1" "(n * 2 + 2) mod 2 ^ 64 = 2 * n + 2"
    using at_level_small [OF assms(3)] assms(1,2) by auto
  moreover have "(word_of_nat L :: 8 word) + 1 = word_of_nat (L + 1)"
    by simp
  ultimately show ?thesis
    by (subst findFreeNode.simps) (simp only: if_False)
qed

lemma findFreeNode_Some:
  assumes "findFreeNode t n (word_of_nat L) (word_of_nat T) = Some y"
    and "L \<le> T" and "T \<le> 60" and "at_level n L"
  shows "at_level y T \<and> t y = NODE_FREE \<and> (y + 1) div 2 ^ (T - L) = n + 1 \<and>
    (\<forall>k. 0 < k \<and> k \<le> T - L \<longrightarrow> t ((y + 1) div 2 ^ k - 1) \<noteq> NODE_USED)"
  using assms
proof (induction "T - L" arbitrary: n L)
  case 0
  then have "L = T" by simp
  with 0(2) have "t n = NODE_FREE" and "y = n"
    by (subst (asm) findFreeNode.simps, simp split: if_splits)+
  with 0(5) \<open>L = T\<close> show ?case by simp
next
  case (Suc d)
  then have LT: "L < T" by arith
  note step = findFreeNode_step [OF LT Suc(5,6)]
  have tn: "t n \<noteq> NODE_USED" using Suc(3) unfolding step by (auto split: if_splits)
  obtain c where c: "c = 2 * n + 1 \<or> c = 2 * n + 2"
      "findFreeNode t c (word_of_nat (L + 1)) (word_of_nat T) = Some y"
    using Suc(3) unfolding step by (auto split: if_splits option.splits)
  have IH: "at_level y T \<and> t y = NODE_FREE \<and> (y + 1) div 2 ^ (T - (L + 1)) = c + 1 \<and>
      (\<forall>k. 0 < k \<and> k \<le> T - (L + 1) \<longrightarrow> t ((y + 1) div 2 ^ k - 1) \<noteq> NODE_USED)"
    using Suc(2) LT Suc(5) c(2) at_level_child [OF Suc(6) c(1)] by (intro Suc(1)) simp_all
  have up: "(y + 1) div 2 ^ (T - L) = n + 1"
  proof -
    have "(y + 1) div 2 ^ (T - L) = ((y + 1) div 2 ^ (T - (L + 1))) div 2"
      using LT by (simp add: div_mult2_eq [symmetric] mult.commute power_Suc [symmetric] Suc_diff_Suc
          del: power_Suc)
    with IH c(1) show ?thesis by auto
  qed
  have "t ((y + 1) div 2 ^ k - 1) \<noteq> NODE_USED" if "0 < k" "k \<le> T - L" for k
  proof (cases "k = T - L")
    case True
    with up tn show ?thesis by simp
  next
    case False
    with that have "k \<le> T - (L + 1)" by arith
    with IH that show ?thesis by blast
  qed
  with IH up show ?case by blast
qed

lemma findFreeNode_None:
  assumes "findFreeNode t n (word_of_nat L) (word_of_nat T) = None"
    and "L \<le> T" and "T \<le> 60" and "at_level n L"
    and "(y + 1) div 2 ^ (T - L) = n + 1" and "t y = NODE_FREE"
  shows "\<exists>k. 0 < k \<and> k \<le> T - L \<and> t ((y + 1) div 2 ^ k - 1) \<noteq> NODE_SPLIT \<and> t ((y + 1) div 2 ^ k - 1) \<noteq> NODE_FREE"
  using assms
proof (induction "T - L" arbitrary: n L)
  case 0
  then have "L = T" by simp
  with 0 have False by (subst (asm) findFreeNode.simps) (simp split: if_splits)
  then show ?case ..
next
  case (Suc d)
  then have LT: "L < T" by arith
  note step = findFreeNode_step [OF LT Suc(5,6)]
  show ?case
  proof (cases "t n \<noteq> NODE_SPLIT \<and> t n \<noteq> NODE_FREE")
    case True
    with Suc(7) LT show ?thesis by (intro exI [of _ "T - L"]) simp
  next
    case False
    then have none: "findFreeNode t c (word_of_nat (L + 1)) (word_of_nat T) = None"
      if "c = 2 * n + 1 \<or> c = 2 * n + 2" for c
      using Suc(3) that unfolding step by (auto split: if_splits option.splits)
    have "(y + 1) div 2 ^ (T - L) = ((y + 1) div 2 ^ (T - (L + 1))) div 2"
      using LT by (simp add: div_mult2_eq [symmetric] mult.commute power_Suc [symmetric] Suc_diff_Suc
          del: power_Suc)
    with Suc(7) obtain c where c: "c = 2 * n + 1 \<or> c = 2 * n + 2" "(y + 1) div 2 ^ (T - (L + 1)) = c + 1"
      by (intro that [of "(y + 1) div 2 ^ (T - (L + 1)) - 1"]) arith+
    have "\<exists>k. 0 < k \<and> k \<le> T - (L + 1) \<and> t ((y + 1) div 2 ^ k - 1) \<noteq> NODE_SPLIT \<and>
        t ((y + 1) div 2 ^ k - 1) \<noteq> NODE_FREE"
      using Suc(2) LT Suc(5) none [OF c(1)] at_level_child [OF Suc(6) c(1)] c(2) Suc(8)
      by (intro Suc(1) [of "L + 1" c]) simp_all
    then obtain k where "0 < k" "k \<le> T - (L + 1)" "t ((y + 1) div 2 ^ k - 1) \<noteq> NODE_SPLIT \<and>
        t ((y + 1) div 2 ^ k - 1) \<noteq> NODE_FREE" by blast
    then show ?thesis by (intro exI [of _ k]) simp
  qed
qed

section \<open>Blocks, live pointers and the invariant\<close>

definition block_off :: "nat \<Rightarrow> nat \<Rightarrow> nat \<Rightarrow> nat" where
  "block_off M n l = (n + 1 - 2 ^ l) * 2 ^ (M - l)"

definition used_block :: "buddy_state \<Rightarrow> addr \<Rightarrow> nat \<Rightarrow> nat \<Rightarrow> bool" where
  "used_block s p n l \<longleftrightarrow> (let m = buddy s in
     n < totalNodes m \<and> at_level n l \<and> tree m n = NODE_USED \<and>
     block_off (maxExp m) n l < bsize m \<and> p = treeStart m + block_off (maxExp m) n l)"

definition buddy_live :: "buddy_state \<Rightarrow> addr set" where
  "buddy_live s = {p. \<exists>n l. used_block s p n l}"

definition buddy_extent :: "buddy_state \<Rightarrow> addr \<Rightarrow> addr set" where
  "buddy_extent s p = {b. \<exists>n l. used_block s p n l \<and> p \<le> b \<and> b < p + 2 ^ (maxExp (buddy s) - l)}"

definition buddy_inv :: "buddy_state \<Rightarrow> bool" where
  "buddy_inv s \<longleftrightarrow> (let m = buddy s in
     buddyBaseAddress s \<noteq> 0 \<and> 17 \<le> maxExp m \<and> maxExp m \<le> 28 \<and>
     totalNodes m = 2 ^ (maxExp m - 3) - 1 \<and>
     0 < treeStart m \<and> treeStart m + 2 ^ maxExp m < 2 ^ 64 \<and> bsize m < 2 ^ 64 \<and> bused m < 2 ^ 64 \<and>
     tree_ok (tree m) (totalNodes m))"

lemma buddy_invD:
  assumes "buddy_inv s"
  shows "buddyBaseAddress s \<noteq> 0" "17 \<le> maxExp (buddy s)" "maxExp (buddy s) \<le> 28"
    "totalNodes (buddy s) = 2 ^ (maxExp (buddy s) - 3) - 1" "0 < treeStart (buddy s)"
    "bsize (buddy s) < 2 ^ 64" "bused (buddy s) < 2 ^ 64"
    "tree_ok (tree (buddy s)) (totalNodes (buddy s))" "odd (totalNodes (buddy s))"
  using assms by (auto simp: buddy_inv_def Let_def)

lemma at_level_unique: "at_level n l \<Longrightarrow> at_level n l' \<Longrightarrow> l = l'"
proof (rule ccontr)
  assume a: "at_level n l" "at_level n l'" "l \<noteq> l'"
  then consider "l + 1 \<le> l'" | "l' + 1 \<le> l" by arith
  then show False
  proof cases
    case 1
    then have "(2 :: nat) ^ (l + 1) \<le> 2 ^ l'" by (intro power_increasing) simp_all
    with a show False unfolding at_level_def by linarith
  next
    case 2
    then have "(2 :: nat) ^ (l' + 1) \<le> 2 ^ l" by (intro power_increasing) simp_all
    with a show False unfolding at_level_def by linarith
  qed
qed

lemma at_level_total:
  assumes "buddy_inv s" and "at_level n l"
  shows "n < totalNodes (buddy s) \<longleftrightarrow> l + 4 \<le> maxExp (buddy s)"
proof
  define M where "M = maxExp (buddy s)"
  have M: "17 \<le> M" "totalNodes (buddy s) = 2 ^ (M - 3) - 1"
    using buddy_invD [OF assms(1)] by (simp_all add: M_def)
  {
    assume "n < totalNodes (buddy s)"
    with M have "n + 1 < 2 ^ (M - 3)" by arith
    moreover have "2 ^ l \<le> n + 1" using assms(2) by (simp add: at_level_def)
    ultimately have "(2 :: nat) ^ l < 2 ^ (M - 3)" by (rule le_less_trans [rotated])
    then have "l < M - 3" by (rule power_less_imp_less_exp [rotated]) simp
    with M show "l + 4 \<le> maxExp (buddy s)" by (simp add: M_def)
  next
    assume "l + 4 \<le> maxExp (buddy s)"
    then have "(2 :: nat) ^ (l + 1) \<le> 2 ^ (M - 3)" by (intro power_increasing) (simp_all add: M_def)
    moreover have "n + 1 < 2 ^ (l + 1)" using assms(2) by (simp add: at_level_def)
    ultimately have "n + 1 < 2 ^ (M - 3)" by (rule less_le_trans [rotated])
    with M show "n < totalNodes (buddy s)" by arith
  }
qed

text \<open>The node that contains an offset on a coarser level is an ancestor.\<close>

lemma block_off_div:
  assumes "at_level n l" and "b div 2 ^ (M - l) = n + 1 - 2 ^ l" and "k \<le> l" and "l \<le> M"
  shows "b div 2 ^ (M - (l - k)) + 2 ^ (l - k) = (n + 1) div 2 ^ k"
proof -
  have "b div 2 ^ (M - (l - k)) = (b div 2 ^ (M - l)) div 2 ^ k"
    using assms(3,4) by (simp add: div_mult2_eq [symmetric] power_add [symmetric])
  also have "\<dots> = (n + 1 - 2 ^ l) div 2 ^ k" using assms(2) by simp
  finally have "b div 2 ^ (M - (l - k)) + 2 ^ (l - k) = (n + 1 - 2 ^ l) div 2 ^ k + 2 ^ (l - k)" by simp
  also have "\<dots> = (n + 1 - 2 ^ l + 2 ^ (l - k) * 2 ^ k) div 2 ^ k" by simp
  also have "(2 :: nat) ^ (l - k) * 2 ^ k = 2 ^ l"
    using assms(3) by (simp add: power_add [symmetric])
  also have "n + 1 - 2 ^ l + 2 ^ l = n + 1" using assms(1) by (simp add: at_level_def)
  finally show ?thesis .
qed

lemma in_block_div:
  "block_off M n l \<le> b \<Longrightarrow> b < block_off M n l + 2 ^ (M - l) \<Longrightarrow> b div 2 ^ (M - l) = n + 1 - 2 ^ l"
  unfolding block_off_def by (metis add.commute div_nat_eqI mult.commute mult_Suc)

lemma overlapping_blocks:
  assumes inv: "buddy_inv s" and x: "used_block s p x lx" and y: "used_block s q y ly"
    and b: "p \<le> b" "b < p + 2 ^ (maxExp (buddy s) - lx)" "q \<le> b" "b < q + 2 ^ (maxExp (buddy s) - ly)"
    and le: "lx \<le> ly"
  shows "x = y"
proof (rule ccontr)
  assume "x \<noteq> y"
  define M where "M = maxExp (buddy s)"
  define o' where "o' = b - treeStart (buddy s)"
  have lx: "at_level x lx" "x < totalNodes (buddy s)" "tree (buddy s) x = NODE_USED"
    and ly: "at_level y ly" "y < totalNodes (buddy s)" "tree (buddy s) y = NODE_USED"
    using x y by (auto simp: used_block_def Let_def)
  have lM: "lx \<le> M" "ly \<le> M"
    using at_level_total [OF inv lx(1)] at_level_total [OF inv ly(1)] lx(2) ly(2) by (simp_all add: M_def)
  have dx: "o' div 2 ^ (M - lx) = x + 1 - 2 ^ lx"
    using x b by (intro in_block_div) (auto simp: used_block_def Let_def M_def o'_def)
  have dy: "o' div 2 ^ (M - ly) = y + 1 - 2 ^ ly"
    using y b by (intro in_block_div) (auto simp: used_block_def Let_def M_def o'_def)
  have "o' div 2 ^ (M - (ly - (ly - lx))) + 2 ^ (ly - (ly - lx)) = (y + 1) div 2 ^ (ly - lx)"
    by (rule block_off_div [OF ly(1) dy]) (use lM in simp_all)
  with dx le have num: "x + 1 = (y + 1) div 2 ^ (ly - lx)"
    using lx(1) by (simp add: at_level_def)
  show False
  proof (cases "ly = lx")
    case True
    with num \<open>x \<noteq> y\<close> show False by simp
  next
    case False
    with le num have "ancestor x y" unfolding ancestor_def by (metis zero_less_diff le_neq_implies_less)
    with busy_ancestors_split [OF buddy_invD(8) [OF inv] ly(2)] ly(3) lx(3) show False by simp
  qed
qed

lemma used_block_unique:
  assumes "buddy_inv s" and "used_block s p n l" and "used_block s p n' l'"
  shows "n = n'" and "l = l'"
proof -
  show "n = n'"
  proof (cases "l \<le> l'")
    case True
    show ?thesis by (rule overlapping_blocks [OF assms, of p]) (use True in simp_all)
  next
    case False
    show ?thesis
      by (rule overlapping_blocks [OF assms(1,3,2), of p, symmetric]) (use False in simp_all)
  qed
  with assms(2,3) show "l = l'"
    by (auto simp: used_block_def Let_def intro: at_level_unique)
qed

lemma buddy_extent_block:
  assumes "buddy_inv s" and "used_block s p n l"
  shows "buddy_extent s p = {p ..< p + 2 ^ (maxExp (buddy s) - l)}"
proof -
  have "(\<exists>n' l'. used_block s p n' l' \<and> p \<le> b \<and> b < p + 2 ^ (maxExp (buddy s) - l')) =
      (p \<le> b \<and> b < p + 2 ^ (maxExp (buddy s) - l))" for b
    using assms(2) used_block_unique(2) [OF assms(1) _ assms(2)] by metis
  then show ?thesis by (intro set_eqI) (simp add: buddy_extent_def)
qed

section \<open>Allocation and release\<close>

lemma getExponent_from_spec:
  assumes "e0 \<le> e1" and "sz \<le> 2 ^ e1"
  shows "e0 \<le> getExponent_from sz e0 \<and> getExponent_from sz e0 \<le> e1 \<and> sz \<le> 2 ^ getExponent_from sz e0 \<and>
    (\<forall>e. e0 \<le> e \<and> sz \<le> 2 ^ e \<longrightarrow> getExponent_from sz e0 \<le> e)"
  using assms
proof (induction sz e0 rule: getExponent_from.induct)
  case (1 sz e0)
  show ?case
  proof (cases "POW2 e0 < sz")
    case True
    then have e0: "e0 + 1 \<le> e1" using 1(2,3) by (cases "e0 = e1") (auto simp: POW2_def)
    have rec: "getExponent_from sz e0 = getExponent_from sz (e0 + 1)"
      using True by (subst getExponent_from.simps) simp
    have "e0 + 1 \<le> e" if "e0 \<le> e" "sz \<le> 2 ^ e" for e
      using that True by (cases "e = e0") (auto simp: POW2_def)
    with 1(1) [OF True e0 1(3)] show ?thesis unfolding rec by fastforce
  next
    case False
    with 1(2) show ?thesis by (subst (1 2 3 4) getExponent_from.simps) (simp add: POW2_def)
  qed
qed

lemma getExponent_spec:
  assumes "sz \<le> POW2 17"
  shows "4 \<le> getExponent sz" "getExponent sz \<le> 17" "sz \<le> 2 ^ getExponent sz"
    "4 \<le> e \<Longrightarrow> sz \<le> 2 ^ e \<Longrightarrow> getExponent sz \<le> e"
  using getExponent_from_spec [of 4 17 sz] assms
  by (simp_all add: getExponent_def MIN_EXP_def POW2_def)

lemma root_path_all_ancestors:
  assumes "at_level y T" and "\<forall>k. 0 < k \<and> k \<le> T \<longrightarrow> t ((y + 1) div 2 ^ k - 1) \<noteq> v" and "ancestor a y"
  shows "t a \<noteq> v"
proof -
  from assms(3) obtain k where k: "0 < k" "a + 1 = (y + 1) div 2 ^ k" by (auto simp: ancestor_def)
  have "k \<le> T"
  proof (rule ccontr)
    assume "\<not> k \<le> T"
    then have "(2 :: nat) ^ (T + 1) \<le> 2 ^ k" by (intro power_increasing) simp_all
    with assms(1) have "y + 1 < 2 ^ k" unfolding at_level_def by linarith
    with k show False by simp
  qed
  with assms(2) k(1) have "t ((y + 1) div 2 ^ k - 1) \<noteq> v" by blast
  moreover have "a = (y + 1) div 2 ^ k - 1" using k(2) by simp
  ultimately show ?thesis by simp
qed

lemma buddy_alloc_cases:
  assumes inv: "buddy_inv s"
  obtains (Null) "buddy_alloc sz s = (0, s)"
  | (Node) y T where "0 < sz" "sz \<le> POW2 17" "T = maxExp (buddy s) - getExponent sz"
      "sz \<le> sub64 (bsize (buddy s)) (bused (buddy s))"
      "at_level y T" "y < totalNodes (buddy s)" "tree (buddy s) y = NODE_FREE"
      "\<And>a. ancestor a y \<Longrightarrow> tree (buddy s) a \<noteq> NODE_USED"
      "buddy_alloc sz s =
        (if block_off (maxExp (buddy s)) y T \<ge> bsize (buddy s) then 0
         else treeStart (buddy s) + block_off (maxExp (buddy s)) y T,
         s\<lparr>buddy := (buddy s)\<lparr>tree := (splitTree (tree (buddy s)) y)(y := NODE_USED),
            bused := add64 (bused (buddy s)) (2 ^ getExponent sz)\<rparr>\<rparr>)"
proof (cases "sz > sub64 (bsize (buddy s)) (bused (buddy s)) \<or> sz = 0 \<or> sz > POW2 17")
  case True
  then have "buddy_alloc sz s = (0, s)" by (auto simp: buddy_alloc_def Let_def)
  then show ?thesis by (rule Null)
next
  case False
  define m where "m = buddy s"
  define T where "T = maxExp m - getExponent sz"
  note inv' = buddy_invD [OF inv, folded m_def]
  have e: "4 \<le> getExponent sz" "getExponent sz \<le> 17" using getExponent_spec [of sz] False by simp_all
  have w: "word_of_nat (maxExp m) - word_of_nat (getExponent sz) = (word_of_nat T :: 8 word)"
    using e inv'(2) by (simp add: T_def of_nat_diff)
  have T: "T \<le> 60" "T + 4 \<le> maxExp m" "maxExp m - T = getExponent sz"
    using e inv'(2,3) by (simp_all add: T_def)
  show ?thesis
  proof (cases "findFreeNode (tree m) 0 0 (word_of_nat T)")
    case None
    with False have "buddy_alloc sz s = (0, s)"
      by (simp add: buddy_alloc_def Let_def m_def [symmetric] w)
    then show ?thesis by (rule Null)
  next
    case (Some y)
    have "at_level 0 0" by (simp add: at_level_def)
    with findFreeNode_Some [of "tree m" 0 0 T y] Some T(1)
    have y: "at_level y T" "tree m y = NODE_FREE"
        "\<forall>k. 0 < k \<and> k \<le> T \<longrightarrow> tree m ((y + 1) div 2 ^ k - 1) \<noteq> NODE_USED" by simp_all
    have yN: "y < totalNodes m"
      using at_level_total [OF inv y(1)] T(2) by (simp add: m_def)
    have off: "(y - getNodeLevel m (getExponent sz)) * POW2 (getExponent sz) = block_off (maxExp m) y T"
      using y(1) by (simp add: getNodeLevel_def POW2_def block_off_def T(3) T_def [symmetric] at_level_def)
    have "buddy_alloc sz s =
        (if block_off (maxExp m) y T \<ge> bsize m then 0 else treeStart m + block_off (maxExp m) y T,
         s\<lparr>buddy := m\<lparr>tree := (splitTree (tree m) y)(y := NODE_USED),
            bused := add64 (bused m) (2 ^ getExponent sz)\<rparr>\<rparr>)"
      using False Some yN
      by (simp add: buddy_alloc_def Let_def m_def [symmetric] w off setSplitedChildren_def) (simp add: POW2_def)
    with False y yN root_path_all_ancestors [OF y(1,3)] show ?thesis
      by (intro Node [of T y]) (simp_all add: m_def T_def)
  qed
qed

lemma buddy_alloc_tree_ok:
  assumes "buddy_inv s" and "y < totalNodes (buddy s)" and "tree (buddy s) y = NODE_FREE"
  shows "buddy_inv (s\<lparr>buddy := (buddy s)\<lparr>tree := (splitTree (tree (buddy s)) y)(y := NODE_USED),
    bused := add64 u v\<rparr>\<rparr>)"
  using assms(1) tree_ok_alloc [OF buddy_invD(8,9) [OF assms(1)] assms(2,3)] add64_bound [of u v]
  by (simp add: buddy_inv_def Let_def)

lemma used_block_alloc:
  assumes inv: "buddy_inv s" and y: "y < totalNodes (buddy s)" "tree (buddy s) y = NODE_FREE" "at_level y T"
    and anc: "\<And>a. ancestor a y \<Longrightarrow> tree (buddy s) a \<noteq> NODE_USED"
    and s': "s' = s\<lparr>buddy := (buddy s)\<lparr>tree := (splitTree (tree (buddy s)) y)(y := NODE_USED), bused := u\<rparr>\<rparr>"
  shows "used_block s' p n l \<longleftrightarrow> used_block s p n l \<or>
    (n = y \<and> l = T \<and> block_off (maxExp (buddy s)) y T < bsize (buddy s) \<and>
      p = treeStart (buddy s) + block_off (maxExp (buddy s)) y T)"
proof -
  have "tree (buddy s') n = NODE_USED \<longleftrightarrow> n = y \<or> tree (buddy s) n = NODE_USED"
    using anc [of n] y(2) by (auto simp: s' splitTree_eq)
  then show ?thesis
    using y at_level_unique [OF y(3), of l] unfolding used_block_def Let_def by (auto simp: s')
qed

lemma exponent_loop_spec:
  assumes "e \<le> a" and "address mod 2 ^ e = 0"
  shows "e \<le> exponent_loop address a \<and> exponent_loop address a \<le> a"
  using assms(1)
proof (induction a)
  case 0
  then show ?case by (subst (1 2) exponent_loop.simps) (simp add: POW2_def)
next
  case (Suc a)
  show ?case
  proof (cases "address mod 2 ^ (Suc a) = 0")
    case True
    with Suc(2) show ?thesis by (subst (1 2) exponent_loop.simps) (simp add: POW2_def)
  next
    case False
    with assms(2) Suc(2) have "e \<le> a" by (cases "e = Suc a") auto
    with Suc(1) False show ?thesis by (subst (1 2) exponent_loop.simps) (simp add: POW2_def)
  qed
qed

lemma getNodeIndex_from_block:
  assumes inv: "buddy_inv s" and n: "used_block s p n l"
    and "maxExp (buddy s) - l \<le> k" and "k \<le> maxExp (buddy s)" and "tree (buddy s) nd \<noteq> NODE_USED"
  shows "getNodeIndex_from (buddy s) p nd k = Some (n, maxExp (buddy s) - l - 1)"
  using assms(3-5)
proof (induction k arbitrary: nd)
  case 0
  have "l + 4 \<le> maxExp (buddy s)"
    using n at_level_total [OF inv, of n l] by (simp add: used_block_def Let_def)
  with 0 show ?case by simp
next
  case (Suc k)
  define M where "M = maxExp (buddy s)"
  have nl: "at_level n l" "n < totalNodes (buddy s)" "tree (buddy s) n = NODE_USED"
      "p = treeStart (buddy s) + block_off M n l" "block_off M n l < bsize (buddy s)"
    using n by (auto simp: used_block_def Let_def M_def)
  have lM: "l + 4 \<le> M" using at_level_total [OF inv nl(1)] nl(2) by (simp add: M_def)
  define j where "j = Suc k - (M - l)"
  have j: "j \<le> l" "M - (l - j) = Suc k" "M - Suc k = l - j"
    using Suc(2,3) lM by (auto simp: j_def M_def)
  have "block_off M n l div 2 ^ (M - l) = n + 1 - 2 ^ l" by (simp add: block_off_def)
  from block_off_div [OF nl(1) this j(1)] lM j(2)
  have num: "block_off M n l div 2 ^ Suc k + 2 ^ (l - j) = (n + 1) div 2 ^ j" by simp
  define nd' where "nd' = block_off M n l div POW2 (Suc k) + getNodeLevel (buddy s) (Suc k)"
  have nd': "nd' + 1 = (n + 1) div 2 ^ j"
  proof -
    have "(1 :: nat) \<le> 2 ^ (l - j)" by simp
    then have "nd' + 1 = block_off M n l div 2 ^ Suc k + 2 ^ (l - j)"
      unfolding nd'_def getNodeLevel_def POW2_def M_def [symmetric] j(3) by linarith
    with num show ?thesis by simp
  qed
  have step: "getNodeIndex_from (buddy s) p nd (Suc k) = getNodeIndex_from (buddy s) p nd' k"
    using Suc(4) nl(4,5) by (simp add: Let_def nd'_def)
  show ?case
  proof (cases "j = 0")
    case True
    with nd' have "nd' = n" by simp
    moreover have k: "Suc k = M - l" using True Suc(2) by (simp add: j_def M_def)
    then obtain k' where "k = Suc k'" using lM by (cases k) auto
    ultimately show ?thesis
      using k nl(3) unfolding step M_def [symmetric] by simp
  next
    case False
    with nd' have "ancestor nd' n" unfolding ancestor_def by blast
    then have "tree (buddy s) nd' = NODE_SPLIT"
      using busy_ancestors_split [OF buddy_invD(8) [OF inv] nl(2)] nl(3) by simp
    moreover have "maxExp (buddy s) - l \<le> k" using False by (simp add: j_def M_def)
    ultimately show ?thesis
      unfolding step using Suc(1) Suc(3) by simp
  qed
qed

definition freed_exponent :: "buddy_state \<Rightarrow> nat \<Rightarrow> nat \<Rightarrow> nat" where
  "freed_exponent s n l = (if n = 0 then maxExp (buddy s) else maxExp (buddy s) - l - 1)"

lemma buddy_free_block:
  assumes inv: "buddy_inv s" and n: "used_block s p n l"
  shows "buddy_free p s = s\<lparr>buddy := (buddy s)\<lparr>
    tree := setMerge (totalNodes (buddy s)) ((tree (buddy s))(n := NODE_FREE)) n,
    bused := sub64 (bused (buddy s)) (2 ^ freed_exponent s n l)\<rparr>\<rparr>"
proof -
  define M where "M = maxExp (buddy s)"
  have nl: "at_level n l" "n < totalNodes (buddy s)" "tree (buddy s) n = NODE_USED"
      "p = treeStart (buddy s) + block_off M n l"
    using n by (auto simp: used_block_def Let_def M_def)
  have p: "p \<noteq> 0" using nl(4) buddy_invD(5) [OF inv] by simp
  have ptr: "getExponentPtr (buddy s) p = exponent_loop (block_off M n l) M"
    using nl(4) by (simp add: getExponentPtr_def M_def)
  have "getNodeIndex (buddy s) p (getExponentPtr (buddy s) p) = Some (n, freed_exponent s n l)"
  proof (cases "n = 0")
    case True
    have "at_level 0 0" by (simp add: at_level_def)
    with nl(1) True have "l = 0" by (auto intro: at_level_unique)
    with True have "block_off M n l = 0" by (simp add: block_off_def)
    then have "getExponentPtr (buddy s) p = M"
      unfolding ptr by (subst exponent_loop.simps) simp
    moreover obtain k where "M = Suc k" using buddy_invD(2) [OF inv] by (cases M) (auto simp: M_def)
    ultimately show ?thesis using True nl(3) by (simp add: getNodeIndex_def freed_exponent_def M_def)
  next
    case False
    have root: "tree (buddy s) 0 \<noteq> NODE_USED"
    proof -
      have "0 + 1 = (n + 1) div 2 ^ l" using nl(1) by (intro div_nat_eqI [symmetric]) (auto simp: at_level_def)
      moreover have "l \<noteq> 0" using False nl(1) by (cases l) (auto simp: at_level_def)
      ultimately have "ancestor 0 n" unfolding ancestor_def by blast
      with busy_ancestors_split [OF buddy_invD(8) [OF inv] nl(2)] nl(3) show ?thesis by simp
    qed
    have "M - l \<le> exponent_loop (block_off M n l) M \<and> exponent_loop (block_off M n l) M \<le> M"
      by (rule exponent_loop_spec) (simp_all add: block_off_def)
    with getNodeIndex_from_block [OF inv n _ _ root] show ?thesis
      using False by (simp add: getNodeIndex_def ptr freed_exponent_def M_def)
  qed
  with p show ?thesis by (simp add: buddy_free_def Let_def POW2_def)
qed

lemma used_block_free:
  assumes inv: "buddy_inv s" and n: "used_block s p n l"
  shows "used_block (buddy_free p s) q n' l' \<longleftrightarrow> used_block s q n' l' \<and> n' \<noteq> n"
proof -
  have nN: "n < totalNodes (buddy s)" "tree (buddy s) n = NODE_USED"
    using n by (auto simp: used_block_def Let_def)
  show ?thesis
    using tree_ok_free(2) [OF buddy_invD(8,9) [OF inv] nN, of n']
    unfolding buddy_free_block [OF inv n] by (auto simp: used_block_def Let_def)
qed

lemma buddy_free_inv:
  assumes inv: "buddy_inv s" and n: "used_block s p n l"
  shows "buddy_inv (buddy_free p s)"
proof -
  have nN: "n < totalNodes (buddy s)" "tree (buddy s) n = NODE_USED"
    using n by (auto simp: used_block_def Let_def)
  show ?thesis
    unfolding buddy_free_block [OF inv n]
    using inv tree_ok_free(1) [OF buddy_invD(8,9) [OF inv] nN]
      sub64_bound [of "bused (buddy s)" "2 ^ freed_exponent s n l"]
    by (simp add: buddy_inv_def Let_def)
qed

lemma buddy_alloc_facts:
  assumes inv: "buddy_inv s" and alloc: "buddy_alloc n s = (p, s')"
  shows "buddy_inv s' \<and> (p = 0 \<longrightarrow> buddy_live s' = buddy_live s) \<and>
      (p \<noteq> 0 \<longrightarrow> p \<notin> buddy_live s \<and> buddy_live s' = insert p (buddy_live s) \<and>
        {p ..< p + n} \<subseteq> buddy_extent s' p) \<and>
      (q \<in> buddy_live s \<longrightarrow> buddy_extent s' q = buddy_extent s q)"
proof (cases rule: buddy_alloc_cases [OF inv, of n])
  case 1
  with alloc inv show ?thesis by simp
next
  case (2 y T)
  define M where "M = maxExp (buddy s)"
  have s': "s' = s\<lparr>buddy := (buddy s)\<lparr>tree := (splitTree (tree (buddy s)) y)(y := NODE_USED),
      bused := add64 (bused (buddy s)) (2 ^ getExponent n)\<rparr>\<rparr>"
    and p: "p = (if block_off M y T \<ge> bsize (buddy s) then 0 else treeStart (buddy s) + block_off M y T)"
    using alloc 2(9) by (auto simp: M_def)
  have inv': "buddy_inv s'"
    unfolding s' by (rule buddy_alloc_tree_ok [OF inv 2(6,7)])
  note ub = used_block_alloc [OF inv 2(6,7,5,8) s', folded M_def]
  have M': "maxExp (buddy s') = M" by (simp add: s' M_def)
  have MT: "M - T = getExponent n"
    using getExponent_spec(1,2) [OF 2(2)] buddy_invD(2) [OF inv] by (simp add: 2(3) M_def)
  have free: "\<not> used_block s r y l" for r l using 2(7) by (auto simp: used_block_def Let_def)
  have keep: "buddy_extent s' q = buddy_extent s q" if "q \<in> buddy_live s"
  proof -
    from that obtain x l where x: "used_block s q x l" by (auto simp: buddy_live_def)
    then have x': "used_block s' q x l" using ub by blast
    show ?thesis
      using buddy_extent_block [OF inv x] buddy_extent_block [OF inv' x'] M' by (simp add: M_def)
  qed
  show ?thesis
  proof (cases "block_off M y T \<ge> bsize (buddy s)")
    case True
    then have "p = 0" using p by simp
    with True inv' keep ub show ?thesis by (auto simp: buddy_live_def)
  next
    case False
    then have pv: "p = treeStart (buddy s) + block_off M y T" "p \<noteq> 0"
      using p buddy_invD(5) [OF inv] by simp_all
    have new: "used_block s' p y T" using ub False pv by simp
    have "p \<notin> buddy_live s"
    proof
      assume "p \<in> buddy_live s"
      then obtain x l where x: "used_block s p x l" by (auto simp: buddy_live_def)
      then have "used_block s' p x l" using ub by simp
      from used_block_unique(1) [OF inv' this new] x free show False by simp
    qed
    moreover have "buddy_live s' = insert p (buddy_live s)"
      using ub False pv(1) by (auto simp: buddy_live_def)
    moreover have "{p ..< p + n} \<subseteq> buddy_extent s' p"
      using buddy_extent_block [OF inv' new] getExponent_spec(3) [OF 2(2)] M' MT by auto
    ultimately show ?thesis using inv' keep pv(2) by simp
  qed
qed

section \<open>The manager implements the interface\<close>

interpretation buddy_mm: memory_manager buddy_alloc buddy_free buddy_live buddy_extent buddy_inv
proof unfold_locales
  fix s s' :: buddy_state and p q n
  assume inv: "buddy_inv s"
  show "0 \<notin> buddy_live s"
    using buddy_invD(5) [OF inv] by (auto simp: buddy_live_def used_block_def Let_def)
  { assume alloc: "buddy_alloc n s = (p, s')"
    note facts = buddy_alloc_facts [OF inv alloc, of q]
    show "buddy_inv s'" using facts by blast
    show "p \<noteq> 0 \<Longrightarrow> p \<notin> buddy_live s" using facts by blast
    show "p \<noteq> 0 \<Longrightarrow> buddy_live s' = insert p (buddy_live s)" using facts by blast
    show "p \<noteq> 0 \<Longrightarrow> {p ..< p + n} \<subseteq> buddy_extent s' p" using facts by blast
    show "q \<in> buddy_live s \<Longrightarrow> buddy_extent s' q = buddy_extent s q" using facts by blast }
  { assume alloc: "buddy_alloc n s = (0, s')"
    show "buddy_live s' = buddy_live s" using buddy_alloc_facts [OF inv alloc] by simp }
  { assume pq: "p \<in> buddy_live s" "q \<in> buddy_live s" "p \<noteq> q"
    then obtain x lx y ly where x: "used_block s p x lx" and y: "used_block s q y ly"
      by (auto simp: buddy_live_def)
    with pq(3) have "x \<noteq> y" by (auto simp: used_block_def Let_def dest: at_level_unique)
    have "b \<notin> buddy_extent s q" if "b \<in> buddy_extent s p" for b
    proof
      assume "b \<in> buddy_extent s q"
      with that have b: "p \<le> b" "b < p + 2 ^ (maxExp (buddy s) - lx)" "q \<le> b"
          "b < q + 2 ^ (maxExp (buddy s) - ly)"
        using buddy_extent_block [OF inv x] buddy_extent_block [OF inv y] by auto
      show False
      proof (cases "lx \<le> ly")
        case True
        with overlapping_blocks [OF inv x y b] \<open>x \<noteq> y\<close> show False by simp
      next
        case False
        with overlapping_blocks [OF inv y x b(3,4,1,2)] \<open>x \<noteq> y\<close> show False by simp
      qed
    qed
    then show "buddy_extent s p \<inter> buddy_extent s q = {}" by blast }
  { assume "p \<in> buddy_live s"
    then obtain x l where x: "used_block s p x l" by (auto simp: buddy_live_def)
    note ub = used_block_free [OF inv x]
    show inv': "buddy_inv (buddy_free p s)" by (rule buddy_free_inv [OF inv x])
    have "n' = x" if "used_block s p n' l'" for n' l' using used_block_unique(1) [OF inv that x] .
    moreover have "q \<noteq> p \<Longrightarrow> used_block s q n' l' \<Longrightarrow> n' \<noteq> x" for q n' l'
      using x by (auto simp: used_block_def Let_def dest: at_level_unique)
    ultimately show "buddy_live (buddy_free p s) = buddy_live s - {p}"
      unfolding buddy_live_def ub by blast
    show "buddy_extent (buddy_free p s) q = buddy_extent s q" if q: "q \<in> buddy_live s" "q \<noteq> p"
    proof -
      from q(1) obtain y ly where y: "used_block s q y ly" by (auto simp: buddy_live_def)
      with q(2) x have "y \<noteq> x" by (auto simp: used_block_def Let_def dest: at_level_unique)
      with y have y': "used_block (buddy_free p s) q y ly" by (simp add: ub)
      have "maxExp (buddy (buddy_free p s)) = maxExp (buddy s)"
        by (simp add: buddy_free_block [OF inv x])
      then show ?thesis
        using buddy_extent_block [OF inv y] buddy_extent_block [OF inv' y'] by simp
    qed }
next
  show "buddy_free 0 s = s" for s by (simp add: buddy_free_def Let_def)
qed

section \<open>Properties\<close>

text \<open>A region of 256 KiB without allocations, for the witnesses.\<close>

definition small_buddy :: buddy_state where
  "small_buddy = \<lparr>buddyBaseAddress = 64,
     buddy = \<lparr>treeStart = 65536, tree = (\<lambda>_. NODE_FREE), bsize = 229376, bused = 0,
              maxExp = 18, totalNodes = 32767\<rparr>\<rparr>"

lemma tree_ok_all_free: "tree_ok (\<lambda>_. NODE_FREE) N"
  by (simp add: tree_ok_def states_ok_def leaves_free_def split_inner_def split_busy_def)

lemma small_buddy_inv: "buddy_inv small_buddy"
  by (simp add: buddy_inv_def small_buddy_def tree_ok_all_free)

lemma small_buddy_alloc:
  "buddy_alloc 131072 small_buddy =
    (65536, small_buddy\<lparr>buddy := (buddy small_buddy)\<lparr>
       tree := (\<lambda>_. NODE_FREE)(0 := NODE_SPLIT, 1 := NODE_USED), bused := 131072\<rparr>\<rparr>)"
  by (simp add: buddy_alloc_def small_buddy_def POW2_def sub64_def add64_def getExponent_def MIN_EXP_def
      getExponent_from.simps findFreeNode.simps splitTree.simps setSplitedChildren_def getNodeLevel_def Let_def)



text \<open>
  \<open>mm_alloc\<close> of the buddy manager fails only for a reason: the request
  is empty or larger than 128 KiB, the used-byte counter leaves too little, or every free node
  of the right size lies below a used block, or the first one starts behind the end of the
  region.
\<close>

theorem buddy_alloc_complete:
  assumes "buddy_inv s" and "fst (buddy_alloc sz s) = 0" and "0 < sz" and "sz \<le> 131072"
    and "sz \<le> sub64 (bsize (buddy s)) (bused (buddy s))"
    and "at_level y (maxExp (buddy s) - getExponent sz)" and "tree (buddy s) y = NODE_FREE"
    and "\<forall>a. ancestor a y \<longrightarrow> tree (buddy s) a \<noteq> NODE_USED"
  shows "\<exists>x. at_level x (maxExp (buddy s) - getExponent sz) \<and> tree (buddy s) x = NODE_FREE \<and>
    block_off (maxExp (buddy s)) x (maxExp (buddy s) - getExponent sz) \<ge> bsize (buddy s)"
proof -
  define m where "m = buddy s"
  define T where "T = maxExp m - getExponent sz"
  note inv = buddy_invD [OF assms(1), folded m_def]
  have small: "sz \<le> POW2 17" using assms(4) by (simp add: POW2_def)
  have e: "4 \<le> getExponent sz" "getExponent sz \<le> 17" using getExponent_spec(1,2) [OF small] .
  show ?thesis
  proof (cases rule: buddy_alloc_cases [OF assms(1), of sz])
    case (2 x T')
    with assms(2) inv(5) show ?thesis by (auto simp: m_def split: if_splits)
  next
    case 1
    have w: "word_of_nat (maxExp m) - word_of_nat (getExponent sz) = (word_of_nat T :: 8 word)"
      using e inv(2) by (simp add: T_def of_nat_diff)
    have none: "findFreeNode (tree m) 0 (word_of_nat 0) (word_of_nat T) = None"
    proof (rule ccontr)
      assume "findFreeNode (tree m) 0 (word_of_nat 0) (word_of_nat T) \<noteq> None"
      then obtain x where x: "findFreeNode (tree m) 0 0 (word_of_nat T) = Some x" by auto
      from findFreeNode_Some [of "tree m" 0 0 T x] x inv(3) have "at_level x T" "tree m x = NODE_FREE"
        by (simp_all add: at_level_def T_def)
      then have "x < totalNodes m" using at_level_total [OF assms(1), of x T] e inv(2)
        by (simp add: m_def T_def)
      then have "tree (buddy (snd (buddy_alloc sz s))) x = NODE_USED"
        using x small assms(3,5)
        by (auto simp: buddy_alloc_def Let_def m_def [symmetric] w setSplitedChildren_def)
      with 1 \<open>tree m x = NODE_FREE\<close> show False by (simp add: m_def)
    qed
    have y: "at_level y T" using assms(6) by (simp add: T_def m_def)
    have root: "(y + 1) div 2 ^ (T - 0) = 0 + 1"
      using y by (intro div_nat_eqI) (auto simp: at_level_def)
    have "T \<le> 60" and "at_level 0 0" and "tree m y = NODE_FREE"
      using inv(3) assms(7) by (simp_all add: T_def at_level_def m_def)
    from findFreeNode_None [OF none _ this(1,2) root this(3)]
    obtain k where k: "0 < k" "k \<le> T" "tree m ((y + 1) div 2 ^ k - 1) \<noteq> NODE_SPLIT"
        "tree m ((y + 1) div 2 ^ k - 1) \<noteq> NODE_FREE"
      by auto
    have "(2 :: nat) ^ k \<le> 2 ^ T" using k(2) by (intro power_increasing) simp_all
    then have "2 ^ k \<le> y + 1" using y unfolding at_level_def by linarith
    then have "0 < (y + 1) div 2 ^ k" by (simp add: div_greater_zero_iff)
    then have anc: "ancestor ((y + 1) div 2 ^ k - 1) y"
      unfolding ancestor_def using k(1) by (intro exI [of _ k]) simp
    have "y < totalNodes m" using at_level_total [OF assms(1) y [unfolded T_def m_def]] e inv(2)
      by (simp add: m_def)
    with ancestor_less [OF anc] have "(y + 1) div 2 ^ k - 1 < totalNodes m" by simp
    with inv(8) k(3,4) have "tree m ((y + 1) div 2 ^ k - 1) = NODE_USED"
      by (auto simp: tree_ok_def states_ok_def)
    with assms(8) anc show ?thesis by (simp add: m_def)
  qed
qed

definition full_buddy :: buddy_state where
  "full_buddy = small_buddy\<lparr>buddy := (buddy small_buddy)\<lparr>
     tree := (splitTree (\<lambda>_. NODE_FREE) 1)(1 := NODE_USED), bsize := 131072\<rparr>\<rparr>"

lemma full_buddy_inv: "buddy_inv full_buddy"
proof -
  have "tree_ok ((splitTree (\<lambda>_. NODE_FREE) 1)(1 := NODE_USED)) 32767"
    by (rule tree_ok_alloc) (simp_all add: tree_ok_all_free)
  then show ?thesis
    by (simp add: buddy_inv_def full_buddy_def small_buddy_def Let_def)
qed

lemma getExponent_70000: "getExponent 70000 = 17"
  by (simp add: getExponent_def MIN_EXP_def POW2_def getExponent_from.simps)

theorem buddy_alloc_complete_witness:
  "fst (buddy_alloc 70000 full_buddy) = 0 \<and>
   (\<exists>x. at_level x 1 \<and> tree (buddy full_buddy) x = NODE_FREE \<and> block_off 18 x 1 \<ge> 131072)"
proof -
  have null: "fst (buddy_alloc 70000 full_buddy) = 0"
    by (simp add: buddy_alloc_def full_buddy_def small_buddy_def POW2_def sub64_def getExponent_70000
        findFreeNode.simps splitTree.simps setSplitedChildren_def getNodeLevel_def Let_def)
  have y: "at_level 2 (maxExp (buddy full_buddy) - getExponent 70000)"
      "tree (buddy full_buddy) 2 = NODE_FREE"
    by (simp_all add: at_level_def full_buddy_def small_buddy_def getExponent_70000 splitTree.simps)
  have "a = 0" if "ancestor a 2" for a
    using that ancestor_parent [of 2 a] by simp
  then have anc: "\<forall>a. ancestor a 2 \<longrightarrow> tree (buddy full_buddy) a \<noteq> NODE_USED"
    by (auto simp: full_buddy_def splitTree.simps)
  have room: "70000 \<le> sub64 (bsize (buddy full_buddy)) (bused (buddy full_buddy))"
    by (simp add: full_buddy_def small_buddy_def sub64_def)
  from buddy_alloc_complete [OF full_buddy_inv null _ _ room y anc] null show ?thesis
    by (simp add: full_buddy_def small_buddy_def getExponent_70000)
qed

lemma buddy_alloc_then_free:
  assumes "buddy_inv s" and "buddy_alloc sz s = (p, s')" and "p \<noteq> 0"
    and "getExponent sz < maxExp (buddy s)" and "bused (buddy s) + 2 ^ 17 < 2 ^ 64"
  shows "buddy_free p s' =
    s\<lparr>buddy := (buddy s)\<lparr>bused := bused (buddy s) + 2 ^ (getExponent sz - 1)\<rparr>\<rparr>"
proof (cases rule: buddy_alloc_cases [OF assms(1), of sz])
  case 1
  with assms show ?thesis by simp
next
  case (2 y T)
  note e = getExponent_spec(1,2) [OF 2(2)]
  have MT: "maxExp (buddy s) - T = getExponent sz"
    using e buddy_invD(2) [OF assms(1)] by (simp add: 2(3))
  have s': "s' = s\<lparr>buddy := (buddy s)\<lparr>tree := (splitTree (tree (buddy s)) y)(y := NODE_USED),
      bused := add64 (bused (buddy s)) (2 ^ getExponent sz)\<rparr>\<rparr>"
    and p: "p = treeStart (buddy s) + block_off (maxExp (buddy s)) y T"
      "block_off (maxExp (buddy s)) y T < bsize (buddy s)"
    using assms(2,3) 2(9) by (auto split: if_splits)
  let ?t = "(splitTree (tree (buddy s)) y)(y := NODE_USED)"
  let ?N = "totalNodes (buddy s)"
  have inv': "buddy_inv s'" using buddy_mm.alloc_inv [OF assms(1,2)] .
  have blk: "used_block s' p y T" using used_block_alloc [OF assms(1) 2(6,7,5,8) s'] p by blast
  have ok': "tree_ok ?t ?N" using buddy_invD(8) [OF inv'] by (simp add: s')
  have "T \<noteq> 0" using assms(4) by (simp add: 2(3))
  moreover have "at_level 0 0" by (simp add: at_level_def)
  ultimately have y0: "y \<noteq> 0" using at_level_unique [of 0 0 T] 2(5) by (cases y) simp_all
  have "(2 :: nat) ^ getExponent sz \<le> 2 ^ 17" using e by (intro power_increasing) simp_all
  then have used: "add64 (bused (buddy s)) (2 ^ getExponent sz) = bused (buddy s) + 2 ^ getExponent sz"
    using assms(5) by (intro add64_small) linarith
  have half: "(2 :: nat) ^ getExponent sz = 2 * 2 ^ (getExponent sz - 1)"
    using e by (cases "getExponent sz") simp_all
  have le: "(2 :: nat) ^ (getExponent sz - 1) \<le> bused (buddy s) + 2 ^ getExponent sz"
    unfolding half by simp
  have sub: "sub64 (bused (buddy s) + 2 ^ getExponent sz) (2 ^ (getExponent sz - 1)) =
      bused (buddy s) + 2 ^ (getExponent sz - 1)"
    using sub64_small [OF le] assms(5) \<open>2 ^ getExponent sz \<le> 2 ^ 17\<close> half by linarith
  have tree: "setMerge ?N (?t(y := NODE_FREE)) y = tree (buddy s)"
  proof
    fix x
    note free = tree_ok_free [OF ok' buddy_invD(9) [OF assms(1)] 2(6)]
    show "setMerge ?N (?t(y := NODE_FREE)) y x = tree (buddy s) x"
    proof (cases "x < ?N")
      case True
      have "(setMerge ?N (?t(y := NODE_FREE)) y z = NODE_USED) = (tree (buddy s) z = NODE_USED)" for z
        using free(2) [of z] 2(7) 2(8) [of z] by (auto simp: splitTree_eq)
      then show ?thesis
        using tree_ok_unique [OF free(1) buddy_invD(8) [OF assms(1)] _ True] by simp
    next
      case False
      then show ?thesis using free(3) [of x] 2(6) ancestor_less [of x y] by (auto simp: splitTree_eq)
    qed
  qed
  have "freed_exponent s' y T = getExponent sz - 1"
    using y0 MT s' by (simp add: freed_exponent_def)
  moreover have "tree (buddy s') = ?t" "totalNodes (buddy s') = ?N"
      "bused (buddy s') = bused (buddy s) + 2 ^ getExponent sz"
    by (simp_all add: s' used)
  ultimately have "buddy_free p s' = s'\<lparr>buddy := (buddy s')\<lparr>tree := tree (buddy s),
      bused := bused (buddy s) + 2 ^ (getExponent sz - 1)\<rparr>\<rparr>"
    using buddy_free_block [OF inv' blk] by (simp only: tree sub)
  then show ?thesis by (cases "buddy s") (simp add: s')
qed

text \<open>
  Freeing a block right after its allocation restores the tree exactly,
  but not the used-byte counter: \<open>getNodeIndex\<close> decrements its exponent once more after it has
  reached the block's node, so \<open>mm_free\<close> subtracts only half of the block's size and every
  allocate/free pair leaves half a block counted as used.
\<close>

theorem buddy_free_accounting:
  assumes "buddy_inv s" and "buddy_alloc sz s = (p, s')" and "p \<noteq> 0"
    and "getExponent sz < maxExp (buddy s)" and "bused (buddy s) + 2 ^ 17 < 2 ^ 64"
  shows "buddy_free p s' =
    s\<lparr>buddy := (buddy s)\<lparr>bused := bused (buddy s) + 2 ^ (getExponent sz - 1)\<rparr>\<rparr>"
  by (rule buddy_alloc_then_free [OF assms])

theorem buddy_free_accounting_witness:
  "bused (buddy (buddy_free 65536 (snd (buddy_alloc 131072 small_buddy)))) = 65536"
proof -
  have e: "getExponent 131072 = 17"
    by (simp add: getExponent_def MIN_EXP_def POW2_def getExponent_from.simps)
  show ?thesis
    using buddy_free_accounting [OF small_buddy_inv small_buddy_alloc]
    by (simp add: small_buddy_alloc e) (simp add: small_buddy_def)
qed

definition alloc_free_cycle :: "nat \<Rightarrow> buddy_state \<Rightarrow> buddy_state" where
  "alloc_free_cycle sz s = (let (p, s') = buddy_alloc sz s in buddy_free p s')"

lemma getExponent_4096: "getExponent 4096 = 12"
  by (simp add: getExponent_def MIN_EXP_def POW2_def getExponent_from.simps)

lemma buddy_counter_irrelevant:
  "buddy_inv s \<Longrightarrow> u < 2 ^ 64 \<Longrightarrow> buddy_inv (s\<lparr>buddy := (buddy s)\<lparr>bused := u\<rparr>\<rparr>)"
  by (auto simp: buddy_inv_def Let_def)



text \<open>
  \<open>mm_create\<close> on the kernel's 256 MiB heap succeeds with exponent 28, an
  all-free tree of 2^25 - 1 nodes, no live block and the manager's invariant.
\<close>

theorem buddy_create_ok:
  assumes "0 < start" and "start + 2 ^ 30 < 2 ^ 64" and "buddy_create start HEAP_SIZE s = (r, s')"
  shows "r = start \<and> buddy_inv s' \<and> buddy_live s' = {} \<and> maxExp (buddy s') = 28 \<and>
    totalNodes (buddy s') = 2 ^ 25 - 1 \<and> bused (buddy s') = 0 \<and>
    treeStart (buddy s') + bsize (buddy s') = start + HEAP_SIZE"
proof -
  have e: "compute_max_exp HEAP_SIZE MIN_EXP = 28"
    by (simp add: HEAP_SIZE_def MIN_EXP_def MAX_EXP_def POW2_def compute_max_exp.simps)
  have s': "r = start" "buddyBaseAddress s' = start"
      "buddy s' = \<lparr>treeStart = start + 48 + (2 ^ 25 - 1), tree = fill_range (tree (buddy s)) 0 (2 ^ 25 - 1) NODE_FREE,
        bsize = HEAP_SIZE - (48 + (2 ^ 25 - 1)), bused = 0, maxExp = 28, totalNodes = 2 ^ 25 - 1\<rparr>"
    using assms(3) unfolding buddy_create_def Let_def e POW2_def
    by (auto simp: HEAP_SIZE_def MIN_EXP_def sizeof_buddy_manager_def)
  have free: "tree (buddy s') n = NODE_FREE" if "n < 2 ^ 25 - 1" for n
    using that by (simp add: s' fill_range_apply)
  have "tree_ok (tree (buddy s')) (2 ^ 25 - 1)"
    using free unfolding tree_ok_def states_ok_def leaves_free_def split_inner_def split_busy_def by force
  then have "buddy_inv s'"
    using assms(1,2) by (simp add: buddy_inv_def Let_def s' HEAP_SIZE_def)
  moreover have "buddy_live s' = {}"
    using free by (auto simp: buddy_live_def used_block_def Let_def s')
  ultimately show ?thesis by (simp add: s' HEAP_SIZE_def)
qed

theorem buddy_create_ok_witness:
  "buddy_live (snd (buddy_create 6291456 HEAP_SIZE small_buddy)) = {}"
  using buddy_create_ok [of 6291456 small_buddy "fst (buddy_create 6291456 HEAP_SIZE small_buddy)"
      "snd (buddy_create 6291456 HEAP_SIZE small_buddy)"] by simp

end
