(* ===== verification/Memory_Manager.thy ===== *)
theory Memory_Manager
  imports Bitmap Buddy
begin

text \<open>
  The memory manager the kernel is built with: \<open>Kernel/Makefile\<close> compiles either
  \<open>bitmap.c\<close> (the default) or \<open>buddy.c\<close> behind the names \<open>mm_alloc\<close>, \<open>mm_free\<close> and
  \<open>mm_info\<close>. The components that allocate are modelled over this type, so what is proved
  of them holds for both kernels; they use the laws of the locale \<open>memory_manager\<close> only,
  through the interpretation \<open>mm\<close> below.
\<close>

datatype mm_state =
  BitmapMM bitmap_state
| BuddyMM buddy_state

fun mm_create :: "addr \<Rightarrow> nat \<Rightarrow> mm_state \<Rightarrow> addr \<times> mm_state" where
  "mm_create start sz (BitmapMM s) = (let (p, s') = bitmap_create start sz s in (p, BitmapMM s'))"
| "mm_create start sz (BuddyMM s) = (let (p, s') = buddy_create start sz s in (p, BuddyMM s'))"

fun mm_alloc :: "nat \<Rightarrow> mm_state \<Rightarrow> addr \<times> mm_state" where
  "mm_alloc n (BitmapMM s) = (let (p, s') = bitmap_alloc n s in (p, BitmapMM s'))"
| "mm_alloc n (BuddyMM s) = (let (p, s') = buddy_alloc n s in (p, BuddyMM s'))"

fun mm_free :: "addr \<Rightarrow> mm_state \<Rightarrow> mm_state" where
  "mm_free p (BitmapMM s) = BitmapMM (bitmap_free p s)"
| "mm_free p (BuddyMM s) = BuddyMM (buddy_free p s)"

fun mm_info :: "mm_state \<Rightarrow> mem_t" where
  "mm_info (BitmapMM s) = bitmap_info s"
| "mm_info (BuddyMM s) = buddy_info s"

fun mm_live :: "mm_state \<Rightarrow> addr set" where
  "mm_live (BitmapMM s) = bitmap_live s"
| "mm_live (BuddyMM s) = buddy_live s"

fun mm_extent :: "mm_state \<Rightarrow> addr \<Rightarrow> addr set" where
  "mm_extent (BitmapMM s) = bitmap_extent s"
| "mm_extent (BuddyMM s) = buddy_extent s"

fun mm_inv :: "mm_state \<Rightarrow> bool" where
  "mm_inv (BitmapMM s) = bitmap_inv s"
| "mm_inv (BuddyMM s) = buddy_inv s"

fun_cases mm_allocE: "mm_alloc n m = (p, m')"

interpretation mm: memory_manager mm_alloc mm_free mm_live mm_extent mm_inv
proof unfold_locales
  fix m m' :: mm_state and n p q
  show "mm_inv m \<Longrightarrow> 0 \<notin> mm_live m"
    by (cases m) (auto dest: bitmap_mm.null_not_live buddy_mm.null_not_live)
  show "mm_inv m \<Longrightarrow> p \<in> mm_live m \<Longrightarrow> q \<in> mm_live m \<Longrightarrow> p \<noteq> q \<Longrightarrow>
      mm_extent m p \<inter> mm_extent m q = {}"
    by (cases m) (simp_all add: bitmap_mm.extents_disjoint buddy_mm.extents_disjoint)
  show "mm_inv m \<Longrightarrow> p \<in> mm_live m \<Longrightarrow> mm_inv (mm_free p m)"
    by (cases m) (simp_all add: bitmap_mm.free_inv buddy_mm.free_inv)
  show "mm_inv m \<Longrightarrow> p \<in> mm_live m \<Longrightarrow> mm_live (mm_free p m) = mm_live m - {p}"
    by (cases m) (simp_all add: bitmap_mm.free_live buddy_mm.free_live)
  show "mm_inv m \<Longrightarrow> p \<in> mm_live m \<Longrightarrow> q \<in> mm_live m \<Longrightarrow> q \<noteq> p \<Longrightarrow>
      mm_extent (mm_free p m) q = mm_extent m q"
    by (cases m) (simp_all add: bitmap_mm.free_frame buddy_mm.free_frame)
  show "mm_free 0 m = m"
    by (cases m) (simp_all add: bitmap_mm.free_null buddy_mm.free_null)
  assume inv: "mm_inv m"
  show "mm_inv m'" if "mm_alloc n m = (p, m')"
    using that inv
    by (auto elim!: mm_allocE split: prod.splits dest: bitmap_mm.alloc_inv buddy_mm.alloc_inv)
  show "mm_live m' = mm_live m" if "mm_alloc n m = (0, m')"
    using that inv
    by (elim mm_allocE; simp split: prod.splits)
      (use bitmap_mm.alloc_null buddy_mm.alloc_null in blast)+
  assume alloc: "mm_alloc n m = (p, m')"
  show "mm_extent m' q = mm_extent m q" if "q \<in> mm_live m"
    using that inv alloc
    by (elim mm_allocE; simp split: prod.splits)
      (use bitmap_mm.alloc_frame buddy_mm.alloc_frame in blast)+
  assume nonnull: "p \<noteq> 0"
  show "p \<notin> mm_live m"
    using inv alloc nonnull
    by (elim mm_allocE; simp split: prod.splits)
      (use bitmap_mm.alloc_fresh buddy_mm.alloc_fresh in blast)+
  show "mm_live m' = insert p (mm_live m)"
    using inv alloc nonnull
    by (elim mm_allocE; simp split: prod.splits)
      (use bitmap_mm.alloc_live buddy_mm.alloc_live in blast)+
  show "{p ..< p + n} \<subseteq> mm_extent m' p"
    using inv alloc nonnull
    by (elim mm_allocE; simp split: prod.splits)
      (use bitmap_mm.alloc_block buddy_mm.alloc_block in blast)+
qed

section \<open>Ownership\<close>

text \<open>\<open>owns m0 m B\<close>: the manager went from \<open>m0\<close> to \<open>m\<close>, and what is live now is what was live
  then and, disjoint from it, the blocks \<open>B\<close>. Operations that allocate several blocks and free
  them again on their error paths are followed with these rules.\<close>

definition owns :: "mm_state \<Rightarrow> mm_state \<Rightarrow> addr set \<Rightarrow> bool" where
  "owns m0 m B = (mm_inv m \<and> B \<inter> mm_live m0 = {} \<and> mm_live m = mm_live m0 \<union> B)"

lemma owns_refl: "mm_inv m \<Longrightarrow> owns m m {}"
  by (simp add: owns_def)

lemma owns_inv: "owns m0 m B \<Longrightarrow> mm_inv m"
  by (simp add: owns_def)

lemma owns_alloc_null: "owns m0 m B \<Longrightarrow> mm_alloc n m = (0, m') \<Longrightarrow> owns m0 m' B"
  using mm.alloc_inv [of m n 0 m'] mm.alloc_null [of m n m'] by (simp add: owns_def)

lemma owns_alloc:
  "owns m0 m B \<Longrightarrow> mm_alloc n m = (p, m') \<Longrightarrow> p \<noteq> 0 \<Longrightarrow> owns m0 m' (insert p B) \<and> p \<notin> B \<and> p \<notin> mm_live m0"
  using mm.alloc_inv [of m n p m'] mm.alloc_live [of m n p m'] mm.alloc_fresh [of m n p m']
  by (auto simp: owns_def)

lemma owns_free: "owns m0 m B \<Longrightarrow> p \<in> B \<Longrightarrow> owns m0 (mm_free p m) (B - {p})"
  using mm.free_inv [of m p] mm.free_live [of m p] by (auto simp: owns_def)

lemma owns_free_all:
  "owns m0 m B \<Longrightarrow> distinct ps \<Longrightarrow> set ps \<subseteq> B \<Longrightarrow> owns m0 (fold mm_free ps m) (B - set ps)"
proof (induction ps arbitrary: m B)
  case (Cons p ps)
  then have "owns m0 (mm_free p m) (B - {p})" by (intro owns_free) simp_all
  from Cons(1) [OF this] Cons(3,4) show ?case
    by (simp add: Diff_insert2 [symmetric] subset_Diff_insert)
qed simp

lemma owns_trans: "owns m0 m1 A \<Longrightarrow> owns m1 m2 B \<Longrightarrow> owns m0 m2 (A \<union> B) \<and> A \<inter> B = {}"
  by (auto simp: owns_def)

lemma owns_null: "owns m0 m B \<Longrightarrow> mm_inv m0 \<Longrightarrow> 0 \<notin> B"
  using mm.null_not_live [of m] by (auto simp: owns_def)

end
