(* ===== verification/Lib.thy ===== *)
theory Lib
  imports Prelude "HOL-Library.Word"
begin

text \<open>
  The C library functions the kernel and the userland carry: \<open>Kernel/lib.c\<close>, and in
  \<open>Userland/SampleCodeModule\<close> \<open>string.c\<close>, \<open>stdlib.c\<close> and \<open>tests/test_util.c\<close>. They work on
  memory, a function from addresses to bytes; a \<open>char\<close> is signed, its value is \<open>sint\<close> of the
  byte. A scan that depends on a terminator is a \<open>partial_function\<close>: \<open>None\<close> is the scan that
  never ends. \<open>is_str m p xs\<close> says that at \<open>p\<close> memory holds the C string \<open>xs\<close>.
\<close>

type_synonym byte = "8 word"
type_synonym bytes = "addr \<Rightarrow> byte"

section \<open>The kernel's library\<close>

partial_function (option) strcmp :: "bytes \<Rightarrow> addr \<Rightarrow> addr \<Rightarrow> int option" where
  "strcmp m s1 s2 =
     (if m s1 \<noteq> 0 \<and> m s1 = m s2 then strcmp m (s1 + 1) (s2 + 1)
      else Some (sint (m s1) - sint (m s2)))"

partial_function (option) strcpychar_from ::
    "bytes \<Rightarrow> addr \<Rightarrow> addr \<Rightarrow> byte \<Rightarrow> nat \<Rightarrow> (bytes \<times> nat) option" where
  "strcpychar_from m dest origin limit idx =
     (if m (origin + idx) \<noteq> limit \<and> m (origin + idx) \<noteq> 0
      then strcpychar_from (m(dest + idx := m (origin + idx))) dest origin limit (idx + 1)
      else Some (m(dest + idx := 0), idx))"

definition strcpychar :: "bytes \<Rightarrow> addr \<Rightarrow> addr \<Rightarrow> byte \<Rightarrow> (bytes \<times> nat) option" where
  "strcpychar m dest origin limit = strcpychar_from m dest origin limit 0"

definition my_strcpy :: "bytes \<Rightarrow> addr \<Rightarrow> addr \<Rightarrow> (bytes \<times> nat) option" where
  "my_strcpy m dest origin = strcpychar m dest origin 0"

partial_function (option) my_strlen_from :: "bytes \<Rightarrow> addr \<Rightarrow> nat \<Rightarrow> nat option" where
  "my_strlen_from m str idx =
     (if m (str + idx) \<noteq> 0 then my_strlen_from m str (idx + 1) else Some idx)"

definition my_strlen :: "bytes \<Rightarrow> addr \<Rightarrow> nat option" where
  "my_strlen m str = my_strlen_from m str 0"

primrec memset_down :: "bytes \<Rightarrow> addr \<Rightarrow> byte \<Rightarrow> nat \<Rightarrow> bytes" where
  "memset_down m dst chr 0 = m"
| "memset_down m dst chr (Suc n) = memset_down (m(dst + n := chr)) dst chr n"

definition memset :: "bytes \<Rightarrow> addr \<Rightarrow> 32 word \<Rightarrow> nat \<Rightarrow> bytes" where
  "memset m destination c len = memset_down m destination (ucast c) len"

definition read32 :: "bytes \<Rightarrow> addr \<Rightarrow> 32 word" where
  "read32 m a = or (ucast (m a)) (or (push_bit 8 (ucast (m (a + 1))))
     (or (push_bit 16 (ucast (m (a + 2)))) (push_bit 24 (ucast (m (a + 3))))))"

definition write32 :: "bytes \<Rightarrow> addr \<Rightarrow> 32 word \<Rightarrow> bytes" where
  "write32 m a w = m(a := ucast w, a + 1 := ucast (drop_bit 8 w), a + 2 := ucast (drop_bit 16 w),
     a + 3 := ucast (drop_bit 24 w))"

text \<open>The two loops of \<open>memcpy\<close>: \<open>n\<close> items are left, \<open>i\<close> are done.\<close>

primrec copy_words :: "nat \<Rightarrow> bytes \<Rightarrow> addr \<Rightarrow> addr \<Rightarrow> nat \<Rightarrow> bytes" where
  "copy_words 0 m d s i = m"
| "copy_words (Suc n) m d s i = copy_words n (write32 m (d + 4 * i) (read32 m (s + 4 * i))) d s (i + 1)"

primrec copy_bytes :: "nat \<Rightarrow> bytes \<Rightarrow> addr \<Rightarrow> addr \<Rightarrow> nat \<Rightarrow> bytes" where
  "copy_bytes 0 m d s i = m"
| "copy_bytes (Suc n) m d s i = copy_bytes n (m(d + i := m (s + i))) d s (i + 1)"

definition memcpy :: "bytes \<Rightarrow> addr \<Rightarrow> addr \<Rightarrow> nat \<Rightarrow> bytes" where
  "memcpy m destination source len =
     (if destination mod 4 = 0 \<and> source mod 4 = 0 \<and> len mod 4 = 0
      then copy_words (len div 4) m destination source 0
      else copy_bytes len m destination source 0)"

text \<open>\<open>n /= base\<close> traps for base 0 (\<open>None\<close>) and never becomes 0 for base 1.\<close>

partial_function (option) log_from :: "nat \<Rightarrow> nat \<Rightarrow> nat \<Rightarrow> nat option" where
  "log_from n base count =
     (if base = 0 then None
      else let n' = n div base in if n' \<noteq> 0 then log_from n' base (count + 1) else Some count)"

definition int_log :: "nat \<Rightarrow> nat \<Rightarrow> nat option" where
  "int_log n base = log_from n base 1"

definition digit_char :: "nat \<Rightarrow> byte" where
  "digit_char r = (if r > 9 then word_of_nat (r - 10) + 65 else word_of_nat r + 48)"

text \<open>The index \<open>len - i++ - 1\<close> is \<open>unsigned int\<close> arithmetic.\<close>

partial_function (option) itoa_fill ::
    "bytes \<Rightarrow> addr \<Rightarrow> nat \<Rightarrow> nat \<Rightarrow> nat \<Rightarrow> nat \<Rightarrow> (bytes \<times> nat) option" where
  "itoa_fill m buffer base len n i =
     (if n = 0 then Some (m, i)
      else if base = 0 then None
      else
        let r = n mod base
        in itoa_fill (m(buffer + nat ((int len - int i - 1) mod 2 ^ 32) := digit_char r))
             buffer base len (n div base) (i + 1))"

definition itoa :: "bytes \<Rightarrow> nat \<Rightarrow> addr \<Rightarrow> nat \<Rightarrow> (bytes \<times> nat) option" where
  "itoa m n buffer base =
     (if n = 0 then Some (m(buffer := 48, buffer + 1 := 0), 1)
      else do {
        len \<leftarrow> int_log n base;
        (m, i) \<leftarrow> itoa_fill m buffer base len n 0;
        Some (m(buffer + i := 0), len)
      })"

definition isNumber :: "byte \<Rightarrow> bool" where
  "isNumber n = (48 \<le> sint n \<and> sint n \<le> 57)"

partial_function (option) strtoi_from :: "bytes \<Rightarrow> addr \<Rightarrow> 32 word \<Rightarrow> (32 word \<times> addr) option" where
  "strtoi_from m s num =
     (if isNumber (m s) then strtoi_from m (s + 1) (num * 10 + scast (m s) - 48)
      else Some (num, s))"

text \<open>\<open>strtoi(s, &end)\<close>: the value and the end of the digits.\<close>

definition strtoi :: "bytes \<Rightarrow> addr \<Rightarrow> (int \<times> addr) option" where
  "strtoi m s = map_option (\<lambda>(num, e). (sint num, e)) (strtoi_from m s 0)"

section \<open>The userland's library\<close>

text \<open>\<open>string.c\<close> and \<open>stdlib.c\<close> repeat some of the kernel's functions word for word.\<close>

definition user_strcmp :: "bytes \<Rightarrow> addr \<Rightarrow> addr \<Rightarrow> int option" where
  "user_strcmp = strcmp"

definition user_strcpychar :: "bytes \<Rightarrow> addr \<Rightarrow> addr \<Rightarrow> byte \<Rightarrow> (bytes \<times> nat) option" where
  "user_strcpychar = strcpychar"

definition user_strcpy :: "bytes \<Rightarrow> addr \<Rightarrow> addr \<Rightarrow> (bytes \<times> nat) option" where
  "user_strcpy m dest origin = user_strcpychar m dest origin 0"

definition user_strlen :: "bytes \<Rightarrow> addr \<Rightarrow> nat option" where
  "user_strlen m s = (if s = 0 then Some 0 else my_strlen_from m s 0)"

partial_function (option) find_char_from :: "bytes \<Rightarrow> addr \<Rightarrow> byte \<Rightarrow> addr option" where
  "find_char_from m s c =
     (if m s \<noteq> 0 then if m s = c then Some s else find_char_from m (s + 1) c else Some 0)"

definition find_char :: "bytes \<Rightarrow> addr \<Rightarrow> byte \<Rightarrow> addr option" where
  "find_char m s c = (if s = 0 then Some 0 else find_char_from m s c)"

text \<open>\<open>list\<close> is an array of \<open>list_len\<close> pointers, read through \<open>lst\<close>.\<close>

function str_in_list_from :: "bytes \<Rightarrow> addr \<Rightarrow> (nat \<Rightarrow> addr) \<Rightarrow> nat \<Rightarrow> nat \<Rightarrow> int option" where
  "str_in_list_from m needle lst list_len i =
     (if i < list_len then
        if lst i \<noteq> 0 then do {
          r \<leftarrow> user_strcmp m needle (lst i);
          if r = 0 then Some (int i) else str_in_list_from m needle lst list_len (i + 1)
        }
        else str_in_list_from m needle lst list_len (i + 1)
      else Some (- 1))"
  by pat_completeness auto
termination
  by (relation "measure (\<lambda>(m, needle, lst, list_len, i). list_len - i)") auto

definition str_in_list :: "bytes \<Rightarrow> addr \<Rightarrow> (nat \<Rightarrow> addr) option \<Rightarrow> int \<Rightarrow> int option" where
  "str_in_list m needle lst list_len =
     (case lst of
        None \<Rightarrow> Some 0
      | Some l \<Rightarrow> if needle = 0 \<or> list_len \<le> 0 then Some 0
                 else str_in_list_from m needle l (nat list_len) 0)"

partial_function (option) skip_blanks :: "bytes \<Rightarrow> addr \<Rightarrow> nat \<Rightarrow> nat option" where
  "skip_blanks m str i = (if m (str + i) = 32 \<or> m (str + i) = 9 then skip_blanks m str (i + 1) else Some i)"

partial_function (option) read_digits ::
    "bytes \<Rightarrow> addr \<Rightarrow> nat \<Rightarrow> 32 word \<Rightarrow> bool \<Rightarrow> (nat \<times> 32 word \<times> bool) option" where
  "read_digits m str i result hasDigit =
     (if isNumber (m (str + i))
      then read_digits m str (i + 1) (result * 10 + (scast (m (str + i)) - 48)) True
      else Some (i, result, hasDigit))"

definition str_to_uint32 :: "bytes \<Rightarrow> addr \<Rightarrow> (32 word) option" where
  "str_to_uint32 m str = do {
     i \<leftarrow> skip_blanks m str 0;
     (i, result, hasDigit) \<leftarrow> read_digits m str i 0 False;
     i \<leftarrow> skip_blanks m str i;
     Some (if \<not> hasDigit \<or> m (str + i) \<noteq> 0 then - 1 else result)
   }"

definition user_itoa :: "bytes \<Rightarrow> nat \<Rightarrow> addr \<Rightarrow> nat \<Rightarrow> (bytes \<times> nat) option" where
  "user_itoa = itoa"

definition atoi :: "bytes \<Rightarrow> addr \<Rightarrow> int option" where
  "atoi m s = map_option (\<lambda>(num, e). sint num) (strtoi_from m s 0)"

text \<open>\<open>strtoi\<close> and \<open>strtoh\<close> write the end pointer through \<open>end\<close> whatever it is: the eight bytes at address 0 when it
  is NULL. A caller that passes the address of a local uses \<open>strtoi\<close> above.\<close>

definition write_ptr :: "bytes \<Rightarrow> addr \<Rightarrow> addr \<Rightarrow> bytes" where
  "write_ptr m a p = write32 (write32 m a (word_of_nat p)) (a + 4) (word_of_nat (p div 2 ^ 32))"

definition user_strtoi :: "bytes \<Rightarrow> addr \<Rightarrow> addr \<Rightarrow> (int \<times> bytes) option" where
  "user_strtoi m s end_ptr = (do { (num, e) \<leftarrow> strtoi_from m s 0; Some (sint num, write_ptr m end_ptr e) })"

definition toLower :: "byte \<Rightarrow> byte" where
  "toLower n = (if 65 \<le> sint n \<and> sint n \<le> 90 then n - (65 - 97) else n)"

definition isHex :: "byte \<Rightarrow> bool" where
  "isHex n = (97 \<le> sint n \<and> sint n \<le> 102)"

partial_function (option) strtoh_from :: "bytes \<Rightarrow> addr \<Rightarrow> 32 word \<Rightarrow> (32 word \<times> addr) option" where
  "strtoh_from m s num =
     (if isNumber (m s) \<or> isHex (m s) then
        let aux = toLower (m s)
        in strtoh_from m (s + 1)
             (num * 16 + of_bool (isNumber aux) * (scast aux - 48) + of_bool (isHex aux) * (scast aux - 97 + 10))
      else Some (num, s))"

definition strtoh :: "bytes \<Rightarrow> addr \<Rightarrow> addr \<Rightarrow> (int \<times> bytes) option" where
  "strtoh m s end_ptr = (do { (num, e) \<leftarrow> strtoh_from m s 0; Some (sint num, write_ptr m end_ptr e) })"

section \<open>The test utilities\<close>

record rng =
  m_z :: "32 word"
  m_w :: "32 word"

definition rng_init :: rng where
  "rng_init = \<lparr>m_z = 362436069, m_w = 521288629\<rparr>"

definition getUint :: "rng \<Rightarrow> 32 word \<times> rng" where
  "getUint g =
     (let z = 36969 * (and (m_z g) 65535) + drop_bit 16 (m_z g);
          w = 18000 * (and (m_w g) 65535) + drop_bit 16 (m_w g)
      in (push_bit 16 z + w, \<lparr>m_z = z, m_w = w\<rparr>))"

primrec memcheck_from :: "nat \<Rightarrow> bytes \<Rightarrow> addr \<Rightarrow> byte \<Rightarrow> bool" where
  "memcheck_from 0 m p v = True"
| "memcheck_from (Suc n) m p v = (if m p \<noteq> v then False else memcheck_from n m (p + 1) v)"

definition memcheck :: "bytes \<Rightarrow> addr \<Rightarrow> byte \<Rightarrow> nat \<Rightarrow> bool" where
  "memcheck m start value len = memcheck_from len m start value"

partial_function (option) satoi_from :: "bytes \<Rightarrow> addr \<Rightarrow> nat \<Rightarrow> 64 word \<Rightarrow> (64 word) option option" where
  "satoi_from m str i res =
     (if m (str + i) \<noteq> 0 then
        if sint (m (str + i)) < 48 \<or> sint (m (str + i)) > 57 then Some None
        else satoi_from m str (i + 1) (res * 10 + scast (m (str + i)) - 48)
      else Some (Some res))"

definition satoi :: "bytes \<Rightarrow> addr \<Rightarrow> int option" where
  "satoi m str =
     (if str = 0 then Some 0
      else
        let (i, sign) = (if m str = 45 then (1, - 1) else (0, 1)) in
        map_option (\<lambda>r. case r of None \<Rightarrow> 0 | Some res \<Rightarrow> sint (res * sign)) (satoi_from m str i 0))"

declare strcmp.simps [code] strcpychar_from.simps [code] my_strlen_from.simps [code] log_from.simps [code]
  itoa_fill.simps [code] strtoi_from.simps [code] find_char_from.simps [code] skip_blanks.simps [code]
  read_digits.simps [code] strtoh_from.simps [code] satoi_from.simps [code]
declare str_in_list_from.simps [simp del]

section \<open>C strings\<close>

fun is_str :: "bytes \<Rightarrow> addr \<Rightarrow> byte list \<Rightarrow> bool" where
  "is_str m p [] = (m p = 0)"
| "is_str m p (x # xs) = (m p = x \<and> x \<noteq> 0 \<and> is_str m (p + 1) xs)"

lemma is_str_frame:
  "is_str m p xs \<Longrightarrow> (\<And>a. p \<le> a \<Longrightarrow> a \<le> p + length xs \<Longrightarrow> m' a = m a) \<Longrightarrow> is_str m' p xs"
proof (induction xs arbitrary: p)
  case (Cons x xs)
  then have "is_str m' (p + 1) xs" by (intro Cons.IH) auto
  with Cons show ?case by auto
qed simp

lemma is_strI:
  "(\<And>i. i < length xs \<Longrightarrow> m (p + i) = xs ! i) \<Longrightarrow> m (p + length xs) = 0 \<Longrightarrow> 0 \<notin> set xs \<Longrightarrow> is_str m p xs"
proof (induction xs arbitrary: p)
  case (Cons x xs)
  from Cons(2) [of 0] have x: "m p = x" by simp
  have "m (p + 1 + i) = xs ! i" if "i < length xs" for i
    using Cons(2) [of "Suc i"] that by simp
  then have "is_str m (p + 1) xs" using Cons(3,4) by (intro Cons.IH) simp_all
  with x Cons(4) show ?case by auto
qed simp

lemma is_strD:
  "is_str m p xs \<Longrightarrow> (\<forall>i < length xs. m (p + i) = xs ! i) \<and> m (p + length xs) = 0 \<and> 0 \<notin> set xs"
proof (induction xs arbitrary: p)
  case (Cons x xs)
  then have "is_str m (p + 1) xs" by simp
  from Cons(1) [OF this] Cons(2) show ?case by (auto simp: nth_Cons split: nat.splits)
qed simp

lemma is_str_append: "is_str m p (xs @ ys) \<Longrightarrow> is_str m (p + length xs) ys"
  by (induction xs arbitrary: p) force+

lemma is_str_nth: "is_str m p xs \<Longrightarrow> i \<le> length xs \<Longrightarrow> m (p + i) = (xs @ [0]) ! i"
  using is_strD [of m p xs] by (auto simp: nth_append)

section \<open>What the functions compute\<close>

lemma strcmp_str:
  "is_str m p xs \<Longrightarrow> is_str m q ys \<Longrightarrow> \<exists>r. strcmp m p q = Some r \<and> (r = 0 \<longleftrightarrow> xs = ys) \<and>
    (r < 0 \<longleftrightarrow> (map sint xs @ [0], map sint ys @ [0]) \<in> lexord {(a, b). a < b})"
proof (induction xs arbitrary: p q ys)
  case Nil
  then show ?case
    by (cases ys) (auto simp: strcmp.simps [of m p q] signed_eq_0_iff)
next
  case (Cons x xs)
  show ?case
  proof (cases ys)
    case Nil
    with Cons(2,3) show ?thesis by (auto simp: strcmp.simps [of m p q] signed_eq_0_iff)
  next
    case (Cons y ys')
    note ys = Cons
    show ?thesis
    proof (cases "x = y")
      case True
      with Cons.prems ys have "strcmp m p q = strcmp m (p + 1) (q + 1)"
        by (simp add: strcmp.simps [of m p q])
      moreover from Cons.prems ys True Cons.IH [of "p + 1" "q + 1" ys'] obtain r where
        "strcmp m (p + 1) (q + 1) = Some r" "(r = 0) = (xs = ys')"
        "(r < 0) = ((map sint xs @ [0], map sint ys' @ [0]) \<in> lexord {(a, b). a < b})" by auto
      ultimately show ?thesis using ys True by simp
    next
      case False
      then have "sint x \<noteq> sint y" using signed_word_eqI [of x y] by blast
      with False Cons.prems ys show ?thesis by (auto simp: strcmp.simps [of m p q])
    qed
  qed
qed

lemma strcpychar_from_str:
  assumes "is_str m origin xs" and "idx \<le> length (takeWhile (\<lambda>c. c \<noteq> limit) xs)"
    and "\<forall>a. origin \<le> a \<and> a \<le> origin + length xs \<longrightarrow> \<not> (dest \<le> a \<and> a \<le> dest + length (takeWhile (\<lambda>c. c \<noteq> limit) xs))"
    and "\<And>a. \<not> (dest \<le> a \<and> a < dest + idx) \<Longrightarrow> m' a = m a"
    and "\<And>i. i < idx \<Longrightarrow> m' (dest + i) = xs ! i"
  shows "strcpychar_from m' dest origin limit idx =
    Some (\<lambda>a. if dest \<le> a \<and> a < dest + length (takeWhile (\<lambda>c. c \<noteq> limit) xs) then xs ! (a - dest)
              else if a = dest + length (takeWhile (\<lambda>c. c \<noteq> limit) xs) then 0 else m a,
          length (takeWhile (\<lambda>c. c \<noteq> limit) xs))"
  using assms(2,4,5)
proof (induction "length (takeWhile (\<lambda>c. c \<noteq> limit) xs) - idx" arbitrary: idx m')
  case 0
  let ?n = "length (takeWhile (\<lambda>c. c \<noteq> limit) xs)"
  have idx: "idx = ?n" using 0 by simp
  have le: "?n \<le> length xs" by (rule length_takeWhile_le)
  have o: "m' (origin + idx) = m (origin + idx)"
    using 0(3) [of "origin + idx"] spec [OF assms(3), of "origin + idx"] idx le by auto
  have "m (origin + idx) = limit \<or> m (origin + idx) = 0"
  proof (cases "?n = length xs")
    case True
    then show ?thesis using is_strD [OF assms(1)] idx by simp
  next
    case False
    then have "xs ! ?n = limit" using nth_length_takeWhile [of "\<lambda>c. c \<noteq> limit" xs] le by auto
    then show ?thesis using is_strD [OF assms(1)] False le idx by auto
  qed
  then have "strcpychar_from m' dest origin limit idx = Some (m'(dest + idx := 0), idx)"
    unfolding o [symmetric] by (subst strcpychar_from.simps) auto
  moreover have eq: "m' a = (if dest \<le> a \<and> a < dest + idx then xs ! (a - dest) else m a)" for a
    using 0(3) [of a] 0(4) [of "a - dest"] by auto
  have "m'(dest + idx := 0) = (\<lambda>a. if dest \<le> a \<and> a < dest + idx then xs ! (a - dest)
      else if a = dest + idx then 0 else m a)"
    by (rule ext, subst fun_upd_apply, subst eq) simp
  ultimately show ?case by (simp only: idx)
next
  case (Suc k)
  let ?n = "length (takeWhile (\<lambda>c. c \<noteq> limit) xs)"
  have less: "idx < ?n" "idx < length xs"
    using Suc(2) length_takeWhile_le [of "\<lambda>c. c \<noteq> limit" xs] by linarith+
  have o: "m' (origin + idx) = xs ! idx"
    using Suc(4) [of "origin + idx"] spec [OF assms(3), of "origin + idx"] less is_strD [OF assms(1)] by auto
  have "xs ! idx \<noteq> limit"
    using less(1) nth_mem [OF less(1)] takeWhile_nth [OF less(1)] set_takeWhileD by metis
  moreover have "xs ! idx \<noteq> 0" using is_strD [OF assms(1)] less(2) nth_mem by metis
  ultimately have "strcpychar_from m' dest origin limit idx =
      strcpychar_from (m'(dest + idx := xs ! idx)) dest origin limit (idx + 1)"
    by (subst strcpychar_from.simps) (simp add: o)
  also have "\<dots> = Some (\<lambda>a. if dest \<le> a \<and> a < dest + ?n then xs ! (a - dest)
              else if a = dest + ?n then 0 else m a, ?n)"
  proof (rule Suc(1))
    show "k = ?n - (idx + 1)" "idx + 1 \<le> ?n" using Suc(2) less by simp_all
    show "(m'(dest + idx := xs ! idx)) a = m a" if "\<not> (dest \<le> a \<and> a < dest + (idx + 1))" for a
      using that Suc(4) [of a] by auto
    show "(m'(dest + idx := xs ! idx)) (dest + i) = xs ! i" if "i < idx + 1" for i
      using that Suc(5) [of i] by (cases "i = idx") auto
  qed
  finally show ?case .
qed

lemma my_strlen_from_str: "is_str m (p + i) xs \<Longrightarrow> my_strlen_from m p i = Some (i + length xs)"
proof (induction xs arbitrary: i)
  case (Cons x xs)
  have "is_str m (p + (i + 1)) xs" using Cons(2) by (simp add: add.assoc)
  from Cons(1) [OF this] Cons(2) show ?case by (subst my_strlen_from.simps) simp
qed (simp add: my_strlen_from.simps)

lemma memset_down_eq:
  "memset_down m dst c n = (\<lambda>a. if dst \<le> a \<and> a < dst + n then c else m a)"
  by (induction n arbitrary: m) (auto simp: fun_eq_iff)

text \<open>A word read from memory and written back copies its four bytes.\<close>

lemma write32_read32:
  "write32 m d (read32 m' s) = m(d := m' s, d + 1 := m' (s + 1), d + 2 := m' (s + 2), d + 3 := m' (s + 3))"
proof -
  define w where "w = read32 m' s"
  have len: "bit v n \<Longrightarrow> n < 8" for v :: byte and n
    using bit_imp_le_length [of v n] by simp
  have bit: "bit w i = (if i < 8 then bit (m' s) i else if i < 16 then bit (m' (s + 1)) (i - 8)
      else if i < 24 then bit (m' (s + 2)) (i - 16) else i < 32 \<and> bit (m' (s + 3)) (i - 24))" for i
    using len by (auto simp: w_def read32_def bit_simps dest: len)
  have "ucast w = m' s" "ucast (drop_bit 8 w) = m' (s + 1)" "ucast (drop_bit 16 w) = m' (s + 2)"
      "ucast (drop_bit 24 w) = m' (s + 3)"
    by (rule bit_word_eqI, auto simp: bit_simps bit)+
  then show ?thesis by (simp add: write32_def w_def)
qed

definition copied :: "bytes \<Rightarrow> addr \<Rightarrow> addr \<Rightarrow> nat \<Rightarrow> bytes" where
  "copied m d s n = (\<lambda>a. if d \<le> a \<and> a < d + n then m (s + (a - d)) else m a)"

lemma copied_0: "copied m d s 0 = m"
  by (auto simp: copied_def fun_eq_iff)

lemma copied_src:
  "d \<le> s \<or> s + n \<le> d \<Longrightarrow> i \<le> k \<Longrightarrow> k < n \<Longrightarrow> copied m d s i (s + k) = m (s + k)"
  by (auto simp: copied_def)

lemma copied_Suc: "(copied m d s i)(d + i := m (s + i)) = copied m d s (i + 1)"
  by (auto simp: copied_def fun_eq_iff)

lemma copy_bytes_eq:
  "d \<le> s \<or> s + (i + n) \<le> d \<Longrightarrow> copy_bytes n (copied m d s i) d s i = copied m d s (i + n)"
proof (induction n arbitrary: i)
  case (Suc n)
  have "copied m d s i (s + i) = m (s + i)" using Suc(2) by (intro copied_src) auto
  then have "copy_bytes (Suc n) (copied m d s i) d s i = copy_bytes n (copied m d s (i + 1)) d s (i + 1)"
    by (simp add: copied_Suc [simplified])
  also have "\<dots> = copied m d s (i + Suc n)" using Suc(1) [of "i + 1"] Suc(2) by simp
  finally show ?case .
qed simp

lemma copy_words_eq:
  "d \<le> s \<or> s + 4 * (i + n) \<le> d \<Longrightarrow>
   copy_words n (copied m d s (4 * i)) d s i = copied m d s (4 * (i + n))"
proof (induction n arbitrary: i)
  case (Suc n)
  have src: "copied m d s (4 * i) (s + (4 * i + j)) = m (s + (4 * i + j))" if "j < 4" for j
    using Suc(2) that by (intro copied_src [of _ _ "4 * (i + Suc n)"]) auto
  have "write32 (copied m d s (4 * i)) (d + 4 * i) (read32 (copied m d s (4 * i)) (s + 4 * i)) =
      (copied m d s (4 * i))(d + 4 * i := m (s + 4 * i), d + (4 * i + 1) := m (s + (4 * i + 1)),
        d + (4 * i + 2) := m (s + (4 * i + 2)), d + (4 * i + 3) := m (s + (4 * i + 3)))"
    using src [of 0] src [of 1] src [of 2] src [of 3] by (simp add: write32_read32 add.assoc)
  also have "\<dots> = copied m d s (4 * (i + 1))"
  proof -
    have e: "4 * i + 2 = 4 * i + 1 + 1" "4 * i + 3 = 4 * i + 1 + 1 + 1" "4 * (i + 1) = 4 * i + 1 + 1 + 1 + 1"
      by simp_all
    show ?thesis unfolding e copied_Suc ..
  qed
  finally have "copy_words (Suc n) (copied m d s (4 * i)) d s i =
      copy_words n (copied m d s (4 * (i + 1))) d s (i + 1)"
    by simp
  also have "\<dots> = copied m d s (4 * (i + Suc n))" using Suc(1) [of "i + 1"] Suc(2) by simp
  finally show ?case .
qed simp

subsection \<open>Numbers\<close>

function digits :: "nat \<Rightarrow> nat \<Rightarrow> nat list" where
  "digits b n = (if n < b \<or> b < 2 then [n] else digits b (n div b) @ [n mod b])"
  by pat_completeness auto
termination
  by (relation "measure (\<lambda>(b, n). n)") auto

declare digits.simps [simp del]

lemma digits_ne [simp]: "digits b n \<noteq> []"
  by (subst digits.simps) simp

lemma digits_less: "2 \<le> b \<Longrightarrow> d \<in> set (digits b n) \<Longrightarrow> d < b"
proof (induction b n rule: digits.induct)
  case (1 b n)
  show ?case
  proof (cases "n < b")
    case True
    with 1(2,3) show ?thesis by (subst (asm) digits.simps) simp
  next
    case False
    with 1(2) have "d \<in> set (digits b (n div b)) \<or> d = n mod b"
      using 1(3) by (subst (asm) digits.simps) auto
    with 1(1) [OF _ 1(2)] False 1(2) show ?thesis by auto
  qed
qed

lemma log_from_digits:
  "2 \<le> b \<Longrightarrow> log_from n b c = Some (c + length (digits b n) - 1)"
proof (induction b n arbitrary: c rule: digits.induct)
  case (1 b n)
  show ?case
  proof (cases "n < b")
    case True
    then have "digits b n = [n]" by (subst digits.simps) simp
    with True 1(2) show ?thesis by (subst log_from.simps) simp
  next
    case False
    then have "digits b n = digits b (n div b) @ [n mod b]" using 1(2) by (subst digits.simps) simp
    moreover have "n div b \<noteq> 0" using False 1(2) by (simp add: div_eq_0_iff)
    ultimately show ?thesis
      using False 1(2) 1(1) [of "c + 1"] by (subst log_from.simps) (simp add: Let_def)
  qed
qed

definition placed :: "bytes \<Rightarrow> addr \<Rightarrow> byte list \<Rightarrow> bytes" where
  "placed m p xs = (\<lambda>a. if p \<le> a \<and> a < p + length xs then xs ! (a - p) else m a)"

lemma placed_snoc: "placed (m(p + length xs := x)) p xs = placed m p (xs @ [x])"
  by (auto simp: placed_def fun_eq_iff nth_append)

lemma itoa_fill_digits:
  "2 \<le> b \<Longrightarrow> n \<noteq> 0 \<Longrightarrow> len = i + length (digits b n) \<Longrightarrow> len < 2 ^ 32 \<Longrightarrow>
   itoa_fill m buf b len n i = Some (placed m buf (map digit_char (digits b n)), len)"
proof (induction b n arbitrary: m i rule: digits.induct)
  case (1 b n)
  have pos: "0 < length (digits b n)" by simp
  have idx: "nat ((int len - int i - 1) mod 2 ^ 32) = length (digits b n) - 1"
  proof -
    have "(int len - int i - 1) mod 2 ^ 32 = int len - int i - 1"
    proof (rule mod_pos_pos_trivial)
      show "0 \<le> int len - int i - 1" using 1(4) pos by linarith
      show "int len - int i - 1 < 2 ^ 32" using 1(5) by simp
    qed
    then show ?thesis using 1(4) by simp
  qed
  have step: "itoa_fill m buf b len n i =
      itoa_fill (m(buf + (length (digits b n) - 1) := digit_char (n mod b))) buf b len (n div b) (i + 1)"
    using 1(2,3) by (subst itoa_fill.simps) (simp add: idx [simplified])
  show ?case
  proof (cases "n < b")
    case True
    then have d: "digits b n = [n]" by (subst digits.simps) simp
    with True 1(4) show ?thesis
      unfolding step by (subst itoa_fill.simps) (simp add: placed_def fun_eq_iff)
  next
    case False
    then have d: "digits b n = digits b (n div b) @ [n mod b]" using 1(2) by (subst digits.simps) simp
    have nz: "n div b \<noteq> 0" using False 1(2) by (simp add: div_eq_0_iff)
    let ?m = "m(buf + length (digits b (n div b)) := digit_char (n mod b))"
    have "itoa_fill ?m buf b len (n div b) (i + 1) =
        Some (placed ?m buf (map digit_char (digits b (n div b))), len)"
      using False 1(2,4,5) d nz by (intro 1(1)) simp_all
    then show ?thesis
      unfolding step d using placed_snoc [of m buf "map digit_char (digits b (n div b))" "digit_char (n mod b)"]
      by simp
  qed
qed

lemma length_digits: "2 \<le> b \<Longrightarrow> n < 2 ^ k \<Longrightarrow> 0 < k \<Longrightarrow> length (digits b n) \<le> k"
proof (induction b n arbitrary: k rule: digits.induct)
  case (1 b n)
  show ?case
  proof (cases "n < b")
    case True
    then show ?thesis using 1(4) by (subst digits.simps) simp
  next
    case False
    then have d: "digits b n = digits b (n div b) @ [n mod b]" using 1(2) by (subst digits.simps) simp
    obtain k' where k: "k = Suc k'" using 1(4) by (cases k) auto
    have "n div b \<le> n div 2" using 1(2) by (intro div_le_mono2) simp_all
    also have "n div 2 < 2 ^ k'" using 1(3) k by (simp add: less_mult_imp_div_less mult.commute)
    finally have "n div b < 2 ^ k'" .
    moreover have "0 < k'" using k False 1(2,3) by (cases k') auto
    ultimately have "length (digits b (n div b)) \<le> k'" using False 1(2) by (intro 1(1)) simp_all
    then show ?thesis by (simp add: d k)
  qed
qed

subsection \<open>Reading decimals\<close>

definition digit_val :: "byte \<Rightarrow> nat" where
  "digit_val c = nat (sint c - 48)"

definition dec_value :: "byte list \<Rightarrow> nat" where
  "dec_value ds = foldl (\<lambda>v c. v * 10 + digit_val c) 0 ds"

lemma scast_digit: "isNumber c \<Longrightarrow> scast c - 48 = (of_nat (digit_val c) :: 'a :: len word)"
proof -
  assume "isNumber c"
  then have "int (digit_val c) = sint c - 48" by (simp add: isNumber_def digit_val_def)
  then have "(of_int (sint c - 48) :: 'a word) = of_nat (digit_val c)" by (metis of_int_of_nat_eq)
  moreover have "scast c - 48 = (of_int (sint c - 48) :: 'a word)"
    unfolding of_int_diff of_int_numeral by (rule arg_cong [of _ _ "\<lambda>x. x - 48"]) (rule scast_eq)
  ultimately show ?thesis by (simp only:)
qed

lemma isNumber_digit_char: "d < 10 \<Longrightarrow> isNumber (digit_char d) \<and> digit_val (digit_char d) = d \<and> digit_char d \<noteq> 0"
proof -
  assume "d < 10"
  then have "d \<in> {0,1,2,3,4,5,6,7,8,9}" by auto
  then show ?thesis by (auto simp: digit_char_def isNumber_def digit_val_def)
qed

lemma foldl_of_nat:
  "foldl (\<lambda>v c. v * 10 + of_nat (digit_val c)) (of_nat n) ds =
    (of_nat (foldl (\<lambda>v c. v * 10 + digit_val c) n ds) :: 'a :: len word)"
proof (induction ds arbitrary: n)
  case (Cons d ds)
  have e: "of_nat n * 10 + of_nat (digit_val d) = (of_nat (n * 10 + digit_val d) :: 'a word)"
    by simp
  show ?case by (simp only: foldl_Cons e Cons.IH)
qed simp

definition number_end :: "byte list \<Rightarrow> bool" where
  "number_end xs = (case xs of [] \<Rightarrow> True | x # _ \<Rightarrow> \<not> isNumber x)"

lemma not_isNumber_0 [simp]: "\<not> isNumber 0"
  by (simp add: isNumber_def)

lemma strtoi_from_digits:
  "is_str m p (ds @ rest) \<Longrightarrow> \<forall>c \<in> set ds. isNumber c \<Longrightarrow> number_end rest \<Longrightarrow>
   strtoi_from m p num = Some (foldl (\<lambda>v c. v * 10 + of_nat (digit_val c)) num ds, p + length ds)"
proof (induction ds arbitrary: p num)
  case Nil
  then have "\<not> isNumber (m p)" by (cases rest) (auto simp: number_end_def)
  then show ?case by (subst strtoi_from.simps) simp
next
  case (Cons c ds)
  have "is_str m (p + 1) (ds @ rest)" "m p = c" using Cons(2) by simp_all
  moreover have "num * 10 + scast c - 48 = num * 10 + of_nat (digit_val c)"
    using scast_digit [of c, where 'a = 32] Cons(3) by (simp add: algebra_simps)
  ultimately show ?case
    using Cons by (subst strtoi_from.simps) (simp add: algebra_simps)
qed

lemma read_digits_spec:
  "is_str m (p + i) (ds @ rest) \<Longrightarrow> \<forall>c \<in> set ds. isNumber c \<Longrightarrow> number_end rest \<Longrightarrow>
   read_digits m p i num h = Some (i + length ds,
     foldl (\<lambda>v c. v * 10 + of_nat (digit_val c)) num ds, h \<or> ds \<noteq> [])"
proof (induction ds arbitrary: i num h)
  case Nil
  then have "\<not> isNumber (m (p + i))" by (cases rest) (auto simp: number_end_def)
  then show ?case by (subst read_digits.simps) simp
next
  case (Cons c ds)
  have "is_str m (p + (i + 1)) (ds @ rest)" "m (p + i) = c" using Cons(2) by (simp_all add: add.assoc)
  moreover have "num * 10 + (scast c - 48) = num * 10 + of_nat (digit_val c)"
    using scast_digit [of c, where 'a = 32] Cons(3) by simp
  ultimately show ?case
    using Cons by (subst read_digits.simps) (simp add: algebra_simps)
qed

definition blank :: "byte \<Rightarrow> bool" where
  "blank c = (c = 32 \<or> c = 9)"

lemma skip_blanks_spec:
  "is_str m (p + i) xs \<Longrightarrow> skip_blanks m p i = Some (i + length (takeWhile blank xs)) \<and>
    is_str m (p + (i + length (takeWhile blank xs))) (dropWhile blank xs)"
proof (induction xs arbitrary: i)
  case Nil
  then show ?case by (subst skip_blanks.simps) simp
next
  case (Cons x xs)
  then have x: "m (p + i) = x" "is_str m (p + (i + 1)) xs" by (simp_all add: add.assoc)
  show ?case
  proof (cases "blank x")
    case True
    then have "m (p + i) = 32 \<or> m (p + i) = 9" using x(1) by (simp add: blank_def)
    with Cons(1) [OF x(2)] True show ?thesis by (subst skip_blanks.simps) simp
  next
    case False
    with Cons(2) x(1) show ?thesis by (subst skip_blanks.simps) (auto simp: blank_def)
  qed
qed

lemma number_end_dropWhile: "number_end (dropWhile isNumber xs)"
  by (induction xs) (auto simp: number_end_def)

lemma str_in_list_from_spec:
  assumes "is_str m needle xs" and "\<forall>j < n. lst j \<noteq> 0 \<longrightarrow> is_str m (lst j) (strs j)" and "i \<le> n"
  shows "str_in_list_from m needle lst n i =
    Some (case List.find (\<lambda>j. lst j \<noteq> 0 \<and> strs j = xs) [i ..< n] of None \<Rightarrow> - 1 | Some j \<Rightarrow> int j)"
  using assms(3)
proof (induction "n - i" arbitrary: i)
  case 0
  then show ?case by (subst str_in_list_from.simps) simp
next
  case (Suc k)
  then have i: "i < n" by simp
  have IH: "str_in_list_from m needle lst n (i + 1) = Some (case List.find
      (\<lambda>j. lst j \<noteq> 0 \<and> strs j = xs) [i + 1 ..< n] of None \<Rightarrow> - 1 | Some j \<Rightarrow> int j)"
    using Suc by (intro Suc(1)) simp_all
  have up: "[i ..< n] = i # [i + 1 ..< n]" using i by (simp add: upt_conv_Cons)
  show ?case
  proof (cases "lst i = 0")
    case True
    with i IH show ?thesis by (subst str_in_list_from.simps) (simp add: up)
  next
    case False
    with assms(2) i have "is_str m (lst i) (strs i)" by simp
    from strcmp_str [OF assms(1) this] obtain r where "strcmp m needle (lst i) = Some r" "(r = 0) = (xs = strs i)"
      by blast
    with False i IH show ?thesis
      by (subst str_in_list_from.simps) (auto simp: up user_strcmp_def)
  qed
qed

lemma placed_str:
  assumes "0 \<notin> set xs"
  shows "is_str ((placed m p xs)(p + length xs := 0)) p xs"
  using assms by (intro is_strI) (auto simp: placed_def)

lemma dec_value_digits: "foldl (\<lambda>v c. v * 10 + digit_val c) 0 (map digit_char (digits 10 n)) = n"
proof (induction "10 :: nat" n rule: digits.induct)
  case (1 n)
  show ?case
  proof (cases "n < 10")
    case True
    then have "digits 10 n = [n]" by (subst digits.simps) simp
    then show ?thesis using isNumber_digit_char [OF True] by simp
  next
    case False
    then have d: "digits 10 n = digits 10 (n div 10) @ [n mod 10]" by (subst digits.simps) simp
    have "digit_val (digit_char (n mod 10)) = n mod 10" using isNumber_digit_char [of "n mod 10"] by simp
    with 1 False show ?thesis by (simp add: d)
  qed
qed

section \<open>Properties\<close>

lemma digit_char_nonzero: "d < 36 \<Longrightarrow> digit_char d \<noteq> 0"
proof -
  assume "d < 36"
  then have "d \<in> set [0 ..< 36]" by simp
  moreover have "\<forall>d \<in> set [0 ..< 36]. digit_char d \<noteq> 0" by (simp add: upt_rec digit_char_def)
  ultimately show ?thesis by blast
qed

text \<open>
  On two C strings \<open>strcmp\<close> ends; it returns 0 exactly for equal strings and a
  negative value exactly when the first is smaller in the lexicographic order of the signed
  character values, the terminator being the value 0 (so a prefix is smaller than a longer
  string only if the next character is not a negative \<open>char\<close>).
\<close>

theorem strcmp_order:
  assumes "is_str m p xs" and "is_str m q ys"
  shows "\<exists>r. strcmp m p q = Some r \<and> (r = 0 \<longleftrightarrow> xs = ys) \<and>
    (r < 0 \<longleftrightarrow> (map sint xs @ [0], map sint ys @ [0]) \<in> lexord {(a, b). a < b})"
  by (rule strcmp_str [OF assms])

theorem strcmp_order_witness:
  "\<exists>r. strcmp (placed (placed (\<lambda>_. 0) 10 [97]) 20 [97, 98]) 10 20 = Some r \<and> r < 0"
proof -
  have "is_str (placed (placed (\<lambda>_. 0) 10 [97]) 20 [97, 98]) 10 [97]"
    "is_str (placed (placed (\<lambda>_. 0) 10 [97]) 20 [97, 98]) 20 [97, 98]"
    by (simp_all add: placed_def)
  from strcmp_order [OF this] obtain r where
    "strcmp (placed (placed (\<lambda>_. 0) 10 [97]) 20 [97, 98]) 10 20 = Some r"
    "r < 0 \<longleftrightarrow> (map sint [97 :: byte] @ [0], map sint [97 :: byte, 98] @ [0]) \<in> lexord {(a, b). a < b}"
    by blast
  then show ?thesis by simp
qed

text \<open>
  \<open>strcpychar\<close> (with the limit 0 it is \<open>my_strcpy\<close>) copies the prefix
  before the first \<open>limit\<close>, terminates it, returns its length and writes nothing else, for a
  destination that does not overlap the source.
\<close>

theorem strcpychar_copies:
  assumes "is_str m origin xs" and "pre = takeWhile (\<lambda>c. c \<noteq> limit) xs"
    and "dest + length pre < origin \<or> origin + length xs < dest"
  shows "\<exists>m'. strcpychar m dest origin limit = Some (m', length pre) \<and> is_str m' dest pre \<and>
    is_str m' origin xs \<and> (\<forall>a. a < dest \<or> dest + length pre < a \<longrightarrow> m' a = m a)"
proof -
  let ?m = "\<lambda>a. if dest \<le> a \<and> a < dest + length pre then xs ! (a - dest)
    else if a = dest + length pre then 0 else m a"
  have "strcpychar_from m dest origin limit 0 = Some (?m, length pre)"
    unfolding assms(2) using assms(1,3) unfolding assms(2) by (intro strcpychar_from_str) auto
  moreover have "is_str ?m dest pre"
  proof (rule is_strI)
    have "pre ! i = xs ! i" if "i < length pre" for i using that by (simp add: assms(2) takeWhile_nth)
    then show "?m (dest + i) = pre ! i" if "i < length pre" for i using that by simp
    show "0 \<notin> set pre" using is_strD [OF assms(1)] set_takeWhileD unfolding assms(2) by fastforce
  qed simp
  moreover have "is_str ?m origin xs"
    using assms(1,3) by (elim is_str_frame) auto
  ultimately show ?thesis by (intro exI [of _ ?m]) (auto simp: strcpychar_def)
qed

theorem strcpychar_copies_witness:
  "\<exists>m'. strcpychar (placed (\<lambda>_. 0) 10 [97, 32, 98]) 100 10 32 = Some (m', 1) \<and> is_str m' 100 [97]"
proof -
  have "is_str (placed (\<lambda>_. 0) 10 [97, 32, 98]) 10 [97, 32, 98]" by (simp add: placed_def)
  from strcpychar_copies [OF this, of "[97]" 32 100] show ?thesis by auto
qed

lemma memcpy_eq:
  assumes "destination \<le> source \<or> source + len \<le> destination"
  shows "memcpy m destination source len =
    (\<lambda>a. if destination \<le> a \<and> a < destination + len then m (source + (a - destination)) else m a)"
proof -
  have "memcpy m destination source len = copied m destination source len"
  proof (cases "destination mod 4 = 0 \<and> source mod 4 = 0 \<and> len mod 4 = 0")
    case True
    then have "4 * (len div 4) = len" by auto
    then show ?thesis
      using copy_words_eq [of destination source 0 "len div 4" m] True assms by (simp add: memcpy_def copied_0)
  next
    case False
    then show ?thesis
      using copy_bytes_eq [of destination source 0 len m] assms
      unfolding memcpy_def if_not_P [OF False] by (simp add: copied_0)
  qed
  then show ?thesis by (simp only: copied_def)
qed

text \<open>
  Both loops of \<open>memcpy\<close>, the word copy chosen when addresses and length are
  multiples of four and the byte copy otherwise, have the same effect: the source bytes as they
  were, at the destination, and no other byte changes. It holds for disjoint buffers and for
  overlapping ones whose destination is below the source.
\<close>

theorem memcpy_copies:
  assumes "destination \<le> source \<or> source + len \<le> destination"
  shows "memcpy m destination source len =
    (\<lambda>a. if destination \<le> a \<and> a < destination + len then m (source + (a - destination)) else m a)"
  by (rule memcpy_eq [OF assms])

theorem memcpy_copies_witness: "memcpy (\<lambda>a. of_nat a) 100 200 8 105 = 205"
  using memcpy_copies [of 100 200 8 "\<lambda>a. of_nat a"] by simp

lemma itoa_digits:
  assumes "2 \<le> base" and "base \<le> 36" and "n < 2 ^ 64"
  shows "\<exists>m'. itoa m n buffer base = Some (m', length (digits base n)) \<and>
    is_str m' buffer (map digit_char (digits base n)) \<and> length (digits base n) \<le> 64 \<and>
    (\<forall>a. a < buffer \<or> buffer + length (digits base n) < a \<longrightarrow> m' a = m a)"
proof (cases "n = 0")
  case True
  have "digits base 0 = [0]" using assms(1) by (subst digits.simps) simp
  with True show ?thesis by (simp add: itoa_def digit_char_def)
next
  case False
  let ?ds = "digits base n"
  have len: "length ?ds \<le> 64" using length_digits [OF assms(1,3)] by simp
  have log: "int_log n base = Some (length ?ds)"
    using log_from_digits [OF assms(1), of n 1] by (simp add: int_log_def)
  have "itoa_fill m buffer base (length ?ds) n 0 = Some (placed m buffer (map digit_char ?ds), length ?ds)"
    using len False assms(1) by (intro itoa_fill_digits) simp_all
  then have eq: "itoa m n buffer base =
      Some ((placed m buffer (map digit_char ?ds))(buffer + length ?ds := 0), length ?ds)"
    using False log by (simp add: itoa_def)
  have "0 \<notin> set (map digit_char ?ds)"
    using digits_less [OF assms(1), of _ n] assms(2) digit_char_nonzero by fastforce
  from placed_str [OF this, of m buffer] have
    "is_str ((placed m buffer (map digit_char ?ds))(buffer + length ?ds := 0)) buffer (map digit_char ?ds)"
    by simp
  with eq len show ?thesis by (auto simp: placed_def)
qed

text \<open>
  For every 64-bit number and every base from 2 to 36, \<open>itoa\<close>, which fills the
  buffer backwards from a length computed beforehand, writes exactly the digits of the number,
  most significant first, and the terminator after them; it returns their count, at most 64,
  and writes no other byte.
\<close>

theorem itoa_prints:
  assumes "2 \<le> base" and "base \<le> 36" and "n < 2 ^ 64"
  shows "\<exists>m'. itoa m n buffer base = Some (m', length (digits base n)) \<and>
    is_str m' buffer (map digit_char (digits base n)) \<and> length (digits base n) \<le> 64 \<and>
    (\<forall>a. a < buffer \<or> buffer + length (digits base n) < a \<longrightarrow> m' a = m a)"
  by (rule itoa_digits [OF assms])

theorem itoa_prints_witness:
  "\<exists>m'. itoa (\<lambda>_. 0) 255 50 16 = Some (m', 2) \<and> is_str m' 50 [70, 70]"
proof -
  have "digits 16 255 = [15, 15]" by (simp add: digits.simps)
  with itoa_prints [of 16 255 "\<lambda>_. 0" 50] show ?thesis by (auto simp: digit_char_def)
qed

text \<open>
  Reading back what \<open>itoa\<close> prints in decimal gives the number, for
  every number below 2^31, and the end pointer is the terminator.
\<close>

theorem itoa_strtoi_roundtrip:
  assumes "n < 2 ^ 31" and "itoa m n buffer 10 = Some (m', k)"
  shows "strtoi m' buffer = Some (int n, buffer + k)"
proof -
  have "n < 2 ^ 64" using assms(1) by simp
  from itoa_digits [of 10, OF _ _ this, of m buffer] assms(2)
  have k: "k = length (digits 10 n)" and str: "is_str m' buffer (map digit_char (digits 10 n) @ [])" by auto
  have num: "\<forall>c \<in> set (map digit_char (digits 10 n)). isNumber c"
    using digits_less [of 10 _ n] isNumber_digit_char by fastforce
  have "strtoi_from m' buffer (of_nat 0) = Some (of_nat n, buffer + k)"
    using strtoi_from_digits [OF str num, of "of_nat 0"] dec_value_digits [of n]
    unfolding foldl_of_nat by (simp add: number_end_def k)
  moreover have "sint (of_nat n :: 32 word) = int n"
    using assms(1) by (simp add: signed_of_nat signed_take_bit_int_eq_self)
  ultimately show ?thesis by (simp add: strtoi_def)
qed

theorem itoa_strtoi_roundtrip_witness:
  "\<exists>m'. itoa (\<lambda>_. 0) 42 50 10 = Some (m', 2) \<and> strtoi m' 50 = Some (42, 52)"
proof -
  have "digits 10 42 = [4, 2]" by (simp add: digits.simps)
  moreover from itoa_digits [of 10 42 "\<lambda>_. 0" 50] obtain m' k where
    i: "itoa (\<lambda>_. 0) 42 50 10 = Some (m', k)" "k = length (digits 10 42)"
    by auto
  moreover have "strtoi m' 50 = Some (int 42, 50 + k)" by (rule itoa_strtoi_roundtrip [OF _ i(1)]) simp
  ultimately show ?thesis by simp
qed

text \<open>
  \<open>str_to_uint32\<close> accepts exactly the strings that are blanks, at least
  one decimal digit, and blanks; the result is the number modulo 2^32. Everything else gives
  the error value \<open>(uint32_t) -1\<close>, which is also the result for the number 4294967295.
\<close>

theorem str_to_uint32_parses:
  assumes "is_str m str xs"
  shows "str_to_uint32 m str = Some (let rest = dropWhile blank xs; ds = takeWhile isNumber rest in
    if ds \<noteq> [] \<and> dropWhile blank (dropWhile isNumber rest) = [] then of_nat (dec_value ds) else - 1)"
proof -
  define r where "r = dropWhile blank xs"
  define ds where "ds = takeWhile isNumber r"
  define e where "e = dropWhile isNumber r"
  define i where "i = length (takeWhile blank xs)"
  have s1: "skip_blanks m str 0 = Some i" and r: "is_str m (str + i) r"
    using skip_blanks_spec [of m str 0 xs] assms by (simp_all add: i_def r_def)
  have ds: "\<forall>c \<in> set ds. isNumber c" by (auto simp: ds_def dest: set_takeWhileD)
  have re: "is_str m (str + i) (ds @ e)" using r by (simp add: ds_def e_def)
  have s2: "read_digits m str i 0 False = Some (i + length ds, of_nat (dec_value ds), ds \<noteq> [])"
    using read_digits_spec [OF re ds, of "of_nat 0" False] foldl_of_nat [of 0 ds, where 'a = 32]
    by (simp add: e_def number_end_dropWhile dec_value_def)
  have "is_str m (str + (i + length ds)) e" using is_str_append [OF re] by (simp add: add.assoc)
  from skip_blanks_spec [OF this] obtain k where
    s3: "skip_blanks m str (i + length ds) = Some k" "is_str m (str + k) (dropWhile blank e)" by blast
  have "(m (str + k) = 0) = (dropWhile blank e = [])"
    using s3(2) by (cases "dropWhile blank e") auto
  with s1 s2 s3 show ?thesis
    by (simp add: str_to_uint32_def Let_def r_def [symmetric] ds_def [symmetric] e_def [symmetric])
qed

theorem str_to_uint32_parses_witness:
  "str_to_uint32 (placed (\<lambda>_. 0) 10 [32, 49, 50]) 10 = Some 12"
proof -
  have "is_str (placed (\<lambda>_. 0) 10 [32, 49, 50]) 10 [32, 49, 50]" by (simp add: placed_def)
  from str_to_uint32_parses [OF this] show ?thesis
    by (simp add: blank_def isNumber_def dec_value_def digit_val_def)
qed

text \<open>
  \<open>str_in_list\<close> returns the index of the first entry that equals the
  needle (skipping NULL entries), and -1 when none does.
\<close>

theorem str_in_list_index:
  assumes "needle \<noteq> 0" and "0 < n" and "is_str m needle xs"
    and "\<forall>j < n. lst j \<noteq> 0 \<longrightarrow> is_str m (lst j) (strs j)"
  shows "str_in_list m needle (Some lst) (int n) =
    Some (case List.find (\<lambda>j. lst j \<noteq> 0 \<and> strs j = xs) [0 ..< n] of None \<Rightarrow> - 1 | Some j \<Rightarrow> int j)"
  using str_in_list_from_spec [OF assms(3,4), of 0] assms(1,2) by (simp add: str_in_list_def)

theorem str_in_list_index_witness:
  "str_in_list (placed (\<lambda>_. 0) 10 [97]) 10 (Some (\<lambda>_. 10)) 2 = Some 0"
proof -
  have s: "is_str (placed (\<lambda>_. 0) 10 [97]) 10 [97]" by (simp add: placed_def)
  have "str_in_list (placed (\<lambda>_. 0) 10 [97]) 10 (Some (\<lambda>_. 10)) (int 2) =
    Some (case List.find (\<lambda>j. (10 :: nat) \<noteq> 0 \<and> [97 :: byte] = [97]) [0 ..< 2] of None \<Rightarrow> - 1 | Some j \<Rightarrow> int j)"
    using s by (intro str_in_list_index) simp_all
  then show ?thesis by (simp add: upt_rec)
qed

end
