(* ===== verification/Fifo.thy ===== *)
theory Fifo
  imports Prelude
begin

text \<open>
  The contract three components of the kernel share: the process queues (\<open>Double_Linked_List\<close>),
  the keyboard's ring buffer (\<open>Keyboard\<close>) and the ring buffer of a pipe (\<open>Pipes\<close>) are bounded
  first-in first-out queues. \<open>put\<close> may refuse an element and says so, \<open>get\<close> fails on an empty
  queue only. What follows for every run of puts and gets is proved once, here.
\<close>

datatype 'a fifo_op = Put 'a | Get

locale fifo =
  fixes put :: "'a \<Rightarrow> 'q \<Rightarrow> bool \<times> 'q"
    and get :: "'q \<Rightarrow> ('a \<times> 'q) option"
    and contents :: "'q \<Rightarrow> 'a list"
    and inv :: "'q \<Rightarrow> bool"
    and valid :: "'a \<Rightarrow> bool"
  assumes put_inv: "inv q \<Longrightarrow> valid x \<Longrightarrow> put x q = (ok, q') \<Longrightarrow> inv q'"
    and put_contents: "inv q \<Longrightarrow> valid x \<Longrightarrow> put x q = (ok, q') \<Longrightarrow>
      contents q' = (if ok then contents q @ [x] else contents q)"
    and get_None: "inv q \<Longrightarrow> get q = None \<longleftrightarrow> contents q = []"
    and get_inv: "inv q \<Longrightarrow> get q = Some (x, q') \<Longrightarrow> inv q'"
    and get_contents: "inv q \<Longrightarrow> get q = Some (x, q') \<Longrightarrow> contents q = x # contents q'"
begin

text \<open>\<open>run ops q\<close>: the elements accepted, the elements delivered and the queue at the end.\<close>

fun run :: "'a fifo_op list \<Rightarrow> 'q \<Rightarrow> 'a list \<times> 'a list \<times> 'q" where
  "run [] q = ([], [], q)"
| "run (Put x # ops) q = (let (ok, q') = put x q; (ins, outs, q'') = run ops q' in
     (if ok then x # ins else ins, outs, q''))"
| "run (Get # ops) q = (case get q of
     None \<Rightarrow> run ops q
   | Some (x, q') \<Rightarrow> (let (ins, outs, q'') = run ops q' in (ins, x # outs, q'')))"

fun op_valid :: "'a fifo_op \<Rightarrow> bool" where
  "op_valid (Put x) = valid x"
| "op_valid Get = True"

lemma run_fifo:
  assumes "inv q" and "\<forall>p \<in> set ops. op_valid p" and "run ops q = (ins, outs, q')"
  shows "contents q @ ins = outs @ contents q' \<and> inv q'"
  using assms
proof (induction ops q arbitrary: ins outs q' rule: run.induct)
  case (1 q)
  then show ?case by simp
next
  case (2 x ops q)
  obtain ok q1 where put: "put x q = (ok, q1)" by force
  obtain ins' outs' q2 where r: "run ops q1 = (ins', outs', q2)" by (cases "run ops q1")
  from 2(1) [OF put [symmetric] refl put_inv [OF 2(2) _ put] _ r] 2(3)
  have "contents q1 @ ins' = outs' @ contents q2 \<and> inv q2" by simp
  with put_contents [OF 2(2) _ put] 2(3,4) put r show ?case by (auto split: if_splits)
next
  case (3 ops q)
  show ?case
  proof (cases "get q")
    case None
    with 3 show ?thesis by simp
  next
    case (Some c)
    obtain x q1 where c: "c = (x, q1)" by force
    note g = Some [unfolded c]
    obtain ins' outs' q2 where r: "run ops q1 = (ins', outs', q2)" by (cases "run ops q1")
    from 3(2) [OF Some c [symmetric] get_inv [OF 3(3) g] _ r] 3(4)
    have "contents q1 @ ins' = outs' @ contents q2 \<and> inv q2" by simp
    with get_contents [OF 3(3) g] 3(5) g r show ?thesis by auto
  qed
qed

lemma delivered_prefix:
  assumes "inv q" and "contents q = []" and "\<forall>p \<in> set ops. op_valid p"
    and "run ops q = (ins, outs, q')"
  shows "take (length outs) ins = outs" and "length outs \<le> length ins"
proof -
  have "ins = outs @ contents q'" using run_fifo [OF assms(1,3,4)] assms(2) by simp
  then show "take (length outs) ins = outs" and "length outs \<le> length ins" by simp_all
qed

end

section \<open>Ring buffers\<close>

text \<open>The n elements of an array of size c from index r on, wrapping around.\<close>

definition ring :: "(nat \<Rightarrow> 'a) \<Rightarrow> nat \<Rightarrow> nat \<Rightarrow> nat \<Rightarrow> 'a list" where
  "ring f r n c = List.map (\<lambda>j. f ((r + j) mod c)) [0..<n]"

lemma ring_put:
  assumes "n < c"
  shows "ring (f((r + n) mod c := x)) r (Suc n) c = ring f r n c @ [x]"
proof -
  have "(r + j) mod c \<noteq> (r + n) mod c" if "j < n" for j
  proof
    assume "(r + j) mod c = (r + n) mod c"
    then have "c dvd (r + n) - (r + j)" using that by (metis add_le_cancel_left less_imp_le mod_eq_dvd_iff_nat)
    moreover have "0 < n - j" "n - j < c" using that assms by auto
    ultimately show False by (simp add: nat_dvd_not_less)
  qed
  then show ?thesis by (simp add: ring_def)
qed

lemma ring_get: "0 < n \<Longrightarrow> r < c \<Longrightarrow> ring f r n c = f r # ring f ((r + 1) mod c) (n - 1) c"
proof -
  assume "0 < n" "r < c"
  then have "[0..<n] = 0 # List.map Suc [0..<n - 1]" by (metis Suc_diff_1 map_Suc_upt upt_conv_Cons)
  with \<open>r < c\<close> show ?thesis by (simp add: ring_def comp_def mod_simps)
qed

end
