(* ===== verification/Double_Linked_List.thy ===== *)
theory Double_Linked_List
  imports Memory_Manager Fifo
begin

text \<open>
  \<open>Kernel/utils/doubleLinkedList.c\<close>: the list of pointers that every queue of the kernel is.
  Two levels:

    \<^item> the code's level: list headers and nodes are objects in two stores, reached through
      pointers and allocated with \<open>mm_alloc\<close>; a dereference of \<open>NULL\<close> or of a freed object
      is \<open>None\<close>, and so is a loop that does not end;
    \<^item> the level the other components use: a \<open>plist\<close>, the header's address with the sequence
      of (node address, data pointer), and the same calls of the memory manager.

  \<open>heap_ok\<close> relates them, and one refinement theorem per operation shows that the code's level
  never faults, returns what the sequence level returns, and leaves every other list alone.
\<close>

section \<open>The code's level\<close>

record node =
  n_data :: addr
  n_prev :: addr
  n_next :: addr

record dll =
  dl_head :: addr
  dl_tail :: addr
  dl_current :: addr
  dl_size :: int

record list_heap =
  lh_mm :: mm_state
  lh_lists :: "addr \<rightharpoonup> dll"
  lh_nodes :: "addr \<rightharpoonup> node"

definition sizeof_list :: nat where "sizeof_list = 32"
definition sizeof_node :: nat where "sizeof_node = 24"

definition createDoubleLinkedListADT :: "list_heap \<Rightarrow> addr \<times> list_heap" where
  "createDoubleLinkedListADT h =
     (let (p, m) = mm_alloc sizeof_list (lh_mm h) in
      if p = 0 then (0, h\<lparr>lh_mm := m\<rparr>)
      else (p, h\<lparr>lh_mm := m, lh_lists := (lh_lists h)(p \<mapsto>
             \<lparr>dl_head = 0, dl_tail = 0, dl_current = 0, dl_size = 0\<rparr>)\<rparr>))"

text \<open>A fresh node's \<open>prev\<close> holds whatever the block held before; it is written (line 52) before
  it is read, so the model starts it at 0.\<close>

definition addNode :: "addr \<Rightarrow> addr \<Rightarrow> list_heap \<Rightarrow> (addr \<times> list_heap) option" where
  "addNode lst dat h =
     (if lst = 0 then Some (0, h)
      else
        let (p, m) = mm_alloc sizeof_node (lh_mm h) in
        if p = 0 then Some (0, h\<lparr>lh_mm := m\<rparr>)
        else do {
          l \<leftarrow> deref (lh_lists h) lst;
          let ns = (lh_nodes h)(p \<mapsto> \<lparr>n_data = dat, n_prev = 0, n_next = 0\<rparr>);
          ns \<leftarrow> (if 0 < dl_size l then store ns (dl_tail l) (n_next_update (\<lambda>_. p)) else Some ns);
          let l1 = (if 0 < dl_size l then l else l\<lparr>dl_head := p\<rparr>);
          ns \<leftarrow> store ns p (n_prev_update (\<lambda>_. dl_tail l1));
          Some (p, h\<lparr>lh_mm := m, lh_nodes := ns,
                    lh_lists := (lh_lists h)(lst \<mapsto> l1\<lparr>dl_tail := p, dl_size := dl_size l1 + 1\<rparr>)\<rparr>)
        })"

definition addNodeInFirst :: "addr \<Rightarrow> addr \<Rightarrow> list_heap \<Rightarrow> (addr \<times> list_heap) option" where
  "addNodeInFirst lst n h =
     (if lst = 0 \<or> n = 0 then Some (0, h)
      else do {
        l \<leftarrow> deref (lh_lists h) lst;
        ns \<leftarrow> store (lh_nodes h) n (n_prev_update (\<lambda>_. 0));
        ns \<leftarrow> (if 0 < dl_size l then store ns (dl_head l) (n_prev_update (\<lambda>_. n)) else Some ns);
        let l1 = (if 0 < dl_size l then l else l\<lparr>dl_tail := n\<rparr>);
        ns \<leftarrow> store ns n (n_next_update (\<lambda>_. dl_head l1));
        Some (n, h\<lparr>lh_nodes := ns,
                  lh_lists := (lh_lists h)(lst \<mapsto> l1\<lparr>dl_head := n, dl_size := dl_size l1 + 1\<rparr>)\<rparr>)
      })"

text \<open>Lines 83 to 101: unlink \<open>current\<close> and free it.\<close>

definition unlink :: "addr \<Rightarrow> addr \<Rightarrow> list_heap \<Rightarrow> (addr \<times> list_heap) option" where
  "unlink lst cur h = do {
     l \<leftarrow> deref (lh_lists h) lst;
     c \<leftarrow> deref (lh_nodes h) cur;
     ns \<leftarrow> (if n_prev c \<noteq> 0 then store (lh_nodes h) (n_prev c) (n_next_update (\<lambda>_. n_next c))
            else Some (lh_nodes h));
     let l1 = (if n_prev c \<noteq> 0 then l else l\<lparr>dl_head := n_next c\<rparr>);
     ns \<leftarrow> (if n_next c \<noteq> 0 then store ns (n_next c) (n_prev_update (\<lambda>_. n_prev c)) else Some ns);
     let l2 = (if n_next c \<noteq> 0 then l1 else l1\<lparr>dl_tail := n_prev c\<rparr>);
     Some (n_data c, h\<lparr>lh_mm := mm_free cur (lh_mm h), lh_nodes := ns(cur := None),
             lh_lists := (lh_lists h)(lst \<mapsto> l2\<lparr>dl_size := dl_size l2 - 1\<rparr>)\<rparr>)
   }"

partial_function (option) removeNode_from ::
    "addr \<Rightarrow> addr \<Rightarrow> addr \<Rightarrow> list_heap \<Rightarrow> (addr \<times> list_heap) option" where
  "removeNode_from lst dat cur h =
     (if cur = 0 then Some (0, h)
      else do {
        c \<leftarrow> deref (lh_nodes h) cur;
        if n_data c = dat then unlink lst cur h else removeNode_from lst dat (n_next c) h
      })"

definition removeNode :: "addr \<Rightarrow> addr \<Rightarrow> list_heap \<Rightarrow> (addr \<times> list_heap) option" where
  "removeNode lst dat h =
     (if lst = 0 \<or> dat = 0 then Some (0, h)
      else do { l \<leftarrow> deref (lh_lists h) lst; removeNode_from lst dat (dl_head l) h })"

definition getFirstData :: "addr \<Rightarrow> list_heap \<Rightarrow> (addr \<times> list_heap) option" where
  "getFirstData lst h =
     (if lst = 0 then Some (0, h)
      else do {
        l \<leftarrow> deref (lh_lists h) lst;
        if dl_size l = 0 then Some (0, h)
        else do { c \<leftarrow> deref (lh_nodes h) (dl_head l); removeNode lst (n_data c) h }
      })"

partial_function (option) free_nodes :: "addr \<Rightarrow> list_heap \<Rightarrow> list_heap option" where
  "free_nodes cur h =
     (if cur = 0 then Some h
      else do {
        c \<leftarrow> deref (lh_nodes h) cur;
        free_nodes (n_next c)
          (h\<lparr>lh_mm := mm_free cur (lh_mm h), lh_nodes := (lh_nodes h)(cur := None)\<rparr>)
      })"

definition freeLinkedListADT :: "addr \<Rightarrow> list_heap \<Rightarrow> list_heap option" where
  "freeLinkedListADT lst h = do {
     l \<leftarrow> deref (lh_lists h) lst;
     h \<leftarrow> free_nodes (dl_head l) h;
     Some (h\<lparr>lh_mm := mm_free lst (lh_mm h), lh_lists := (lh_lists h)(lst := None)\<rparr>)
   }"

definition getSize :: "addr \<Rightarrow> list_heap \<Rightarrow> int option" where
  "getSize lst h = (if lst = 0 then Some (- 1) else map_option dl_size (deref (lh_lists h) lst))"

definition isEmpty :: "addr \<Rightarrow> list_heap \<Rightarrow> int option" where
  "isEmpty lst h =
     (if lst = 0 then Some (- 1)
      else map_option (\<lambda>l. of_bool (dl_size l = 0)) (deref (lh_lists h) lst))"

definition toBegin :: "addr \<Rightarrow> list_heap \<Rightarrow> list_heap option" where
  "toBegin lst h =
     (if lst = 0 then Some h
      else do {
        l \<leftarrow> deref (lh_lists h) lst;
        Some (h\<lparr>lh_lists := (lh_lists h)(lst \<mapsto> l\<lparr>dl_current := dl_head l\<rparr>)\<rparr>)
      })"

definition hasNext :: "addr \<Rightarrow> list_heap \<Rightarrow> bool option" where
  "hasNext lst h =
     (if lst = 0 then Some False else map_option (\<lambda>l. dl_current l \<noteq> 0) (deref (lh_lists h) lst))"

definition nextInList :: "addr \<Rightarrow> list_heap \<Rightarrow> (addr \<times> list_heap) option" where
  "nextInList lst h = do {
     more \<leftarrow> hasNext lst h;
     if \<not> more then Some (0, h)
     else do {
       l \<leftarrow> deref (lh_lists h) lst;
       c \<leftarrow> deref (lh_nodes h) (dl_current l);
       Some (n_data c, h\<lparr>lh_lists := (lh_lists h)(lst \<mapsto> l\<lparr>dl_current := n_next c\<rparr>)\<rparr>)
     }
   }"

section \<open>The sequence level\<close>

record plist =
  l_addr :: addr
  l_items :: "(addr \<times> addr) list"

abbreviation l_data :: "plist \<Rightarrow> addr list" where
  "l_data l \<equiv> map snd (l_items l)"

abbreviation l_nodes :: "plist \<Rightarrow> addr list" where
  "l_nodes l \<equiv> map fst (l_items l)"

text \<open>A \<open>NULL\<close> list is a \<open>plist\<close> whose header address is 0; it has no items.\<close>

definition seq_create :: "mm_state \<Rightarrow> plist \<times> mm_state" where
  "seq_create m = (let (p, m') = mm_alloc sizeof_list m in (\<lparr>l_addr = p, l_items = []\<rparr>, m'))"

definition seq_add :: "addr \<Rightarrow> plist \<Rightarrow> mm_state \<Rightarrow> addr \<times> plist \<times> mm_state" where
  "seq_add d l m =
     (if l_addr l = 0 then (0, l, m)
      else let (p, m') = mm_alloc sizeof_node m in
        (p, if p = 0 then l else l\<lparr>l_items := l_items l @ [(p, d)]\<rparr>, m'))"

fun cut :: "addr \<Rightarrow> (addr \<times> addr) list \<Rightarrow> (addr \<times> (addr \<times> addr) list) option" where
  "cut d [] = None"
| "cut d ((n, e) # xs) =
     (if e = d then Some (n, xs) else map_option (\<lambda>(n', ys). (n', (n, e) # ys)) (cut d xs))"

definition seq_remove :: "addr \<Rightarrow> plist \<Rightarrow> mm_state \<Rightarrow> addr \<times> plist \<times> mm_state" where
  "seq_remove d l m =
     (if d = 0 then (0, l, m)
      else case cut d (l_items l) of
        None \<Rightarrow> (0, l, m)
      | Some (n, xs) \<Rightarrow> (d, l\<lparr>l_items := xs\<rparr>, mm_free n m))"

definition seq_first :: "plist \<Rightarrow> mm_state \<Rightarrow> addr \<times> plist \<times> mm_state" where
  "seq_first l m = (case l_items l of [] \<Rightarrow> (0, l, m) | (n, d) # _ \<Rightarrow> seq_remove d l m)"

definition seq_free :: "plist \<Rightarrow> mm_state \<Rightarrow> mm_state" where
  "seq_free l m = mm_free (l_addr l) (fold mm_free (l_nodes l) m)"

section \<open>The relation between the levels\<close>

text \<open>\<open>seg ns prev p xs z nxt\<close>: from \<open>p\<close>, whose predecessor is \<open>prev\<close>, the nodes \<open>xs\<close> are
  linked in both directions up to \<open>z\<close>, whose successor is \<open>nxt\<close>.\<close>

fun seg :: "(addr \<rightharpoonup> node) \<Rightarrow> addr \<Rightarrow> addr \<Rightarrow> (addr \<times> addr) list \<Rightarrow> addr \<Rightarrow> addr \<Rightarrow> bool" where
  "seg ns prev p [] z nxt = (p = nxt \<and> z = prev)"
| "seg ns prev p ((a, d) # xs) z nxt =
     (p = a \<and> a \<noteq> 0 \<and> (\<exists>q. ns a = Some \<lparr>n_data = d, n_prev = prev, n_next = q\<rparr> \<and>
        seg ns a q xs z nxt))"

definition footprint :: "plist \<Rightarrow> addr list" where
  "footprint pl = l_addr pl # l_nodes pl"

definition list_ok :: "list_heap \<Rightarrow> plist \<Rightarrow> bool" where
  "list_ok h pl = (\<exists>l. lh_lists h (l_addr pl) = Some l \<and> l_addr pl \<noteq> 0 \<and>
     dl_size l = int (length (l_items pl)) \<and>
     seg (lh_nodes h) 0 (dl_head l) (l_items pl) (dl_tail l) 0)"

definition heap_ok :: "list_heap \<Rightarrow> plist list \<Rightarrow> bool" where
  "heap_ok h pls = (mm_inv (lh_mm h) \<and> (\<forall>pl \<in> set pls. list_ok h pl) \<and>
     distinct (concat (map footprint pls)) \<and> set (concat (map footprint pls)) \<subseteq> mm_live (lh_mm h))"

lemma seg_append:
  "seg ns prev p (xs @ ys) z nxt \<longleftrightarrow> (\<exists>m q. seg ns prev p xs m q \<and> seg ns m q ys z nxt)"
proof (induction xs arbitrary: prev p)
  case Nil
  show ?case by auto
next
  case (Cons x xs)
  then show ?case by (cases x) (simp, blast)
qed

lemma seg_nonnull: "seg ns prev p xs z nxt \<Longrightarrow> 0 \<notin> fst ` set xs"
proof (induction xs arbitrary: prev p)
  case Nil
  show ?case by simp
next
  case (Cons x xs)
  then show ?case by (cases x) (simp, blast)
qed

lemma seg_frame:
  "seg ns prev p xs z nxt \<Longrightarrow> (\<And>a. a \<in> fst ` set xs \<Longrightarrow> ns' a = ns a) \<Longrightarrow> seg ns' prev p xs z nxt"
  by (induction xs arbitrary: prev p) force+

lemma seg_head: "seg ns prev p xs z nxt \<Longrightarrow> p = (case xs of [] \<Rightarrow> nxt | (a, d) # _ \<Rightarrow> a)"
  by (cases xs) auto

lemma seg_last:
  assumes "seg ns prev p (xs @ [(a, d)]) z nxt"
  shows "z = a \<and> a \<noteq> 0 \<and> (\<exists>pr. ns a = Some \<lparr>n_data = d, n_prev = pr, n_next = nxt\<rparr> \<and>
    seg ns prev p xs pr a)"
  using assms by (auto simp: seg_append)

text \<open>Redirecting the last node's \<open>next\<close>, and the first node's \<open>prev\<close>.\<close>

lemma seg_set_next:
  assumes "seg ns prev p (xs @ [(a, d)]) z nxt" and "distinct (map fst (xs @ [(a, d)]))"
    and "ns a = Some n"
  shows "seg (ns(a \<mapsto> n_next_update (\<lambda>_. q) n)) prev p (xs @ [(a, d)]) z q"
proof -
  from seg_last [OF assms(1)] assms(3) obtain pr
    where pr: "n = \<lparr>n_data = d, n_prev = pr, n_next = nxt\<rparr>" "seg ns prev p xs pr a" "z = a" "a \<noteq> 0"
    by auto
  have "seg (ns(a \<mapsto> n_next_update (\<lambda>_. q) n)) prev p xs pr a"
    using pr(2) assms(2) by (elim seg_frame) auto
  with pr show ?thesis by (auto simp: seg_append)
qed

lemma seg_set_prev:
  assumes "seg ns prev p ((a, d) # xs) z nxt" and "distinct (map fst ((a, d) # xs))"
    and "ns a = Some n"
  shows "seg (ns(a \<mapsto> n_prev_update (\<lambda>_. prev') n)) prev' p ((a, d) # xs) z nxt"
proof -
  from assms(1,3) obtain q where q: "p = a" "a \<noteq> 0" "n = \<lparr>n_data = d, n_prev = prev, n_next = q\<rparr>"
      "seg ns a q xs z nxt"
    by auto
  have "seg (ns(a \<mapsto> n_prev_update (\<lambda>_. prev') n)) a q xs z nxt"
    using q(4) assms(2) by (elim seg_frame) force
  with q show ?thesis by simp
qed

lemma list_okE:
  assumes "list_ok h pl"
  obtains l where "lh_lists h (l_addr pl) = Some l" "l_addr pl \<noteq> 0"
    "dl_size l = int (length (l_items pl))" "seg (lh_nodes h) 0 (dl_head l) (l_items pl) (dl_tail l) 0"
  using assms by (auto simp: list_ok_def)

lemma list_ok_frame:
  assumes "list_ok h pl" and "lh_lists h' (l_addr pl) = lh_lists h (l_addr pl)"
    and "\<And>a. a \<in> set (l_nodes pl) \<Longrightarrow> lh_nodes h' a = lh_nodes h a"
  shows "list_ok h' pl"
  using assms(1) unfolding list_ok_def
  by (elim exE conjE, intro exI conjI) (use assms(2,3) in \<open>auto elim!: seg_frame\<close>)

text \<open>An operation on the first list of \<open>pls\<close> touches only that list's footprint and what was
  not allocated.\<close>

lemma heap_ok_step:
  assumes h: "heap_ok h (pl # pls)" and inv: "mm_inv (lh_mm h')" and ok: "list_ok h' pl'"
    and fp: "set (footprint pl') \<subseteq> set (footprint pl) \<union> - mm_live (lh_mm h)"
    and dist: "distinct (footprint pl')"
    and live: "set (footprint pl') \<subseteq> mm_live (lh_mm h')"
      "mm_live (lh_mm h) - set (footprint pl) \<subseteq> mm_live (lh_mm h')"
    and frame: "\<And>a. a \<in> mm_live (lh_mm h) \<Longrightarrow> a \<notin> set (footprint pl) \<Longrightarrow>
      lh_lists h' a = lh_lists h a \<and> lh_nodes h' a = lh_nodes h a"
  shows "heap_ok h' (pl' # pls)"
proof -
  let ?rest = "set (concat (map footprint pls))"
  have rest: "?rest \<inter> set (footprint pl) = {}" "?rest \<subseteq> mm_live (lh_mm h)" "\<forall>p \<in> set pls. list_ok h p"
      "distinct (concat (map footprint pls))"
    using h by (auto simp: heap_ok_def)
  have "list_ok h' p" if p: "p \<in> set pls" for p
  proof (rule list_ok_frame)
    show "list_ok h p" using rest(3) p by simp
    have fpp: "a \<in> mm_live (lh_mm h) \<and> a \<notin> set (footprint pl)" if "a \<in> set (footprint p)" for a
      using rest(1,2) p that by auto
    have "l_addr p \<in> set (footprint p)" by (simp add: footprint_def)
    with fpp frame show "lh_lists h' (l_addr p) = lh_lists h (l_addr p)" by blast
    fix a assume "a \<in> set (l_nodes p)"
    then have "a \<in> set (footprint p)" by (simp add: footprint_def)
    with fpp frame show "lh_nodes h' a = lh_nodes h a" by blast
  qed
  moreover have "set (footprint pl') \<inter> ?rest = {}" using fp rest(1,2) by blast
  moreover have "?rest \<subseteq> mm_live (lh_mm h')" using live(2) rest(1,2) by blast
  ultimately show ?thesis
    using inv ok dist live(1) rest(4) by (auto simp: heap_ok_def)
qed

lemma heap_ok_Cons:
  "heap_ok h (pl # pls) \<longleftrightarrow> heap_ok h pls \<and> list_ok h pl \<and> distinct (footprint pl) \<and>
    set (footprint pl) \<inter> set (concat (map footprint pls)) = {} \<and> set (footprint pl) \<subseteq> mm_live (lh_mm h)"
  unfolding heap_ok_def by auto

lemma heap_okD:
  assumes "heap_ok h (pl # pls)"
  shows "mm_inv (lh_mm h)" and "list_ok h pl" and "distinct (footprint pl)"
    and "set (footprint pl) \<subseteq> mm_live (lh_mm h)" and "l_addr pl \<noteq> 0"
  using assms by (auto simp: heap_ok_def list_ok_def)

section \<open>Refinement of the operations\<close>

lemma create_refines:
  assumes "heap_ok h pls"
  shows "\<exists>p h'. createDoubleLinkedListADT h = (p, h') \<and> lh_mm h' = snd (seq_create (lh_mm h)) \<and>
    p = l_addr (fst (seq_create (lh_mm h))) \<and> l_items (fst (seq_create (lh_mm h))) = [] \<and>
    heap_ok h' (if p = 0 then pls else fst (seq_create (lh_mm h)) # pls)"
proof -
  obtain p m where alloc: "mm_alloc sizeof_list (lh_mm h) = (p, m)" by force
  have inv: "mm_inv (lh_mm h)" using assms by (simp add: heap_ok_def)
  show ?thesis
  proof (cases "p = 0")
    case True
    then have "mm_live m = mm_live (lh_mm h)" "mm_inv m"
      using mm.alloc_null [OF inv] mm.alloc_inv [OF inv alloc] alloc by auto
    then show ?thesis
      using True alloc assms
      by (auto simp: createDoubleLinkedListADT_def seq_create_def heap_ok_def list_ok_def)
  next
    case False
    note facts = mm.alloc_inv [OF inv alloc] mm.alloc_live [OF inv alloc False]
      mm.alloc_fresh [OF inv alloc False]
    let ?h' = "h\<lparr>lh_mm := m, lh_lists := (lh_lists h)(p \<mapsto>
      \<lparr>dl_head = 0, dl_tail = 0, dl_current = 0, dl_size = 0\<rparr>)\<rparr>"
    let ?pl = "\<lparr>l_addr = p, l_items = []\<rparr>"
    have fresh: "p \<notin> set (concat (map footprint pls))"
      using facts(3) assms by (auto simp: heap_ok_def)
    have "list_ok ?h' q" if q: "q \<in> set pls" for q
    proof -
      have "l_addr q \<noteq> p" using fresh q by (auto simp: footprint_def)
      then show ?thesis
        using assms q by - (rule list_ok_frame [of h], simp_all add: heap_ok_def)
    qed
    moreover have "list_ok ?h' ?pl" using False by (simp add: list_ok_def)
    moreover have "set (concat (map footprint pls)) \<subseteq> mm_live m"
      using assms facts(2) unfolding heap_ok_def by blast
    moreover have "distinct (concat (map footprint pls))" using assms by (simp only: heap_ok_def)
    moreover have "lh_mm ?h' = m" by simp
    ultimately have pls: "heap_ok ?h' pls" and new: "list_ok ?h' ?pl"
      using facts(1) by (simp_all only: heap_ok_def) blast
    have fp: "footprint ?pl = [p]" by (simp add: footprint_def)
    have "heap_ok ?h' (?pl # pls)"
      unfolding heap_ok_Cons fp using fresh facts(2) by (intro conjI pls new) simp_all
    then show ?thesis
      using False alloc by (simp add: createDoubleLinkedListADT_def seq_create_def)
  qed
qed

lemma heap_ok_alloc_failed:
  assumes "heap_ok h pls" and "mm_alloc n (lh_mm h) = (0, m)"
  shows "heap_ok (h\<lparr>lh_mm := m\<rparr>) pls"
proof -
  have inv: "mm_inv (lh_mm h)" using assms(1) by (simp add: heap_ok_def)
  have "mm_live m = mm_live (lh_mm h)" "mm_inv m"
    using mm.alloc_null [OF inv assms(2)] mm.alloc_inv [OF inv assms(2)] .
  then show ?thesis using assms(1) by (simp add: heap_ok_def list_ok_def)
qed

lemma addNode_refines:
  assumes h: "heap_ok h (pl # pls)" and sq: "seq_add dat pl (lh_mm h) = (p, pl', m')"
  shows "\<exists>h'. addNode (l_addr pl) dat h = Some (p, h') \<and> lh_mm h' = m' \<and> heap_ok h' (pl' # pls)"
proof (cases "p = 0")
  case True
  with sq have "mm_alloc sizeof_node (lh_mm h) = (0, m')" "pl' = pl"
    using heap_okD(5) [OF h] by (auto simp: seq_add_def split: prod.splits)
  then show ?thesis
    using heap_ok_alloc_failed [OF h] heap_okD(5) [OF h] True by (simp add: addNode_def)
next
  case False
  with sq have alloc: "mm_alloc sizeof_node (lh_mm h) = (p, m')"
    and pl': "pl' = pl\<lparr>l_items := l_items pl @ [(p, dat)]\<rparr>"
    by (auto simp: seq_add_def split: prod.splits if_splits)
  note hd = heap_okD [OF h]
  note facts = mm.alloc_inv [OF hd(1) alloc] mm.alloc_live [OF hd(1) alloc False]
    mm.alloc_fresh [OF hd(1) alloc False]
  from hd(2) obtain l where l: "lh_lists h (l_addr pl) = Some l" "l_addr pl \<noteq> 0"
    "dl_size l = int (length (l_items pl))" "seg (lh_nodes h) 0 (dl_head l) (l_items pl) (dl_tail l) 0"
    by (rule list_okE)
  have fresh: "p \<notin> set (l_nodes pl)" "p \<noteq> l_addr pl"
    using facts(3) hd(4) by (auto simp: footprint_def)
  have dist: "distinct (l_nodes pl)" using hd(3) by (simp add: footprint_def)
  have "\<exists>ns l'. addNode (l_addr pl) dat h = Some (p, h\<lparr>lh_mm := m', lh_nodes := ns,
        lh_lists := (lh_lists h)(l_addr pl \<mapsto> l')\<rparr>) \<and>
      seg ns 0 (dl_head l') (l_items pl @ [(p, dat)]) (dl_tail l') 0 \<and>
      dl_size l' = dl_size l + 1 \<and> (\<forall>b. b \<noteq> p \<longrightarrow> b \<notin> set (l_nodes pl) \<longrightarrow> ns b = lh_nodes h b)"
  proof (cases "l_items pl" rule: rev_cases)
    case Nil
    then show ?thesis
      using l False alloc
      by (intro exI [of _ "(lh_nodes h)(p \<mapsto> \<lparr>n_data = dat, n_prev = 0, n_next = 0\<rparr>)"]
          exI [of _ "l\<lparr>dl_head := p, dl_tail := p, dl_size := 1\<rparr>"])
        (auto simp: addNode_def deref_simps)
  next
    case (snoc xs y)
    obtain a d where y: "y = (a, d)" by force
    let ?ns = "(lh_nodes h)(p \<mapsto> \<lparr>n_data = dat, n_prev = 0, n_next = 0\<rparr>)"
    have "seg ?ns 0 (dl_head l) (l_items pl) (dl_tail l) 0"
      using l(4) fresh(1) by (elim seg_frame) auto
    then have s: "seg ?ns 0 (dl_head l) (xs @ [(a, d)]) (dl_tail l) 0" by (simp add: snoc y)
    from seg_last [OF s] obtain pr where a: "dl_tail l = a" "a \<noteq> 0"
        "?ns a = Some \<lparr>n_data = d, n_prev = pr, n_next = 0\<rparr>"
      by blast
    have "a \<noteq> p" using fresh(1) by (auto simp: snoc y)
    from seg_set_next [OF s _ a(3), of p] dist
    have s': "seg (?ns(a \<mapsto> \<lparr>n_data = d, n_prev = pr, n_next = p\<rparr>)) 0 (dl_head l) (xs @ [(a, d)]) a p"
      by (simp add: snoc y a(1) del: fun_upd_apply)
    let ?ns' = "?ns(a \<mapsto> \<lparr>n_data = d, n_prev = pr, n_next = p\<rparr>,
        p \<mapsto> \<lparr>n_data = dat, n_prev = a, n_next = 0\<rparr>)"
    have "seg ?ns' 0 (dl_head l) (xs @ [(a, d)]) a p"
      using s' fresh(1) by (elim seg_frame) (auto simp: snoc y)
    then have "seg ?ns' 0 (dl_head l) ((xs @ [(a, d)]) @ [(p, dat)]) p 0"
      unfolding seg_append using False by fastforce
    then show ?thesis
      using l False alloc a \<open>a \<noteq> p\<close>
      by (intro exI [of _ ?ns'] exI [of _ "l\<lparr>dl_tail := p, dl_size := dl_size l + 1\<rparr>"])
        (simp add: addNode_def deref_simps snoc y store_def deref_def)
  qed
  then obtain ns l' where ns: "addNode (l_addr pl) dat h = Some (p, h\<lparr>lh_mm := m', lh_nodes := ns,
        lh_lists := (lh_lists h)(l_addr pl \<mapsto> l')\<rparr>)"
      "seg ns 0 (dl_head l') (l_items pl @ [(p, dat)]) (dl_tail l') 0"
      "dl_size l' = dl_size l + 1" "\<And>b. b \<noteq> p \<Longrightarrow> b \<notin> set (l_nodes pl) \<Longrightarrow> ns b = lh_nodes h b"
    by blast
  have fr: "ns a = lh_nodes h a" if "a \<in> mm_live (lh_mm h)" "a \<notin> set (l_nodes pl)" for a
    using that ns(4) [of a] facts(3) by metis
  have "heap_ok (h\<lparr>lh_mm := m', lh_nodes := ns, lh_lists := (lh_lists h)(l_addr pl \<mapsto> l')\<rparr>) (pl' # pls)"
  proof (rule heap_ok_step [OF h])
    show "list_ok (h\<lparr>lh_mm := m', lh_nodes := ns, lh_lists := (lh_lists h)(l_addr pl \<mapsto> l')\<rparr>) pl'"
      using ns(2,3) l by (simp add: list_ok_def pl')
  qed (use facts hd(3,4) fresh fr in \<open>auto simp: pl' footprint_def\<close>)
  with ns(1) show ?thesis by simp
qed

lemma cut_None: "cut d xs = None \<longleftrightarrow> d \<notin> snd ` set xs"
  by (induction d xs rule: cut.induct) auto

lemma cut_Some:
  "cut d xs = Some (n, zs) \<Longrightarrow> \<exists>ys ws. xs = ys @ (n, d) # ws \<and> zs = ys @ ws \<and> d \<notin> snd ` set ys"
proof (induction d xs arbitrary: zs rule: cut.induct)
  case (1 d)
  then show ?case by simp
next
  case (2 d m e xs)
  show ?case
  proof (cases "e = d")
    case True
    with 2(2) show ?thesis by (intro exI [of _ "[]"] exI [of _ xs]) simp
  next
    case False
    with 2(2) obtain ys where "cut d xs = Some (n, ys)" "zs = (m, e) # ys" by auto
    with 2(1) [OF False, of ys] obtain us ws where
      "xs = us @ (n, d) # ws" "zs = ((m, e) # us) @ ws" "d \<notin> snd ` set us" by auto
    with False show ?thesis by (intro exI [of _ "(m, e) # us"] exI [of _ ws]) auto
  qed
qed

lemma seg_relink_next:
  assumes "seg ns 0 p xs pr n" and "distinct (map fst xs)"
  shows "pr \<noteq> 0 \<longleftrightarrow> xs \<noteq> []" and "pr \<noteq> 0 \<Longrightarrow> pr \<in> fst ` set xs \<and> (\<exists>c. ns pr = Some c)"
    and "pr \<noteq> 0 \<Longrightarrow> ns pr = Some c \<Longrightarrow> seg (ns(pr \<mapsto> n_next_update (\<lambda>_. q) c)) 0 p xs pr q"
proof -
  have "pr \<noteq> 0 \<and> pr \<in> fst ` set xs \<and> (\<exists>c. ns pr = Some c) \<and>
      (\<forall>c. ns pr = Some c \<longrightarrow> seg (ns(pr \<mapsto> n_next_update (\<lambda>_. q) c)) 0 p xs pr q)" if "xs \<noteq> []"
  proof (cases xs rule: rev_cases)
    case (snoc us y)
    obtain a d where y: "y = (a, d)" by force
    with seg_last [of ns 0 p us a d pr n] seg_set_next [of ns 0 p us a d pr n _ q] assms snoc
    show ?thesis by (auto simp del: fun_upd_apply)
  qed (use that in simp)
  then show "pr \<noteq> 0 \<longleftrightarrow> xs \<noteq> []" and "pr \<noteq> 0 \<Longrightarrow> pr \<in> fst ` set xs \<and> (\<exists>c. ns pr = Some c)"
    and "pr \<noteq> 0 \<Longrightarrow> ns pr = Some c \<Longrightarrow> seg (ns(pr \<mapsto> n_next_update (\<lambda>_. q) c)) 0 p xs pr q"
    using assms(1) by (cases "xs = []"; auto simp del: fun_upd_apply)+
qed

lemma seg_relink_prev:
  assumes "seg ns n q ys te 0" and "distinct (map fst ys)"
  shows "q \<noteq> 0 \<longleftrightarrow> ys \<noteq> []" and "q \<noteq> 0 \<Longrightarrow> q \<in> fst ` set ys \<and> (\<exists>c. ns q = Some c)"
    and "q \<noteq> 0 \<Longrightarrow> ns q = Some c \<Longrightarrow> seg (ns(q \<mapsto> n_prev_update (\<lambda>_. pr) c)) pr q ys te 0"
proof -
  have "q \<noteq> 0 \<and> q \<in> fst ` set ys \<and> (\<exists>c. ns q = Some c) \<and>
      (\<forall>c. ns q = Some c \<longrightarrow> seg (ns(q \<mapsto> n_prev_update (\<lambda>_. pr) c)) pr q ys te 0)" if "ys \<noteq> []"
  proof (cases ys)
    case (Cons y us)
    obtain a d where y: "y = (a, d)" by force
    from assms(1) have "q = a" "a \<noteq> 0" "\<exists>c. ns a = Some c" by (auto simp: Cons y)
    moreover have "seg (ns(a \<mapsto> n_prev_update (\<lambda>_. pr) c)) pr q ys te 0" if "ns a = Some c" for c
      using seg_set_prev [of ns n q a d us te 0 c pr] assms that by (simp only: Cons y)
    ultimately show ?thesis by (simp add: Cons y)
  qed (use that in simp)
  then show "q \<noteq> 0 \<longleftrightarrow> ys \<noteq> []" and "q \<noteq> 0 \<Longrightarrow> q \<in> fst ` set ys \<and> (\<exists>c. ns q = Some c)"
    and "q \<noteq> 0 \<Longrightarrow> ns q = Some c \<Longrightarrow> seg (ns(q \<mapsto> n_prev_update (\<lambda>_. pr) c)) pr q ys te 0"
    using assms(1) by (cases "ys = []"; auto simp del: fun_upd_apply)+
qed

lemma unlink_refines:
  assumes h: "heap_ok h (pl # pls)" and items: "l_items pl = xs @ (n, d) # ys"
  shows "\<exists>h'. unlink (l_addr pl) n h = Some (d, h') \<and> lh_mm h' = mm_free n (lh_mm h) \<and>
    heap_ok h' (pl\<lparr>l_items := xs @ ys\<rparr> # pls)"
proof -
  note hd = heap_okD [OF h]
  from hd(2) obtain l where l: "lh_lists h (l_addr pl) = Some l" "l_addr pl \<noteq> 0"
    "dl_size l = int (length (l_items pl))" "seg (lh_nodes h) 0 (dl_head l) (l_items pl) (dl_tail l) 0"
    by (rule list_okE)
  let ?ns = "lh_nodes h"
  from l(4) obtain pr q where sg: "seg ?ns 0 (dl_head l) xs pr n" "n \<noteq> 0"
      "?ns n = Some \<lparr>n_data = d, n_prev = pr, n_next = q\<rparr>" "seg ?ns n q ys (dl_tail l) 0"
    by (auto simp: items seg_append)
  have dist: "distinct (map fst xs)" "distinct (map fst ys)" "n \<notin> fst ` set xs" "n \<notin> fst ` set ys"
      "fst ` set xs \<inter> fst ` set ys = {}" "l_addr pl \<notin> fst ` set (l_items pl)"
    using hd(3) by (auto simp: footprint_def items)
  note A = seg_relink_next [OF sg(1) dist(1)] and B = seg_relink_prev [OF sg(4) dist(2)]
  define ns1 where "ns1 = (if pr \<noteq> 0 then ?ns(pr \<mapsto> n_next_update (\<lambda>_. q) (the (?ns pr))) else ?ns)"
  define ns2 where "ns2 = (if q \<noteq> 0 then ns1(q \<mapsto> n_prev_update (\<lambda>_. pr) (the (?ns q))) else ns1)"
  define l' where "l' = l\<lparr>dl_head := if pr \<noteq> 0 then dl_head l else q,
    dl_tail := if q \<noteq> 0 then dl_tail l else pr, dl_size := dl_size l - 1\<rparr>"
  have s1: "seg ns1 0 (dl_head l') xs pr q"
    using A(2) A(3) [of "the (?ns pr)" q] sg(1) A(1) by (auto simp: ns1_def l'_def simp del: fun_upd_apply)
  have s1': "seg (ns2(n := None)) 0 (dl_head l') xs pr q"
    using s1 B(2) dist(3,5) by (elim seg_frame) (auto simp: ns2_def)
  have q: "ns1 q = ?ns q" if "q \<noteq> 0"
    using that B(2) A(2) dist(5) by (auto simp: ns1_def)
  have "seg ns1 n q ys (dl_tail l) 0"
    using sg(4) A(2) dist(5) by (elim seg_frame) (auto simp: ns1_def)
  from seg_relink_prev [OF this dist(2)] have s2: "seg ns2 pr q ys (dl_tail l') 0"
    using q B(2) sg(4) B(1) by (auto simp: ns2_def l'_def simp del: fun_upd_apply)
  have s2': "seg (ns2(n := None)) pr q ys (dl_tail l') 0"
    using s2 dist(4) by (elim seg_frame) auto
  let ?h' = "h\<lparr>lh_mm := mm_free n (lh_mm h), lh_nodes := ns2(n := None),
    lh_lists := (lh_lists h)(l_addr pl \<mapsto> l')\<rparr>"
  have un: "unlink (l_addr pl) n h = Some (d, ?h')"
    using l sg A(2) B(2) q
    by (auto simp: unlink_def deref_simps ns1_def [symmetric] l'_def store_def deref_def ns2_def
        simp del: fun_upd_apply) (auto simp: ns1_def)
  have live: "n \<in> mm_live (lh_mm h)" using hd(4) by (auto simp: footprint_def items)
  have "heap_ok ?h' (pl\<lparr>l_items := xs @ ys\<rparr> # pls)"
  proof (rule heap_ok_step [OF h])
    have "seg (ns2(n := None)) 0 (dl_head l') (xs @ ys) (dl_tail l') 0"
      using s1' s2' by (auto simp: seg_append)
    then show "list_ok ?h' (pl\<lparr>l_items := xs @ ys\<rparr>)"
      using l(2,3) by (simp add: list_ok_def items l'_def)
    show "mm_inv (lh_mm ?h')" using mm.free_inv [OF hd(1) live] by simp
    show "set (footprint (pl\<lparr>l_items := xs @ ys\<rparr>)) \<subseteq> set (footprint pl) \<union> - mm_live (lh_mm h)"
      "distinct (footprint (pl\<lparr>l_items := xs @ ys\<rparr>))"
      using hd(3) by (auto simp: footprint_def items)
    show "set (footprint (pl\<lparr>l_items := xs @ ys\<rparr>)) \<subseteq> mm_live (lh_mm ?h')"
      "mm_live (lh_mm h) - set (footprint pl) \<subseteq> mm_live (lh_mm ?h')"
      using hd(4) mm.free_live [OF hd(1) live] dist(3,4,6) by (auto simp: footprint_def items)
    fix a assume "a \<in> mm_live (lh_mm h)" "a \<notin> set (footprint pl)"
    then show "lh_lists ?h' a = lh_lists h a \<and> lh_nodes ?h' a = lh_nodes h a"
      using A(2) B(2) by (auto simp: footprint_def items ns1_def ns2_def)
  qed
  with un show ?thesis by simp
qed

lemma removeNode_from_cut:
  "seg (lh_nodes h) prev cur xs z 0 \<Longrightarrow> removeNode_from lst d cur h =
    (case cut d xs of None \<Rightarrow> Some (0, h) | Some (n, _) \<Rightarrow> unlink lst n h)"
proof (induction xs arbitrary: prev cur)
  case Nil
  then show ?case by (simp add: removeNode_from.simps)
next
  case (Cons x xs)
  obtain a e where x: "x = (a, e)" by force
  with Cons(2) obtain q where q: "cur = a" "a \<noteq> 0"
      "lh_nodes h a = Some \<lparr>n_data = e, n_prev = prev, n_next = q\<rparr>" "seg (lh_nodes h) a q xs z 0"
    by auto
  show ?case
    using q x Cons(1) [OF q(4)]
    by (subst removeNode_from.simps) (auto simp: deref_simps split: option.splits)
qed

lemma removeNode_seq:
  assumes h: "heap_ok h (pl # pls)" and sq: "seq_remove d pl (lh_mm h) = (r, pl', m')"
  shows "\<exists>h'. removeNode (l_addr pl) d h = Some (r, h') \<and> lh_mm h' = m' \<and> heap_ok h' (pl' # pls)"
proof (cases "d = 0")
  case True
  with h sq show ?thesis by (simp add: removeNode_def seq_remove_def)
next
  case False
  from heap_okD(2) [OF h] obtain l where l: "lh_lists h (l_addr pl) = Some l" "l_addr pl \<noteq> 0"
    "seg (lh_nodes h) 0 (dl_head l) (l_items pl) (dl_tail l) 0"
    by (rule list_okE)
  have eq: "removeNode (l_addr pl) d h =
      (case cut d (l_items pl) of None \<Rightarrow> Some (0, h) | Some (n, _) \<Rightarrow> unlink (l_addr pl) n h)"
    using False l removeNode_from_cut [OF l(3), of "l_addr pl" d]
    by (simp add: removeNode_def deref_simps)
  show ?thesis
  proof (cases "cut d (l_items pl)")
    case None
    with h sq False eq show ?thesis by (simp add: seq_remove_def)
  next
    case (Some c)
    obtain n zs where c: "c = (n, zs)" by force
    from cut_Some [OF Some [unfolded c]] obtain xs ys where
      x: "l_items pl = xs @ (n, d) # ys" "zs = xs @ ys" by blast
    from unlink_refines [OF h x(1)] show ?thesis
      using Some sq False eq by (auto simp: seq_remove_def c x(2))
  qed
qed

lemma getFirstData_seq:
  assumes h: "heap_ok h (pl # pls)" and sq: "seq_first pl (lh_mm h) = (r, pl', m')"
  shows "\<exists>h'. getFirstData (l_addr pl) h = Some (r, h') \<and> lh_mm h' = m' \<and> heap_ok h' (pl' # pls)"
proof -
  from heap_okD(2) [OF h] obtain l where l: "lh_lists h (l_addr pl) = Some l" "l_addr pl \<noteq> 0"
    "dl_size l = int (length (l_items pl))" "seg (lh_nodes h) 0 (dl_head l) (l_items pl) (dl_tail l) 0"
    by (rule list_okE)
  show ?thesis
  proof (cases "l_items pl")
    case Nil
    with l sq h show ?thesis by (auto simp: getFirstData_def deref_simps seq_first_def)
  next
    case (Cons x xs)
    obtain a d where x: "x = (a, d)" by force
    have "getFirstData (l_addr pl) h = removeNode (l_addr pl) d h"
      using l by (auto simp: getFirstData_def deref_simps Cons x)
    with removeNode_seq [OF h] sq show ?thesis by (simp add: seq_first_def Cons x)
  qed
qed

lemma free_nodes_all:
  "seg (lh_nodes h) prev cur xs z 0 \<Longrightarrow> distinct (map fst xs) \<Longrightarrow> free_nodes cur h =
    Some (h\<lparr>lh_mm := fold mm_free (map fst xs) (lh_mm h),
           lh_nodes := (\<lambda>a. if a \<in> fst ` set xs then None else lh_nodes h a)\<rparr>)"
proof (induction xs arbitrary: prev cur h)
  case Nil
  then show ?case by (simp add: free_nodes.simps)
next
  case (Cons x xs)
  obtain a e where x: "x = (a, e)" by force
  with Cons(2) obtain q where q: "cur = a" "a \<noteq> 0"
      "lh_nodes h a = Some \<lparr>n_data = e, n_prev = prev, n_next = q\<rparr>" "seg (lh_nodes h) a q xs z 0"
    by auto
  let ?h = "h\<lparr>lh_mm := mm_free a (lh_mm h), lh_nodes := (lh_nodes h)(a := None)\<rparr>"
  have "seg (lh_nodes ?h) a q xs z 0"
    using q(4) Cons(3) x by simp (elim seg_frame, auto)
  from Cons(1) [OF this] Cons(3) x have "free_nodes q ?h = Some (?h\<lparr>
      lh_mm := fold mm_free (map fst xs) (lh_mm ?h),
      lh_nodes := (\<lambda>a. if a \<in> fst ` set xs then None else lh_nodes ?h a)\<rparr>)"
    by simp
  moreover have "(\<lambda>b. if b \<in> fst ` set xs then None else lh_nodes ?h b) =
      (\<lambda>b. if b \<in> fst ` set (x # xs) then None else lh_nodes h b)"
    by (auto simp: x)
  ultimately show ?case
    using q x by (subst free_nodes.simps) (simp add: deref_simps del: fun_upd_apply)
qed

lemma freeLinkedListADT_seq:
  assumes h: "heap_ok h (pl # pls)"
  shows "\<exists>h'. freeLinkedListADT (l_addr pl) h = Some h' \<and> lh_mm h' = seq_free pl (lh_mm h) \<and>
    heap_ok h' pls \<and> mm_live (lh_mm h') = mm_live (lh_mm h) - set (footprint pl)"
proof -
  note hd = heap_okD [OF h]
  from hd(2) obtain l where l: "lh_lists h (l_addr pl) = Some l" "l_addr pl \<noteq> 0"
    "seg (lh_nodes h) 0 (dl_head l) (l_items pl) (dl_tail l) 0"
    by (rule list_okE)
  have dist: "distinct (l_nodes pl @ [l_addr pl])" "set (l_nodes pl @ [l_addr pl]) = set (footprint pl)"
    using hd(3) by (auto simp: footprint_def)
  have fold: "fold mm_free (l_nodes pl @ [l_addr pl]) (lh_mm h) = seq_free pl (lh_mm h)"
    by (simp add: seq_free_def)
  have m: "mm_inv (seq_free pl (lh_mm h))"
      "mm_live (seq_free pl (lh_mm h)) = mm_live (lh_mm h) - set (footprint pl)"
    using mm.release_fold [OF hd(1) _ dist(1)] hd(4) dist(2) by (simp_all only: fold)
  let ?h' = "h\<lparr>lh_mm := seq_free pl (lh_mm h),
    lh_nodes := (\<lambda>a. if a \<in> fst ` set (l_items pl) then None else lh_nodes h a),
    lh_lists := (lh_lists h)(l_addr pl := None)\<rparr>"
  have "freeLinkedListADT (l_addr pl) h = Some ?h'"
    using l dist(1) by (simp add: freeLinkedListADT_def deref_simps free_nodes_all seq_free_def)
  moreover have "heap_ok ?h' pls"
  proof -
    let ?rest = "set (concat (map footprint pls))"
    have rest: "?rest \<inter> set (footprint pl) = {}" "?rest \<subseteq> mm_live (lh_mm h)"
        "distinct (concat (map footprint pls))" "\<forall>p \<in> set pls. list_ok h p"
      using h by (auto simp: heap_ok_def)
    have "list_ok ?h' p" if p: "p \<in> set pls" for p
    proof (rule list_ok_frame)
      show "list_ok h p" using rest(4) p by simp
      have out: "a \<notin> set (footprint pl)" if "a \<in> set (footprint p)" for a
        using rest(1) p that by auto
      show "lh_lists ?h' (l_addr p) = lh_lists h (l_addr p)"
        using out [of "l_addr p"] by (auto simp: footprint_def)
      show "lh_nodes ?h' a = lh_nodes h a" if "a \<in> set (l_nodes p)" for a
        using out [of a] that by (auto simp: footprint_def)
    qed
    moreover have "?rest \<subseteq> mm_live (lh_mm ?h')" using rest(1,2) m(2) by auto
    ultimately show ?thesis using m(1) rest(3) unfolding heap_ok_def by simp
  qed
  ultimately show ?thesis using m(2) by simp
qed

section \<open>Iteration\<close>

text \<open>The clients' loop \<open>toBegin(l); while (hasNext(l)) { x = nextInList(l); ... }\<close>, which collects
  what it visits.\<close>

partial_function (option) drain :: "addr \<Rightarrow> list_heap \<Rightarrow> (addr list \<times> list_heap) option" where
  "drain lst h = do {
     more \<leftarrow> hasNext lst h;
     if \<not> more then Some ([], h)
     else do {
       (d, h) \<leftarrow> nextInList lst h;
       (ds, h) \<leftarrow> drain lst h;
       Some (d # ds, h)
     }
   }"

definition visit :: "addr \<Rightarrow> list_heap \<Rightarrow> (addr list \<times> list_heap) option" where
  "visit lst h = do { h \<leftarrow> toBegin lst h; drain lst h }"

lemma drain_seg:
  "lh_lists h lst = Some l \<Longrightarrow> lst \<noteq> 0 \<Longrightarrow> seg (lh_nodes h) prev (dl_current l) xs z 0 \<Longrightarrow>
   drain lst h = Some (map snd xs, h\<lparr>lh_lists := (lh_lists h)(lst \<mapsto> l\<lparr>dl_current := 0\<rparr>)\<rparr>)"
proof (induction xs arbitrary: prev h l)
  case Nil
  have "l\<lparr>dl_current := 0\<rparr> = l" using Nil(3) by (cases l) simp
  then have same: "(lh_lists h)(lst \<mapsto> l\<lparr>dl_current := 0\<rparr>) = lh_lists h"
    using Nil(1) by (simp add: fun_upd_idem)
  have "h\<lparr>lh_lists := lh_lists h\<rparr> = h" by (cases h) simp
  with Nil show ?case unfolding same by (simp add: drain.simps hasNext_def deref_simps)
next
  case (Cons x xs)
  obtain a e where x: "x = (a, e)" by force
  with Cons(4) obtain q where q: "dl_current l = a" "a \<noteq> 0"
      "lh_nodes h a = Some \<lparr>n_data = e, n_prev = prev, n_next = q\<rparr>" "seg (lh_nodes h) a q xs z 0"
    by auto
  let ?h = "h\<lparr>lh_lists := (lh_lists h)(lst \<mapsto> l\<lparr>dl_current := q\<rparr>)\<rparr>"
  have "drain lst ?h = Some (map snd xs, ?h\<lparr>lh_lists := (lh_lists ?h)(lst \<mapsto>
      (l\<lparr>dl_current := q\<rparr>)\<lparr>dl_current := 0\<rparr>)\<rparr>)"
    using q(4) Cons(3) by (intro Cons(1)) simp_all
  with Cons(2,3) q x show ?case
    by (subst drain.simps) (simp add: hasNext_def nextInList_def deref_simps)
qed

lemma visit_seq:
  assumes h: "heap_ok h (pl # pls)"
  shows "\<exists>h'. visit (l_addr pl) h = Some (l_data pl, h') \<and> lh_mm h' = lh_mm h \<and> heap_ok h' (pl # pls)"
proof -
  note hd = heap_okD [OF h]
  from hd(2) obtain l where l: "lh_lists h (l_addr pl) = Some l" "l_addr pl \<noteq> 0"
    "dl_size l = int (length (l_items pl))" "seg (lh_nodes h) 0 (dl_head l) (l_items pl) (dl_tail l) 0"
    by (rule list_okE)
  let ?h0 = "h\<lparr>lh_lists := (lh_lists h)(l_addr pl \<mapsto> l\<lparr>dl_current := dl_head l\<rparr>)\<rparr>"
  let ?h' = "h\<lparr>lh_lists := (lh_lists h)(l_addr pl \<mapsto> l\<lparr>dl_current := 0\<rparr>)\<rparr>"
  have "drain (l_addr pl) ?h0 = Some (l_data pl, ?h')"
    using drain_seg [of ?h0 "l_addr pl" "l\<lparr>dl_current := dl_head l\<rparr>" 0 "l_items pl" "dl_tail l"] l by simp
  then have "visit (l_addr pl) h = Some (l_data pl, ?h')"
    using l by (simp add: visit_def toBegin_def deref_simps)
  moreover have "heap_ok ?h' (pl # pls)"
    by (rule heap_ok_step [OF h]) (use hd l in \<open>auto simp: list_ok_def footprint_def\<close>)
  ultimately show ?thesis by simp
qed

section \<open>The queue contract\<close>

text \<open>A list with the manager its nodes come from, as the process queues use it: \<open>addNode\<close> at the
  tail, \<open>getFirstData\<close> at the head.\<close>

definition list_put :: "addr \<Rightarrow> plist \<times> mm_state \<Rightarrow> bool \<times> plist \<times> mm_state" where
  "list_put d q = (let (p, l, m) = seq_add d (fst q) (snd q) in (p \<noteq> 0, l, m))"

definition list_get :: "plist \<times> mm_state \<Rightarrow> (addr \<times> plist \<times> mm_state) option" where
  "list_get q = (let (d, l, m) = seq_first (fst q) (snd q) in if d = 0 then None else Some (d, l, m))"

definition non_null :: "addr \<Rightarrow> bool" where
  "non_null d = (d \<noteq> 0)"

definition queue_ok :: "plist \<times> mm_state \<Rightarrow> bool" where
  "queue_ok q = (mm_inv (snd q) \<and> distinct (footprint (fst q)) \<and>
     set (footprint (fst q)) \<subseteq> mm_live (snd q) \<and> 0 \<notin> set (l_data (fst q)))"

lemma seq_first_Cons:
  assumes "l_items l = (n, d) # xs" and "d \<noteq> 0"
  shows "seq_first l m = (d, l\<lparr>l_items := xs\<rparr>, mm_free n m)"
  using assms by (simp add: seq_first_def seq_remove_def)

lemma queue_ok_add:
  assumes "queue_ok (l, m)" and "seq_add d l m = (p, l', m')" and "d \<noteq> 0"
  shows "queue_ok (l', m')" and "l_data l' = (if p = 0 then l_data l else l_data l @ [d])"
    and "l_addr l' = l_addr l"
proof -
  obtain p' m1 where alloc: "mm_alloc sizeof_node m = (p', m1)" by force
  have "l_addr l \<noteq> 0"
    using assms(1) mm.null_not_live [of m] by (auto simp: queue_ok_def footprint_def)
  with alloc assms(2) have e: "p' = p" "m1 = m'" "l' = (if p = 0 then l else l\<lparr>l_items := l_items l @ [(p, d)]\<rparr>)"
    by (auto simp: seq_add_def)
  have inv: "mm_inv m" using assms(1) by (simp add: queue_ok_def)
  have "mm_inv m'" using mm.alloc_inv [OF inv] alloc e by blast
  moreover have "mm_live m' = mm_live m" if "p = 0" using mm.alloc_null [OF inv] alloc e that by blast
  moreover have "mm_live m' = insert p (mm_live m) \<and> p \<notin> mm_live m" if "p \<noteq> 0"
    using mm.alloc_live [OF inv _ that] mm.alloc_fresh [OF inv _ that] alloc e by blast
  ultimately show "queue_ok (l', m')"
    using assms(1,3) by (cases "p = 0") (auto simp: queue_ok_def e(3) footprint_def)
  show "l_data l' = (if p = 0 then l_data l else l_data l @ [d])" and "l_addr l' = l_addr l"
    by (simp_all add: e(3))
qed

lemma queue_ok_first:
  assumes "queue_ok (l, m)" and "l_items l = (n, d) # xs"
  shows "queue_ok (l\<lparr>l_items := xs\<rparr>, mm_free n m)"
proof -
  have inv: "mm_inv m" "n \<in> mm_live m" using assms by (auto simp: queue_ok_def footprint_def)
  with assms show ?thesis
    by (auto simp: queue_ok_def footprint_def mm.free_live mm.free_inv)
qed

lemma list_get_cases:
  assumes "queue_ok q"
  obtains "l_items (fst q) = []" "list_get q = None"
  | n d xs where "l_items (fst q) = (n, d) # xs" "d \<noteq> 0"
      "list_get q = Some (d, (fst q)\<lparr>l_items := xs\<rparr>, mm_free n (snd q))"
proof (cases "l_items (fst q)")
  case Nil
  then show ?thesis using that(1) by (simp add: list_get_def seq_first_def)
next
  case (Cons x xs)
  obtain n d where x: "x = (n, d)" by force
  have "d \<noteq> 0" using assms by (auto simp: queue_ok_def Cons x)
  with Cons x seq_first_Cons [of "fst q" n d xs "snd q"] show ?thesis
    by (intro that(2)) (simp_all add: list_get_def)
qed

interpretation list_queue: fifo list_put list_get "\<lambda>q. l_data (fst q)" queue_ok non_null
proof unfold_locales
  fix q q' :: "plist \<times> mm_state" and x ok
  assume inv: "queue_ok q"
  obtain l m where q: "q = (l, m)" by force
  { assume "non_null x" and put: "list_put x q = (ok, q')"
    then have x: "x \<noteq> 0" by (simp add: non_null_def)
    obtain p l' m' where add: "seq_add x l m = (p, l', m')" by (cases "seq_add x l m")
    with put have "q' = (l', m')" "ok = (p \<noteq> 0)" by (auto simp: list_put_def q)
    with queue_ok_add [OF inv [unfolded q] add x]
    show "queue_ok q'" and "l_data (fst q') = (if ok then l_data (fst q) @ [x] else l_data (fst q))"
      by (auto simp: q) }
  show "list_get q = None \<longleftrightarrow> l_data (fst q) = []"
    using inv by (cases rule: list_get_cases) simp_all
  assume get: "list_get q = Some (x, q')"
  show "queue_ok q'"
    using inv
  proof (cases rule: list_get_cases)
    case (2 n d xs)
    with get queue_ok_first [of l m n d xs] inv show ?thesis by (simp add: q)
  qed (use get in simp)
  show "l_data (fst q) = x # l_data (fst q')"
    using inv get by (cases rule: list_get_cases) auto
qed

section \<open>Properties\<close>

definition small_heap :: list_heap where
  "small_heap = \<lparr>lh_mm = BitmapMM small_bitmap, lh_lists = Map.empty, lh_nodes = Map.empty\<rparr>"

definition small_list :: list_heap where
  "small_list = snd (createDoubleLinkedListADT small_heap)"

lemma small_alloc: "bitmap_alloc 32 small_bitmap =
    (100, small_bitmap\<lparr>manager := (manager small_bitmap)\<lparr>
       bitmap := (\<lambda>_. FREE)(0 := BORDER), usedBlocksCount := 1\<rparr>\<rparr>)"
  by (simp add: bitmap_alloc_def small_bitmap_def POW2_def sub64_def add64_def alloc_scan.simps
      fill_range.simps Let_def)

lemma small_list_ok: "heap_ok small_list [\<lparr>l_addr = 100, l_items = []\<rparr>]"
proof -
  have "heap_ok small_heap []" by (simp add: heap_ok_def small_heap_def small_bitmap_inv)
  from create_refines [OF this] show ?thesis
    by (auto simp: seq_create_def sizeof_list_def small_alloc small_heap_def small_list_def)
qed

lemma small_list_mm: "lh_mm small_list = BitmapMM (small_bitmap\<lparr>manager := (manager small_bitmap)\<lparr>
    bitmap := (\<lambda>_. FREE)(0 := BORDER), usedBlocksCount := 1\<rparr>\<rparr>)"
  by (simp add: small_list_def createDoubleLinkedListADT_def sizeof_list_def small_heap_def small_alloc)

text \<open>
  On a heap of well-formed, pairwise disjoint lists \<open>addNode\<close> never follows
  a bad pointer. Either the allocation fails, it returns NULL and every list holds what it held,
  or it returns the new node, the list's data grow by the new pointer at the tail, and all the
  other lists are untouched and still disjoint.
\<close>

theorem addNode_appends:
  assumes "heap_ok h (pl # pls)"
  shows "\<exists>p h' pl'. addNode (l_addr pl) d h = Some (p, h') \<and> heap_ok h' (pl' # pls) \<and>
    l_addr pl' = l_addr pl \<and> l_data pl' = (if p = 0 then l_data pl else l_data pl @ [d]) \<and>
    mm_live (lh_mm h') = mm_live (lh_mm h) \<union> (if p = 0 then {} else {p})"
proof -
  note inv = heap_okD(1) [OF assms]
  obtain p m where alloc: "mm_alloc sizeof_node (lh_mm h) = (p, m)" by force
  then have sq: "seq_add d pl (lh_mm h) =
      (p, if p = 0 then pl else pl\<lparr>l_items := l_items pl @ [(p, d)]\<rparr>, m)"
    using heap_okD(5) [OF assms] by (simp add: seq_add_def)
  have "mm_live m = mm_live (lh_mm h) \<union> (if p = 0 then {} else {p})"
    using mm.alloc_null [OF inv, of sizeof_node m] mm.alloc_live [OF inv alloc] alloc by auto
  with addNode_refines [OF assms sq] show ?thesis by fastforce
qed

theorem addNode_appends_witness:
  "\<exists>p h'. addNode 100 7 small_list = Some (p, h')"
  using addNode_appends [OF small_list_ok, of 7] by auto

text \<open>
  C29. \<open>removeNode\<close> terminates without a bad dereference, removes the first node
  that holds the pointer, returns it and gives exactly that node back to the memory manager;
  when no node holds it, it returns NULL and nothing changes. Other lists are untouched.
\<close>

theorem removeNode_exact:
  assumes "heap_ok h (pl # pls)" and "d \<noteq> 0"
  shows "\<exists>h' pl'. removeNode (l_addr pl) d h = Some (if d \<in> set (l_data pl) then d else 0, h') \<and>
    heap_ok h' (pl' # pls) \<and> l_addr pl' = l_addr pl \<and> l_data pl' = remove1 d (l_data pl) \<and>
    card (mm_live (lh_mm h) - mm_live (lh_mm h')) = (if d \<in> set (l_data pl) then 1 else 0)"
proof (cases "cut d (l_items pl)")
  case None
  then have "d \<notin> set (l_data pl)" by (simp add: cut_None)
  moreover have "seq_remove d pl (lh_mm h) = (0, pl, lh_mm h)" using None by (simp add: seq_remove_def)
  from removeNode_seq [OF assms(1) this] obtain h'
    where "removeNode (l_addr pl) d h = Some (0, h')" "lh_mm h' = lh_mm h" "heap_ok h' (pl # pls)" by blast
  ultimately show ?thesis by (intro exI [of _ h'] exI [of _ pl]) (simp add: remove1_idem)
next
  case (Some c)
  obtain n zs where c: "c = (n, zs)" by force
  from cut_Some [OF Some [unfolded c]] obtain xs ys where
    x: "l_items pl = xs @ (n, d) # ys" "zs = xs @ ys" "d \<notin> snd ` set xs" by blast
  note inv = heap_okD(1) [OF assms(1)]
  have live: "n \<in> mm_live (lh_mm h)" using heap_okD(4) [OF assms(1)] by (simp add: footprint_def x)
  have "seq_remove d pl (lh_mm h) = (d, pl\<lparr>l_items := zs\<rparr>, mm_free n (lh_mm h))"
    using Some assms(2) by (simp add: seq_remove_def c)
  from removeNode_seq [OF assms(1) this] obtain h' where h':
    "removeNode (l_addr pl) d h = Some (d, h')" "lh_mm h' = mm_free n (lh_mm h)"
    "heap_ok h' (pl\<lparr>l_items := zs\<rparr> # pls)" by blast
  have "l_data (pl\<lparr>l_items := zs\<rparr>) = remove1 d (l_data pl)"
    using x by (simp add: remove1_append)
  moreover have "mm_live (lh_mm h) - mm_live (lh_mm h') = {n}"
    using h'(2) mm.free_live [OF inv live] live by auto
  moreover have "d \<in> set (l_data pl)" by (simp add: x)
  ultimately show ?thesis
    using h' by (intro exI [of _ h'] exI [of _ "pl\<lparr>l_items := zs\<rparr>"]) simp
qed

theorem removeNode_exact_witness:
  "\<exists>h'. removeNode 100 7 small_list = Some (0, h')"
  using removeNode_exact [OF small_list_ok, of 7] by auto



text \<open>
  \<open>freeLinkedListADT\<close> walks the list without touching a node it has
  already freed, and gives back exactly the nodes and the header of this list.
\<close>

theorem freeLinkedListADT_frees:
  assumes "heap_ok h (pl # pls)"
  shows "\<exists>h'. freeLinkedListADT (l_addr pl) h = Some h' \<and> heap_ok h' pls \<and>
    mm_live (lh_mm h') = mm_live (lh_mm h) - set (footprint pl)"
  using freeLinkedListADT_seq [OF assms] by blast

theorem freeLinkedListADT_frees_witness:
  "\<exists>h'. freeLinkedListADT 100 small_list = Some h' \<and> heap_ok h' []"
  using freeLinkedListADT_frees [OF small_list_ok] by auto

text \<open>
  The clients' iteration (\<open>toBegin\<close>, then \<open>nextInList\<close> while \<open>hasNext\<close>) ends, visits
  every data pointer of the list exactly in its order, and changes no list.
\<close>

theorem visit_all:
  assumes "heap_ok h (pl # pls)"
  shows "\<exists>h'. visit (l_addr pl) h = Some (l_data pl, h') \<and> lh_mm h' = lh_mm h \<and> heap_ok h' (pl # pls)"
  by (rule visit_seq [OF assms])

theorem visit_all_witness: "\<exists>h'. visit 100 small_list = Some ([], h')"
  using visit_all [OF small_list_ok] by auto

end
