(* ===== verification/Process.thy ===== *)
theory Process
  imports Double_Linked_List Lib
begin

text \<open>
  \<open>Kernel/utils/processes/process.c\<close>, the part that works on one process: the process control
  block, its construction and its release, and the initial stack frame that
  \<open>Kernel/asm/process.asm\<close> builds. (\<open>waitProcess\<close>, \<open>changePriority\<close> and
  \<open>changeFileDescriptors\<close> go through the process table; they are in \<open>Scheduler\<close>.)

  A pointer to memory of its own (\<open>name\<close>, \<open>argv\<close> and its strings) is kept with what it points
  to: \<open>None\<close> is \<open>NULL\<close>, \<open>Some (p, x)\<close> the address and the contents.
\<close>

datatype process_state = READY | RUNNING | BLOCKED | TERMINATED

record pcb =
  name :: "(addr \<times> byte list) option"
  priority :: nat
  pid :: int
  stackBase :: nat
  stackPos :: nat
  status :: process_state
  ground :: nat
  argv :: "(addr \<times> (addr \<times> byte list) list) option"
  argc :: int
  rip :: nat
  fileDescriptors :: "int list"
  waitingList :: plist

definition CANT_FILE_DESCRIPTORS :: nat where "CANT_FILE_DESCRIPTORS = 3"
definition STACK_SIZE :: nat where "STACK_SIZE = 4096"

abbreviation null_list :: plist where
  "null_list \<equiv> \<lparr>l_addr = 0, l_items = []\<rparr>"

definition sizeof_pcb :: nat where "sizeof_pcb = 80"

text \<open>\<open>memset(newProcess, 0, sizeof(ProcessContext))\<close>\<close>

definition zeroed_pcb :: pcb where
  "zeroed_pcb = \<lparr>name = None, priority = 0, pid = 0, stackBase = 0, stackPos = 0, status = READY,
     ground = 0, argv = None, argc = 0, rip = 0, fileDescriptors = [0, 0, 0], waitingList = null_list\<rparr>"

section \<open>The initial stack frame\<close>

text \<open>
  \<open>setupStackFrame\<close> of \<open>process.asm\<close>: 20 words pushed below the aligned base. The result is
  the final stack pointer and the words from there upwards. The registers that are pushed as
  they happen to be (\<open>rax\<close>, \<open>rbx\<close>, \<open>rbp\<close>, \<open>r8\<close> to \<open>r15\<close>) are the argument \<open>regs\<close>.
\<close>

definition setupStackFrame :: "nat \<Rightarrow> nat \<Rightarrow> nat \<Rightarrow> nat \<Rightarrow> (nat \<Rightarrow> nat) \<Rightarrow> nat \<times> nat list" where
  "setupStackFrame base code ac av regs =
     (base - base mod 16 - 160,
      [regs 15, regs 14, regs 13, regs 12, regs 11, regs 10, regs 9, regs 8, av, ac, regs 2, code, base,
       regs 1, regs 0, code, 8, 0x202, base, 0])"

text \<open>\<open>popState\<close> and \<open>iretq\<close> of \<open>interrupts.asm\<close>, which start whatever frame \<open>schedule\<close> returns:
  the words from the stack pointer upwards are \<open>r15\<close> .. \<open>r8\<close>, \<open>rsi\<close>, \<open>rdi\<close>, \<open>rbp\<close>, \<open>rdx\<close>,
  \<open>rcx\<close>, \<open>rbx\<close>, \<open>rax\<close>, then \<open>rip\<close>, \<open>cs\<close>, the flags, \<open>rsp\<close> and \<open>ss\<close>.\<close>

record cpu =
  reg_rdi :: nat
  reg_rsi :: nat
  reg_rip :: nat
  reg_cs :: nat
  reg_flags :: nat
  reg_rsp :: nat

definition popState_iretq :: "nat list \<Rightarrow> cpu" where
  "popState_iretq frame = \<lparr>reg_rdi = frame ! 9, reg_rsi = frame ! 8, reg_rip = frame ! 15,
     reg_cs = frame ! 16, reg_flags = frame ! 17, reg_rsp = frame ! 18\<rparr>"

section \<open>Arguments\<close>

text \<open>The loop of \<open>freeArgv\<close>: \<open>strs\<close> are the entries still to free.\<close>

primrec free_strings :: "(addr \<times> byte list) list \<Rightarrow> mm_state \<Rightarrow> mm_state" where
  "free_strings [] m = m"
| "free_strings (s # strs) m = free_strings strs (if fst s \<noteq> 0 then mm_free (fst s) m else m)"

definition freeArgv :: "(addr \<times> (addr \<times> byte list) list) option \<Rightarrow> int \<Rightarrow> mm_state \<Rightarrow> mm_state" where
  "freeArgv av ac m =
     (case av of
        None \<Rightarrow> m
      | Some (p, strs) \<Rightarrow> mm_free p (free_strings (take (nat ac) strs) m))"

text \<open>The copying loop of \<open>allocArgv\<close>; \<open>args i\<close> is \<open>argv[i]\<close>, \<open>None\<close> when it is \<open>NULL\<close>. The clean-up
  loops free the strings copied so far, in order, then the array.\<close>

function copy_args :: "addr \<Rightarrow> (nat \<Rightarrow> byte list option) \<Rightarrow> nat \<Rightarrow> nat \<Rightarrow> (addr \<times> byte list) list \<Rightarrow>
    mm_state \<Rightarrow> (addr \<times> (addr \<times> byte list) list) option \<times> mm_state" where
  "copy_args newArgv args n i done m =
     (if i < n then
        (case args i of
           None \<Rightarrow> (None, mm_free newArgv (fold mm_free (map fst done) m))
         | Some s \<Rightarrow>
             let (p, m') = mm_alloc (length s + 1) m in
             if p = 0 then (None, mm_free newArgv (fold mm_free (map fst done) m'))
             else copy_args newArgv args n (i + 1) (done @ [(p, s)]) m')
      else (Some (newArgv, done), m))"
  by pat_completeness auto
termination
  by (relation "measure (\<lambda>(newArgv, args, n, i, done, m). n - i)") auto

definition allocArgv :: "(nat \<Rightarrow> byte list option) option \<Rightarrow> int \<Rightarrow> mm_state \<Rightarrow>
    (addr \<times> (addr \<times> byte list) list) option \<times> mm_state" where
  "allocArgv av ac m =
     (if ac \<le> 0 then
        let (p, m') = mm_alloc 8 m in (if p = 0 then None else Some (p, []), m')
      else
        (case av of
           None \<Rightarrow> (None, m)
         | Some args \<Rightarrow>
             let (p, m') = mm_alloc ((nat ac + 1) * 8) m in
             if p = 0 then (None, m') else copy_args p args (nat ac) 0 [] m'))"

section \<open>Construction and release\<close>

text \<open>The default name, the C string "process".\<close>

definition default_name :: "byte list" where
  "default_name = [112, 114, 111, 99, 101, 115, 115]"

definition process_name :: "(nat \<Rightarrow> byte list option) option \<Rightarrow> int \<Rightarrow> byte list" where
  "process_name args ac =
     (case args of
        Some f \<Rightarrow> if ac > 0 then (case f 0 of Some s \<Rightarrow> s | None \<Rightarrow> default_name) else default_name
      | None \<Rightarrow> default_name)"

text \<open>The result is the return value, the block as it is left, and the memory manager.\<close>

definition initializeProcess :: "pcb \<Rightarrow> int \<Rightarrow> (nat \<Rightarrow> byte list option) option \<Rightarrow> int \<Rightarrow> nat \<Rightarrow> nat \<Rightarrow>
    nat \<Rightarrow> int list option \<Rightarrow> mm_state \<Rightarrow> int \<times> pcb \<times> mm_state" where
  "initializeProcess process new_pid args ac prio code gr fds m =
     (let p0 = process\<lparr>stackBase := 0, stackPos := 0, argv := None, argc := ac, name := None,
                priority := prio, pid := new_pid, rip := code, ground := gr,
                waitingList := null_list, status := READY\<rparr>;
          (stack, m1) = mm_alloc STACK_SIZE m in
      if stack = 0 then (- 1, p0\<lparr>stackBase := stack\<rparr>, m1)
      else
        let p1 = p0\<lparr>stackBase := stack + STACK_SIZE\<rparr>;
            (av, m2) = allocArgv args ac m1;
            p2 = p1\<lparr>argv := av\<rparr> in
        if av = None
        then (- 1, p2\<lparr>stackBase := 0\<rparr>, mm_free (stackBase p2 - STACK_SIZE) m2)
        else
          let nm = process_name args ac;
              (np, m3) = mm_alloc (length nm + 1) m2 in
          if np = 0
          then (- 1, p2\<lparr>name := None, argv := None, stackBase := 0\<rparr>,
                mm_free (stackBase p2 - STACK_SIZE) (freeArgv av ac m3))
          else
            let p3 = p2\<lparr>name := Some (np, nm),
                        stackPos := fst (setupStackFrame (stackBase p2) (rip p2) (nat ac) (fst (the av)) (\<lambda>_. 0)),
                        fileDescriptors := (case fds of Some f \<Rightarrow> take CANT_FILE_DESCRIPTORS f
                                            | None \<Rightarrow> map int [0 ..< CANT_FILE_DESCRIPTORS])\<rparr>;
                (wl, m4) = seq_create m3 in
            if l_addr wl = 0
            then (- 1, p3\<lparr>waitingList := wl, name := None, argv := None, stackBase := 0\<rparr>,
                  mm_free (stackBase p3 - STACK_SIZE) (freeArgv av ac (mm_free np m4)))
            else (0, p3\<lparr>waitingList := wl\<rparr>, m4))"

text \<open>\<open>freeProcess(pcb)\<close> for the block at address \<open>a\<close>.\<close>

definition freeProcess :: "addr \<Rightarrow> pcb \<Rightarrow> mm_state \<Rightarrow> mm_state" where
  "freeProcess a p m =
     (let m1 = (if argv p \<noteq> None then freeArgv (argv p) (argc p) m else m);
          m2 = (case name p of Some (n, _) \<Rightarrow> mm_free n m1 | None \<Rightarrow> m1);
          m3 = (if stackBase p \<ge> STACK_SIZE then mm_free (stackBase p - STACK_SIZE) m2 else m2);
          m4 = (if l_addr (waitingList p) \<noteq> 0 then seq_free (waitingList p) m3 else m3)
      in mm_free a m4)"

declare copy_args.simps [simp del]

section \<open>The blocks of a process\<close>

definition argv_blocks :: "pcb \<Rightarrow> addr list" where
  "argv_blocks p = (case argv p of None \<Rightarrow> [] | Some (q, strs) \<Rightarrow> map fst strs @ [q])"

definition list_blocks :: "plist \<Rightarrow> addr list" where
  "list_blocks l = (if l_addr l \<noteq> 0 then l_nodes l @ [l_addr l] else [])"

text \<open>In the order in which \<open>freeProcess\<close> frees them.\<close>

definition pcb_blocks :: "pcb \<Rightarrow> addr list" where
  "pcb_blocks p = argv_blocks p @ (case name p of Some (n, _) \<Rightarrow> [n] | None \<Rightarrow> []) @
     (if stackBase p \<ge> STACK_SIZE then [stackBase p - STACK_SIZE] else []) @ list_blocks (waitingList p)"

definition argv_ok :: "pcb \<Rightarrow> bool" where
  "argv_ok p = (case argv p of None \<Rightarrow> True
     | Some (q, strs) \<Rightarrow> length strs = nat (argc p) \<and> 0 \<notin> fst ` set strs)"

lemma free_strings_fold: "0 \<notin> fst ` set strs \<Longrightarrow> free_strings strs m = fold mm_free (map fst strs) m"
  by (induction strs arbitrary: m) auto

lemma freeProcess_fold:
  assumes "argv_ok p"
  shows "freeProcess a p m = fold mm_free (pcb_blocks p @ [a]) m"
proof -
  have "freeArgv (argv p) (argc p) m = fold mm_free (argv_blocks p) m"
    using assms by (auto simp: freeArgv_def argv_blocks_def argv_ok_def free_strings_fold split: option.splits)
  then show ?thesis
    by (auto simp: freeProcess_def pcb_blocks_def list_blocks_def seq_free_def argv_blocks_def Let_def
        split: option.splits)
qed

lemma freeProcess_live:
  assumes "argv_ok p" and "mm_inv m" and "distinct (pcb_blocks p @ [a])"
    and "set (pcb_blocks p @ [a]) \<subseteq> mm_live m"
  shows "mm_inv (freeProcess a p m)" and "mm_live (freeProcess a p m) = mm_live m - set (pcb_blocks p @ [a])"
  unfolding freeProcess_fold [OF assms(1)] using mm.release_fold [OF assms(2,4,3)] by blast+

lemma copy_args_owns:
  "owns m0 m (insert q (fst ` set done)) \<Longrightarrow> distinct (map fst done @ [q]) \<Longrightarrow> 0 \<notin> fst ` set done \<Longrightarrow>
   length done = i \<Longrightarrow> i \<le> n \<Longrightarrow> copy_args q args n i done m = (r, m') \<Longrightarrow>
   \<forall>j < i. args j = Some (snd (done ! j)) \<Longrightarrow>
   (case r of None \<Rightarrow> owns m0 m' {} | Some (q', strs) \<Rightarrow> q' = q \<and> owns m0 m' (insert q (fst ` set strs)) \<and>
      distinct (map fst strs @ [q]) \<and> 0 \<notin> fst ` set strs \<and> length strs = n \<and>
      (\<forall>j < n. args j = Some (snd (strs ! j))))"
proof (induction q args n i "done" m rule: copy_args.induct)
  case (1 q args n i ds m)
  have undo: "owns m0 (mm_free q (fold mm_free (map fst ds) m1)) {}" if "owns m0 m1 (insert q (fst ` set ds))" for m1
  proof -
    have "owns m0 (fold mm_free (map fst ds @ [q]) m1) (insert q (fst ` set ds) - set (map fst ds @ [q]))"
      using that 1(3) by (intro owns_free_all) auto
    then show ?thesis by simp
  qed
  show ?case
  proof (cases "i < n")
    case False
    then have "copy_args q args n i ds m = (Some (q, ds), m)" by (subst copy_args.simps) simp
    with False 1(2-8) show ?thesis by auto
  next
    case True
    show ?thesis
    proof (cases "args i")
      case None
      with True 1(7) have "r = None" "m' = mm_free q (fold mm_free (map fst ds) m)"
        by (auto simp: copy_args.simps [of q args n i ds m])
      with undo [OF 1(2)] show ?thesis by simp
    next
      case (Some s)
      obtain p m1 where alloc: "mm_alloc (length s + 1) m = (p, m1)" by force
      show ?thesis
      proof (cases "p = 0")
        case True
        with Some \<open>i < n\<close> alloc 1(7) have "r = None" "m' = mm_free q (fold mm_free (map fst ds) m1)"
          by (auto simp: copy_args.simps [of q args n i ds m])
        moreover have "owns m0 m1 (insert q (fst ` set ds))"
          using owns_alloc_null [OF 1(2)] alloc True by blast
        ultimately show ?thesis using undo by simp
      next
        case False
        from owns_alloc [OF 1(2) alloc False]
        have new: "owns m0 m1 (insert q (fst ` set (ds @ [(p, s)])))" "p \<notin> insert q (fst ` set ds)"
          by (simp_all add: insert_commute)
        have "copy_args q args n (i + 1) (ds @ [(p, s)]) m1 = (r, m')"
          using 1(7) Some \<open>i < n\<close> alloc False by (simp add: copy_args.simps [of q args n i ds m])
        then show ?thesis
          using 1(1) [OF True Some alloc [symmetric] refl False new(1)] new(2) 1(3-6,8) False True Some
          by (auto simp: nth_append less_Suc_eq)
      qed
    qed
  qed
qed

lemma allocArgv_owns:
  assumes "mm_inv m" and "allocArgv args ac m = (r, m')"
  shows "case r of None \<Rightarrow> owns m m' {} | Some (q, strs) \<Rightarrow> owns m m' (insert q (fst ` set strs)) \<and>
    distinct (map fst strs @ [q]) \<and> 0 \<notin> fst ` set strs \<and> length strs = nat ac \<and>
    (\<forall>j < nat ac. \<exists>f. args = Some f \<and> f j = Some (snd (strs ! j)))"
proof (cases "ac \<le> 0")
  case True
  obtain p m1 where alloc: "mm_alloc 8 m = (p, m1)" by force
  show ?thesis
    using True assms(2) alloc owns_alloc_null [OF owns_refl [OF assms(1)]] owns_alloc [OF owns_refl [OF assms(1)] alloc]
    by (auto simp: allocArgv_def split: if_splits)
next
  case False
  show ?thesis
  proof (cases args)
    case None
    with False assms show ?thesis by (auto simp: allocArgv_def owns_refl)
  next
    case (Some f)
    obtain p m1 where alloc: "mm_alloc ((nat ac + 1) * 8) m = (p, m1)" by force
    show ?thesis
    proof (cases "p = 0")
      case True
      with False Some assms(2) alloc have "r = None" "m' = m1" by (auto simp: allocArgv_def)
      with owns_alloc_null [OF owns_refl [OF assms(1)]] alloc True show ?thesis by simp
    next
      case nz: False
      from owns_alloc [OF owns_refl [OF assms(1)] alloc nz] have "owns m m1 (insert p (fst ` set []))" by simp
      moreover have "copy_args p f (nat ac) 0 [] m1 = (r, m')"
        using False Some assms(2) alloc nz by (simp add: allocArgv_def)
      ultimately show ?thesis
        using copy_args_owns [of m m1 p "[]" 0 "nat ac" f r m'] Some by (auto split: option.splits)
    qed
  qed
qed

text \<open>What a successful construction leaves.\<close>

definition pcb_initialized :: "pcb \<Rightarrow> int \<Rightarrow> (nat \<Rightarrow> byte list option) option \<Rightarrow> int \<Rightarrow> nat \<Rightarrow> nat \<Rightarrow> nat \<Rightarrow> bool" where
  "pcb_initialized p new_pid args ac prio code gr =
     (pid p = new_pid \<and> argc p = ac \<and> priority p = prio \<and> rip p = code \<and> ground p = gr \<and> status p = READY \<and>
      map_option snd (name p) = Some (process_name args ac) \<and> l_items (waitingList p) = [] \<and>
      stackPos p = stackBase p - stackBase p mod 16 - 160 \<and>
      (\<exists>q strs. argv p = Some (q, strs) \<and> length strs = nat ac \<and>
         (\<forall>j < nat ac. \<exists>f. args = Some f \<and> f j = Some (snd (strs ! j)))))"

lemma initializeProcess_owns:
  assumes inv: "mm_inv m" and init: "initializeProcess p0 new_pid args ac prio code gr fds m = (r, p, m')"
  shows "argv_ok p \<and> distinct (pcb_blocks p) \<and> owns m m' (set (pcb_blocks p)) \<and>
    (r = - 1 \<and> pcb_blocks p = [] \<or> r = 0 \<and> pcb_initialized p new_pid args ac prio code gr)"
proof -
  obtain stack m1 where a1: "mm_alloc STACK_SIZE m = (stack, m1)" by force
  show ?thesis
  proof (cases "stack = 0")
    case True
    then have "r = - 1" "m' = m1" "argv_ok p" "pcb_blocks p = []"
      using init a1 by (auto simp: initializeProcess_def Let_def argv_ok_def pcb_blocks_def argv_blocks_def
          list_blocks_def STACK_SIZE_def)
    with owns_alloc_null [OF owns_refl [OF inv]] a1 True show ?thesis by simp
  next
    case s: False
    from owns_alloc [OF owns_refl [OF inv] a1 s] have o1: "owns m m1 {stack}" by simp
    obtain av m2 where a2: "allocArgv args ac m1 = (av, m2)" by force
    note A = allocArgv_owns [OF owns_inv [OF o1] a2]
    show ?thesis
    proof (cases av)
      case None
      with A have "owns m1 m2 {}" by simp
      from owns_trans [OF o1 this] have o2: "owns m m2 {stack}" by simp
      from owns_free [OF o2, of stack] have "owns m (mm_free stack m2) {}" by simp
      moreover have "r = - 1" "m' = mm_free stack m2" "argv_ok p" "pcb_blocks p = []"
        using init a1 a2 s None by (auto simp: initializeProcess_def Let_def argv_ok_def pcb_blocks_def
            argv_blocks_def list_blocks_def STACK_SIZE_def)
      ultimately show ?thesis by simp
    next
      case (Some c)
      obtain q strs where c: "c = (q, strs)" by force
      let ?B = "insert q (fst ` set strs)"
      have A': "owns m1 m2 ?B" "distinct (map fst strs @ [q])" "0 \<notin> fst ` set strs" "length strs = nat ac"
          "\<forall>j < nat ac. \<exists>f. args = Some f \<and> f j = Some (snd (strs ! j))"
        using A by (simp_all add: Some c)
      from owns_trans [OF o1 A'(1)] have o2: "owns m m2 (insert stack ?B)" "stack \<notin> ?B"
        by (simp_all add: insert_commute)
      obtain np m3 where a3: "mm_alloc (length (process_name args ac) + 1) m2 = (np, m3)" by force
      have fr: "freeArgv av ac mx = fold mm_free (map fst strs @ [q]) mx" for mx
        using A'(3,4) by (simp add: Some c freeArgv_def free_strings_fold)
      have undo: "owns m (mm_free stack (freeArgv av ac mx)) {}" if "owns m mx (insert stack ?B)" for mx
      proof -
        have "owns m (fold mm_free ((map fst strs @ [q]) @ [stack]) mx)
            (insert stack ?B - set ((map fst strs @ [q]) @ [stack]))"
          using that A'(2) o2(2) by (intro owns_free_all) auto
        moreover have "insert stack ?B - set ((map fst strs @ [q]) @ [stack]) = {}" by auto
        ultimately show ?thesis by (simp only: fr fold_append o_apply) simp
      qed
      show ?thesis
      proof (cases "np = 0")
        case True
        then have "owns m m3 (insert stack ?B)" using owns_alloc_null [OF o2(1)] a3 by blast
        moreover have "r = - 1" "m' = mm_free stack (freeArgv av ac m3)" "argv_ok p" "pcb_blocks p = []"
          using init a1 a2 a3 s Some True by (auto simp: initializeProcess_def Let_def argv_ok_def
              pcb_blocks_def argv_blocks_def list_blocks_def STACK_SIZE_def)
        ultimately show ?thesis using undo by simp
      next
        case n: False
        from owns_alloc [OF o2(1) a3 n]
        have o3: "owns m m3 (insert np (insert stack ?B))" "np \<notin> insert stack ?B" by simp_all
        obtain w m4 where a4: "mm_alloc sizeof_list m3 = (w, m4)" by force
        then have wl: "seq_create m3 = (\<lparr>l_addr = w, l_items = []\<rparr>, m4)" by (simp add: seq_create_def)
        show ?thesis
        proof (cases "w = 0")
          case True
          then have "owns m m4 (insert np (insert stack ?B))" using owns_alloc_null [OF o3(1)] a4 by blast
          from owns_free [OF this, of np] o3(2) have "owns m (mm_free np m4) (insert stack ?B)" by simp
          moreover have "r = - 1" "m' = mm_free stack (freeArgv av ac (mm_free np m4))" "argv_ok p"
              "pcb_blocks p = []"
            using init a1 a2 a3 wl s n Some True by (auto simp: initializeProcess_def Let_def argv_ok_def
                pcb_blocks_def argv_blocks_def list_blocks_def STACK_SIZE_def)
          ultimately show ?thesis using undo by simp
        next
          case w: False
          from owns_alloc [OF o3(1) a4 w]
          have o4: "owns m m4 (insert w (insert np (insert stack ?B)))" "w \<notin> insert np (insert stack ?B)"
            by simp_all
          have p: "r = 0" "m' = m4" "argv p = Some (q, strs)" "name p = Some (np, process_name args ac)"
              "stackBase p = stack + STACK_SIZE" "waitingList p = \<lparr>l_addr = w, l_items = []\<rparr>"
              "argc p = ac" "pid p = new_pid" "priority p = prio" "rip p = code" "ground p = gr"
              "status p = READY" "stackPos p = stackBase p - stackBase p mod 16 - 160"
            using init a1 a2 a3 wl s n w Some c
            by (auto simp: initializeProcess_def Let_def setupStackFrame_def)
          have blocks: "pcb_blocks p = map fst strs @ [q, np, stack, w]"
            using w by (simp add: pcb_blocks_def argv_blocks_def list_blocks_def p)
          have "set (pcb_blocks p) = insert w (insert np (insert stack ?B))" by (auto simp: blocks)
          moreover have "distinct (pcb_blocks p)" using A'(2) o2(2) o3(2) o4(2) by (auto simp: blocks)
          ultimately show ?thesis
            using o4(1) p A'(3-5) by (simp add: argv_ok_def pcb_initialized_def)
        qed
      qed
    qed
  qed
qed

section \<open>Properties\<close>

text \<open>For the witnesses: the buddy manager on a small region, all free.\<close>

definition small_mm :: mm_state where
  "small_mm = BuddyMM small_buddy"

lemma small_mm_inv: "mm_inv small_mm"
  by (simp add: small_mm_def small_buddy_inv)

lemma small_init: "\<exists>p m'. initializeProcess zeroed_pcb 1 (Some (\<lambda>_. Some [97])) 1 3 100 0 None small_mm = (0, p, m')"
  by (simp add: initializeProcess_def small_mm_def small_buddy_def buddy_alloc_def getExponent_def
      getExponent_from.simps POW2_def sub64_def add64_def MIN_EXP_def findFreeNode.simps splitTree.simps
      setSplitedChildren_def getNodeLevel_def Let_def STACK_SIZE_def allocArgv_def copy_args.simps
      process_name_def seq_create_def sizeof_list_def)

lemma small_init_after: "\<exists>p m'. initializeProcess zeroed_pcb 1 None 0 3 100 0 None
    (BuddyMM (snd (buddy_alloc 131072 small_buddy))) = (0, p, m')"
  by (simp add: small_buddy_alloc)
    (simp add: initializeProcess_def small_buddy_def buddy_alloc_def getExponent_def
      getExponent_from.simps POW2_def sub64_def add64_def MIN_EXP_def findFreeNode.simps splitTree.simps
      setSplitedChildren_def getNodeLevel_def Let_def STACK_SIZE_def allocArgv_def copy_args.simps
      process_name_def default_name_def seq_create_def sizeof_list_def)

text \<open>
  C15. \<open>initializeProcess\<close> is all or nothing. With any argument vector
  (NULL, too short, with NULL entries) and whichever of its allocations fails, either it returns
  -1, the live blocks of the memory manager are those before the call and the control block
  refers to no block, so that the \<open>freeProcess\<close> its caller runs cannot free one twice; or it
  returns 0 and owns exactly the blocks the control block refers to, all distinct and new: the
  stack, a copy of every argument, the name (the first argument, or "process") and an empty
  waiting list.
\<close>

theorem initializeProcess_no_leak:
  assumes "mm_inv m" and "initializeProcess p0 new_pid args ac prio code gr fds m = (r, p, m')"
  shows "mm_inv m' \<and> distinct (pcb_blocks p) \<and> set (pcb_blocks p) \<inter> mm_live m = {} \<and>
    mm_live m' = mm_live m \<union> set (pcb_blocks p) \<and>
    (r = - 1 \<and> pcb_blocks p = [] \<or> r = 0 \<and> pcb_initialized p new_pid args ac prio code gr)"
  using initializeProcess_owns [OF assms] by (auto simp: owns_def)

theorem initializeProcess_no_leak_witness:
  "\<exists>p m'. initializeProcess zeroed_pcb 1 (Some (\<lambda>_. Some [97])) 1 3 100 0 None small_mm = (0, p, m') \<and>
    mm_live m' = mm_live small_mm \<union> set (pcb_blocks p) \<and>
    pcb_initialized p 1 (Some (\<lambda>_. Some [97])) 1 3 100 0"
proof -
  obtain p m' where i: "initializeProcess zeroed_pcb 1 (Some (\<lambda>_. Some [97])) 1 3 100 0 None small_mm = (0, p, m')"
    using small_init by blast
  from initializeProcess_no_leak [OF small_mm_inv i] i show ?thesis by auto
qed

text \<open>
  \<open>freeProcess\<close> undoes \<open>initializeProcess\<close>: destroying a freshly created
  process gives back every block of it, and the control block itself, each exactly once; what
  was live before and is not the control block stays live.
\<close>

theorem freeProcess_complete:
  assumes "mm_inv m" and "a \<in> mm_live m"
    and "initializeProcess p0 new_pid args ac prio code gr fds m = (r, p, m')"
  shows "mm_inv (freeProcess a p m') \<and> mm_live (freeProcess a p m') = mm_live m - {a}"
proof -
  note I = initializeProcess_owns [OF assms(1,3)]
  then have o: "owns m m' (set (pcb_blocks p))" "argv_ok p" "distinct (pcb_blocks p)" by simp_all
  then have "distinct (pcb_blocks p @ [a])" "set (pcb_blocks p @ [a]) \<subseteq> mm_live m'"
    using assms(2) by (auto simp: owns_def)
  from freeProcess_live [OF o(2) owns_inv [OF o(1)] this] o(1) show ?thesis
    by (auto simp: owns_def)
qed

theorem freeProcess_complete_witness:
  "\<exists>m p m'. initializeProcess zeroed_pcb 1 None 0 3 100 0 None m = (0, p, m') \<and> 65536 \<in> mm_live m \<and>
    mm_live (freeProcess 65536 p m') = mm_live m - {65536}"
proof -
  let ?m = "BuddyMM (snd (buddy_alloc 131072 small_buddy))"
  have inv: "mm_inv ?m"
    using buddy_mm.alloc_inv [OF small_buddy_inv small_buddy_alloc] small_buddy_alloc by simp
  have live: "65536 \<in> mm_live ?m"
    using buddy_mm.alloc_live [OF small_buddy_inv small_buddy_alloc] small_buddy_alloc by simp
  obtain p m' where i: "initializeProcess zeroed_pcb 1 None 0 3 100 0 None ?m = (0, p, m')"
    using small_init_after by blast
  from freeProcess_complete [OF inv live i] i live show ?thesis by blast
qed

text \<open>
  The frame \<open>setupStackFrame\<close> builds is the one the scheduler's
  \<open>popState; iretq\<close> expects: the first dispatch of a process enters \<open>code\<close> in the kernel code
  segment with interrupts enabled, \<open>argc\<close> and \<open>argv\<close> in the registers of the first two
  arguments, and the stack pointer at the base; the frame is 16-byte aligned and lies inside
  the process's 4096-byte stack block.
\<close>

theorem new_process_starts:
  "popState_iretq (snd (setupStackFrame (stack + STACK_SIZE) code ac av regs)) =
     \<lparr>reg_rdi = ac, reg_rsi = av, reg_rip = code, reg_cs = 8, reg_flags = 0x202, reg_rsp = stack + STACK_SIZE\<rparr> \<and>
   (let sp = fst (setupStackFrame (stack + STACK_SIZE) code ac av regs) in
     sp mod 16 = 0 \<and> stack \<le> sp \<and>
     sp + 8 * length (snd (setupStackFrame (stack + STACK_SIZE) code ac av regs)) \<le> stack + STACK_SIZE)"
proof -
  obtain q r where x: "stack + 4096 = 16 * q + r" "r < 16"
    using mult_div_mod_eq [of 16 "stack + 4096"] by (metis mod_less_divisor zero_less_numeral)
  then have "(stack + 4096) mod 16 = r" by simp
  moreover have "16 * q + r - r - 160 = 16 * (q - 10)" by simp
  moreover have "stack \<le> 16 * (q - 10)" "16 * (q - 10) + 160 \<le> stack + 4096" using x by linarith+
  ultimately show ?thesis
    unfolding setupStackFrame_def STACK_SIZE_def x(1) by (simp add: popState_iretq_def)
qed

end
