(* ===== verification/Scheduler.thy ===== *)
theory Scheduler
  imports Process
begin

text \<open>
  \<open>Kernel/utils/processes/scheduler.c\<close> and the part of \<open>process.c\<close> that goes through the process
  table. \<open>procs\<close> holds the live control blocks by address; \<open>scheduler\<close>, \<open>created\<close> are the two
  static variables and the fields after them the structure \<open>scheduler\<close> points to.

  \<open>None\<close> is a fault (a dereference of \<open>NULL\<close> or of a control block that was freed), -1 the error
  result of the code. \<open>yield\<close> raises the timer interrupt; the stack pointer the interrupt saves
  is an argument of the operations that can yield, and the stack pointer the processor goes on
  with is \<open>cpu_rsp\<close>. What the code prints is not modelled.

  The operations are defined on every extension of the record, so that the semaphores and the
  pipes can extend the state.
\<close>

record kernel =
  k_mm :: mm_state
  procs :: "addr \<rightharpoonup> pcb"
  scheduler :: addr
  created :: bool
  processList :: plist
  readyProcess :: plist
  blockedProcess :: plist
  currentPid :: int
  currentProcess :: addr
  processQty :: nat
  quantums :: int
  cpu_rsp :: nat

definition MAX_PROCESS :: nat where "MAX_PROCESS = 30"
definition MIN_QUANTUMS :: int where "MIN_QUANTUMS = 1"
definition MIN_PRIORITY :: nat where "MIN_PRIORITY = 1"
definition MAX_PRIORITY :: nat where "MAX_PRIORITY = 10"
definition NO_PROCESS :: int where "NO_PROCESS = - 1"
definition IDLE_PID :: int where "IDLE_PID = 0"
definition SHELL_PID :: int where "SHELL_PID = 1"
definition STDIN :: nat where "STDIN = 0"
definition STDOUT :: nat where "STDOUT = 1"
definition STDERR :: nat where "STDERR = 2"
definition sizeof_scheduler :: nat where "sizeof_scheduler = 48"
definition sizeof_process_info :: nat where "sizeof_process_info = 32"

section \<open>The lists and the control blocks of the state\<close>

definition update_pcb :: "addr \<Rightarrow> (pcb \<Rightarrow> pcb) \<Rightarrow> 'a kernel_scheme \<Rightarrow> 'a kernel_scheme option" where
  "update_pcb a f k = do { ps \<leftarrow> store (procs k) a f; Some (k\<lparr>procs := ps\<rparr>) }"

definition free_pcb :: "addr \<Rightarrow> 'a kernel_scheme \<Rightarrow> 'a kernel_scheme option" where
  "free_pcb a k = do { p \<leftarrow> deref (procs k) a;
     Some (k\<lparr>k_mm := freeProcess a p (k_mm k), procs := (procs k)(a := None)\<rparr>) }"

definition add_ready :: "addr \<Rightarrow> 'a kernel_scheme \<Rightarrow> addr \<times> 'a kernel_scheme" where
  "add_ready a k = (let (n, l, m) = seq_add a (readyProcess k) (k_mm k) in
     (n, k\<lparr>readyProcess := l, k_mm := m\<rparr>))"

definition add_blocked :: "addr \<Rightarrow> 'a kernel_scheme \<Rightarrow> addr \<times> 'a kernel_scheme" where
  "add_blocked a k = (let (n, l, m) = seq_add a (blockedProcess k) (k_mm k) in
     (n, k\<lparr>blockedProcess := l, k_mm := m\<rparr>))"

definition add_process :: "addr \<Rightarrow> 'a kernel_scheme \<Rightarrow> addr \<times> 'a kernel_scheme" where
  "add_process a k = (let (n, l, m) = seq_add a (processList k) (k_mm k) in
     (n, k\<lparr>processList := l, k_mm := m\<rparr>))"

definition remove_ready :: "addr \<Rightarrow> 'a kernel_scheme \<Rightarrow> addr \<times> 'a kernel_scheme" where
  "remove_ready a k = (let (d, l, m) = seq_remove a (readyProcess k) (k_mm k) in
     (d, k\<lparr>readyProcess := l, k_mm := m\<rparr>))"

definition remove_blocked :: "addr \<Rightarrow> 'a kernel_scheme \<Rightarrow> addr \<times> 'a kernel_scheme" where
  "remove_blocked a k = (let (d, l, m) = seq_remove a (blockedProcess k) (k_mm k) in
     (d, k\<lparr>blockedProcess := l, k_mm := m\<rparr>))"

definition remove_process :: "addr \<Rightarrow> 'a kernel_scheme \<Rightarrow> addr \<times> 'a kernel_scheme" where
  "remove_process a k = (let (d, l, m) = seq_remove a (processList k) (k_mm k) in
     (d, k\<lparr>processList := l, k_mm := m\<rparr>))"

definition first_ready :: "'a kernel_scheme \<Rightarrow> addr \<times> 'a kernel_scheme" where
  "first_ready k = (let (d, l, m) = seq_first (readyProcess k) (k_mm k) in
     (d, k\<lparr>readyProcess := l, k_mm := m\<rparr>))"

section \<open>Operations\<close>

text \<open>The loop of \<open>findProcess\<close> over the data of the process list.\<close>

fun find_pid :: "(addr \<rightharpoonup> pcb) \<Rightarrow> addr list \<Rightarrow> int \<Rightarrow> addr option" where
  "find_pid ps [] i = Some 0"
| "find_pid ps (a # as) i = do { p \<leftarrow> deref ps a; if pid p = i then Some a else find_pid ps as i }"

definition findProcess :: "int \<Rightarrow> 'a kernel_scheme \<Rightarrow> addr option" where
  "findProcess i k =
     (if scheduler k = 0 then None else find_pid (procs k) (l_data (processList k)) i)"

definition getPid :: "'a kernel_scheme \<Rightarrow> int option" where
  "getPid k = (if scheduler k = 0 then None else Some (currentPid k))"

text \<open>Lines 100-104: the chosen process becomes the running one.\<close>

definition dispatch :: "addr \<Rightarrow> 'a kernel_scheme \<Rightarrow> (nat \<times> 'a kernel_scheme) option" where
  "dispatch a k = do {
     p \<leftarrow> deref (procs k) a;
     k \<leftarrow> update_pcb a (status_update (\<lambda>_. RUNNING)) k;
     Some (stackPos p, k\<lparr>currentProcess := a, currentPid := pid p, quantums := int (priority p)\<rparr>)
   }"

text \<open>Lines 70-83: a terminated process is freed, a running one goes to the end of the queue.\<close>

definition requeue :: "nat \<Rightarrow> 'a kernel_scheme \<Rightarrow> 'a kernel_scheme option" where
  "requeue prevRSP k =
     (if currentProcess k = 0 then Some k
      else do {
        p \<leftarrow> deref (procs k) (currentProcess k);
        if status p = TERMINATED then do {
          k \<leftarrow> free_pcb (currentProcess k) k;
          Some (k\<lparr>currentProcess := 0, currentPid := NO_PROCESS\<rparr>)
        }
        else do {
          k \<leftarrow> update_pcb (currentProcess k) (stackPos_update (\<lambda>_. prevRSP)) k;
          if status p = RUNNING then do {
            k \<leftarrow> update_pcb (currentProcess k) (status_update (\<lambda>_. READY)) k;
            Some (snd (add_ready (currentProcess k) k))
          }
          else Some k
        }
      })"

definition schedule :: "nat \<Rightarrow> 'a kernel_scheme \<Rightarrow> (nat \<times> 'a kernel_scheme) option" where
  "schedule prevRSP k0 =
     (if \<not> created k0 \<or> scheduler k0 = 0 then Some (prevRSP, k0)
      else
        let k = k0\<lparr>quantums := quantums k0 - 1\<rparr> in
        if processQty k = 0 \<or> quantums k > 0 then Some (prevRSP, k)
        else if currentPid k = NO_PROCESS then
          let (a, k1) = first_ready k; k2 = k1\<lparr>currentProcess := a\<rparr> in
          if a = 0 then Some (prevRSP, k2) else dispatch a k2
        else do {
          k1 \<leftarrow> requeue prevRSP k;
          let (a, k2) = first_ready k1;
          if a = 0 then do {
            idle \<leftarrow> findProcess IDLE_PID k2;
            if idle = 0 then Some (prevRSP, k2) else dispatch idle k2
          }
          else dispatch a k2
        })"

text \<open>\<open>_irq00Handler\<close>: the timer interrupt runs \<open>schedule\<close> on the interrupted stack pointer and
  goes on with the one it returns.\<close>

definition timer_tick :: "nat \<Rightarrow> 'a kernel_scheme \<Rightarrow> 'a kernel_scheme option" where
  "timer_tick r k = do { (r', k) \<leftarrow> schedule r k; Some (k\<lparr>cpu_rsp := r'\<rparr>) }"

definition yield :: "nat \<Rightarrow> 'a kernel_scheme \<Rightarrow> 'a kernel_scheme option" where
  "yield r k = (if scheduler k = 0 then None else timer_tick r (k\<lparr>quantums := 0\<rparr>))"

text \<open>The search for the least free pid (lines 126-130).\<close>

function free_pid :: "'a kernel_scheme \<Rightarrow> nat \<Rightarrow> nat option" where
  "free_pid k i =
     (if i < MAX_PROCESS then do {
        a \<leftarrow> findProcess (int i) k;
        if a = 0 then Some i else free_pid k (i + 1)
      }
      else Some i)"
  by pat_completeness auto
termination
  by (relation "measure (\<lambda>(k, i). MAX_PROCESS - i)") auto

definition createProcess :: "nat \<Rightarrow> (nat \<Rightarrow> byte list option) option \<Rightarrow> int \<Rightarrow> nat \<Rightarrow> int list option \<Rightarrow> nat \<Rightarrow>
    'a kernel_scheme \<Rightarrow> (int \<times> 'a kernel_scheme) option" where
  "createProcess code args ac prio fds gr k0 =
     (if scheduler k0 = 0 then Some (- 1, k0)
      else if processQty k0 \<ge> MAX_PROCESS then Some (- 1, k0)
      else
        let (a, m) = mm_alloc sizeof_pcb (k_mm k0); k1 = k0\<lparr>k_mm := m\<rparr> in
        if a = 0 then Some (- 1, k1)
        else do {
          let k2 = k1\<lparr>procs := (procs k1)(a \<mapsto> zeroed_pcb)\<rparr>;
          i \<leftarrow> free_pid k2 0;
          if i = MAX_PROCESS then do { k3 \<leftarrow> free_pcb a k2; Some (- 1, k3) }
          else
            let (r, p, m) = initializeProcess zeroed_pcb (int i) args ac prio code gr fds (k_mm k2);
                k3 = k2\<lparr>procs := (procs k2)(a \<mapsto> p), k_mm := m\<rparr> in
            if r = - 1 then do { k4 \<leftarrow> free_pcb a k3; Some (- 1, k4) }
            else
              let k4 = snd (add_process a k3);
                  k5 = (if status p = READY then snd (add_ready a k4)
                        else if status p = BLOCKED then snd (add_blocked a k4) else k4)
              in Some (pid p, k5\<lparr>processQty := (processQty k5 + 1) mod 2 ^ 16\<rparr>)
        })"

text \<open>\<open>idle_rip\<close> is the address of \<open>idle\<close>; the argument is the C string "idle".\<close>

definition createScheduler :: "nat \<Rightarrow> 'a kernel_scheme \<Rightarrow> 'a kernel_scheme option" where
  "createScheduler idle_rip k =
     (let (s, m) = mm_alloc sizeof_scheduler (k_mm k); k1 = k\<lparr>scheduler := s, k_mm := m\<rparr> in
      if s = 0 then Some k1
      else
        let (pl, m1) = seq_create m; (rl, m2) = seq_create m1; (bl, m3) = seq_create m2;
            k2 = k1\<lparr>k_mm := m3, processList := pl, readyProcess := rl, blockedProcess := bl,
                    currentPid := - 1, currentProcess := 0, processQty := 0,
                    quantums := MIN_QUANTUMS, created := True\<rparr> in
        map_option snd (createProcess idle_rip (Some ((\<lambda>_. None)(0 := Some [105, 100, 108, 101]))) 1
          MIN_PRIORITY (Some [- 1, - 1, int STDERR]) 1 k2))"

definition setReadyProcess :: "int \<Rightarrow> 'a kernel_scheme \<Rightarrow> (int \<times> 'a kernel_scheme) option" where
  "setReadyProcess i k = do {
     a \<leftarrow> findProcess i k;
     if a = 0 then Some (- 1, k)
     else do {
       p \<leftarrow> deref (procs k) a;
       if status p = BLOCKED then
         let (d, k1) = remove_blocked a k in
         if d = 0 then Some (- 1, k1)
         else
           let (n, k2) = add_ready a k1 in
           if n = 0 then Some (- 1, k2)
           else do { k3 \<leftarrow> update_pcb a (status_update (\<lambda>_. READY)) k2; Some (0, k3) }
       else Some (0, k)
     }
   }"

definition blockProcess :: "int \<Rightarrow> nat \<Rightarrow> 'a kernel_scheme \<Rightarrow> (int \<times> 'a kernel_scheme) option" where
  "blockProcess i r k = do {
     a \<leftarrow> findProcess i k;
     if a = 0 then Some (- 1, k)
     else do {
       p \<leftarrow> deref (procs k) a;
       let rest = (\<lambda>k. do { c \<leftarrow> getPid k;
                            k \<leftarrow> (if c = i then yield r k else Some k); Some (0, k) });
       if status p = RUNNING \<or> status p = READY then
         let (ok, k1) = (if status p = READY then let (d, k1) = remove_ready a k in (d \<noteq> 0, k1)
                         else (True, k)) in
         if \<not> ok then Some (- 1, k1)
         else
           let (n, k2) = add_blocked a k1 in
           if n = 0 then Some (- 1, k2)
           else do { k3 \<leftarrow> update_pcb a (status_update (\<lambda>_. BLOCKED)) k2; rest k3 }
       else rest k
     }
   }"

text \<open>The loop of \<open>kill\<close> over the waiting list (lines 391-398).\<close>

fun wake_all :: "addr list \<Rightarrow> 'a kernel_scheme \<Rightarrow> 'a kernel_scheme option" where
  "wake_all [] k = Some k"
| "wake_all (a # as) k =
     (if a = 0 then wake_all as k
      else do {
        p \<leftarrow> deref (procs k) a;
        (r, k) \<leftarrow> setReadyProcess (pid p) k;
        wake_all as k
      })"

definition kill :: "addr \<Rightarrow> 'a kernel_scheme \<Rightarrow> (int \<times> 'a kernel_scheme) option" where
  "kill a k = do {
     p \<leftarrow> deref (procs k) a;
     let (ok, k1) = (if status p = READY then let (d, k1) = remove_ready a k in (d \<noteq> 0, k1)
                     else if status p = BLOCKED then let (d, k1) = remove_blocked a k in (d \<noteq> 0, k1)
                     else (True, k));
     if \<not> ok then Some (- 1, k1)
     else do {
       k2 \<leftarrow> wake_all (l_data (waitingList p)) k1;
       let (d, k3) = remove_process a k2;
       if d = 0 then Some (- 1, k3)
       else do {
         k4 \<leftarrow> update_pcb a (status_update (\<lambda>_. TERMINATED)) k3;
         let k5 = k4\<lparr>processQty := (processQty k4 + 65535) mod 2 ^ 16\<rparr>;
         k6 \<leftarrow> (if currentProcess k5 \<noteq> a then free_pcb a k5 else Some k5);
         Some (0, k6)
       }
     }
   }"

definition pipedFd :: "int list \<Rightarrow> int" where
  "pipedFd fds =
     (if fds ! STDIN \<noteq> int STDIN then fds ! STDIN
      else if fds ! STDOUT \<noteq> int STDOUT then fds ! STDOUT
      else - 1)"

fun find_piped :: "(addr \<rightharpoonup> pcb) \<Rightarrow> addr list \<Rightarrow> int \<Rightarrow> addr option" where
  "find_piped ps [] fd = Some 0"
| "find_piped ps (a # as) fd = do {
     p \<leftarrow> deref ps a;
     if fileDescriptors p ! STDIN = fd \<or> fileDescriptors p ! STDOUT = fd then Some a
     else find_piped ps as fd }"

definition pipedTo :: "int \<Rightarrow> 'a kernel_scheme \<Rightarrow> addr option" where
  "pipedTo fd k = (if scheduler k = 0 then None else find_piped (procs k) (l_data (processList k)) fd)"

definition killProcess :: "int \<Rightarrow> 'a kernel_scheme \<Rightarrow> (int \<times> 'a kernel_scheme) option" where
  "killProcess i k = do {
     a \<leftarrow> findProcess i k;
     if a = 0 then Some (- 1, k)
     else do {
       p \<leftarrow> deref (procs k) a;
       let fd = pipedFd (fileDescriptors p);
       (r, k1) \<leftarrow> kill a k;
       if r = - 1 then Some (- 1, k1)
       else if fd \<noteq> - 1 then do {
         aux \<leftarrow> pipedTo fd k1;
         if aux \<noteq> 0 then kill aux k1 else Some (0, k1)
       }
       else Some (0, k1)
     }
   }"

definition killCurrentProcess :: "'a kernel_scheme \<Rightarrow> (int \<times> 'a kernel_scheme) option" where
  "killCurrentProcess k =
     (if scheduler k = 0 then None
      else do { p \<leftarrow> deref (procs k) (currentProcess k); killProcess (pid p) k })"

fun find_foreground :: "(addr \<rightharpoonup> pcb) \<Rightarrow> addr list \<Rightarrow> addr option" where
  "find_foreground ps [] = Some 0"
| "find_foreground ps (a # as) = do {
     p \<leftarrow> deref ps a;
     if ground p = 0 \<and> pid p \<noteq> SHELL_PID then Some a else find_foreground ps as }"

definition killForegroundProcess :: "'a kernel_scheme \<Rightarrow> (int \<times> 'a kernel_scheme) option" where
  "killForegroundProcess k =
     (if scheduler k = 0 then None
      else if currentProcess k = 0 then Some (- 1, k)
      else do {
        p \<leftarrow> deref (procs k) (currentProcess k);
        if ground p = 0 \<and> pid p \<noteq> SHELL_PID then killCurrentProcess k
        else do {
          a \<leftarrow> find_foreground (procs k) (l_data (processList k));
          if a \<noteq> 0 then kill a k else Some (0, k)
        }
      })"

text \<open>\<open>getFd\<close> indexes the array of three descriptors without a check.\<close>

definition getFd :: "int \<Rightarrow> 'a kernel_scheme \<Rightarrow> int option" where
  "getFd fd k =
     (if scheduler k = 0 then None
      else do {
        p \<leftarrow> deref (procs k) (currentProcess k);
        if 0 \<le> fd \<and> fd < int CANT_FILE_DESCRIPTORS then Some (fileDescriptors p ! nat fd) else None
      })"

subsection \<open>Reports\<close>

record process_info =
  pi_name :: "(addr \<times> byte list) option"
  pi_priority :: nat
  pi_ground :: nat
  pi_status :: process_state
  pi_pid :: int
  pi_stackBase :: nat
  pi_stackPos :: nat

definition copy_info :: "pcb \<Rightarrow> (addr \<times> byte list) option \<Rightarrow> process_info" where
  "copy_info p nm = \<lparr>pi_name = nm, pi_priority = priority p, pi_ground = ground p, pi_status = status p,
     pi_pid = pid p, pi_stackBase = stackBase p, pi_stackPos = stackPos p\<rparr>"

definition copyProcess :: "pcb \<Rightarrow> mm_state \<Rightarrow> int \<times> process_info \<times> mm_state" where
  "copyProcess src m =
     (case name src of
        None \<Rightarrow> (0, copy_info src None, m)
      | Some (_, s) \<Rightarrow>
          let (n, m') = mm_alloc (length s + 1) m in
          if n = 0 then (- 1, copy_info src None, m') else (0, copy_info src (Some (n, s)), m'))"

text \<open>The loop of \<open>ps\<close>: \<open>infos\<close> are the entries filled so far. On a failed allocation the names
  and the array are freed.\<close>

definition free_names :: "process_info list \<Rightarrow> mm_state \<Rightarrow> mm_state" where
  "free_names infos m = fold (\<lambda>i m. case pi_name i of Some (n, _) \<Rightarrow> mm_free n m | None \<Rightarrow> m) infos m"

fun ps_loop :: "addr \<Rightarrow> (addr \<rightharpoonup> pcb) \<Rightarrow> addr list \<Rightarrow> process_info list \<Rightarrow> mm_state \<Rightarrow>
    (process_info list option \<times> mm_state) option" where
  "ps_loop array ps [] infos m = Some (Some infos, m)"
| "ps_loop array ps (a # as) infos m = do {
     p \<leftarrow> deref ps a;
     case name p of
       None \<Rightarrow> ps_loop array ps as (infos @ [copy_info p None]) m
     | Some (_, s) \<Rightarrow>
         let (n, m') = mm_alloc (length s + 1) m in
         if n = 0 then Some (None, mm_free array (free_names infos m'))
         else ps_loop array ps as (infos @ [copy_info p (Some (n, s))]) m'
   }"

text \<open>The result is the array (its address and contents), or \<open>None\<close> for \<open>NULL\<close>, and the count.\<close>

definition ps :: "'a kernel_scheme \<Rightarrow> ((addr \<times> process_info list) option \<times> nat \<times> 'a kernel_scheme) option" where
  "ps k =
     (if scheduler k = 0 then None
      else if l_addr (processList k) = 0 then Some (None, 0, k)
      else
        let (array, m) = mm_alloc (sizeof_process_info * processQty k) (k_mm k) in
        if array = 0 then Some (None, 0, k\<lparr>k_mm := m\<rparr>)
        else do {
          (r, m') \<leftarrow> ps_loop array (procs k) (l_data (processList k)) [] m;
          case r of
            None \<Rightarrow> Some (None, 0, k\<lparr>k_mm := m'\<rparr>)
          | Some infos \<Rightarrow> Some (Some (array, infos), processQty k, k\<lparr>k_mm := m'\<rparr>)
        })"

subsection \<open>From \<open>process.c\<close>\<close>

definition waitProcess :: "int \<Rightarrow> nat \<Rightarrow> 'a kernel_scheme \<Rightarrow> (int \<times> 'a kernel_scheme) option" where
  "waitProcess i r k = do {
     a \<leftarrow> findProcess i k;
     c \<leftarrow> getPid k;
     if a = 0 \<or> c = i then Some (- 1, k)
     else do {
       cur \<leftarrow> findProcess c k;
       p \<leftarrow> deref (procs k) a;
       let (n, l, m) = seq_add cur (waitingList p) (k_mm k);
       k1 \<leftarrow> update_pcb a (waitingList_update (\<lambda>_. l)) (k\<lparr>k_mm := m\<rparr>);
       (b, k2) \<leftarrow> blockProcess c r k1;
       Some (0, k2)
     }
   }"

definition changeFileDescriptors :: "int \<Rightarrow> int list \<Rightarrow> 'a kernel_scheme \<Rightarrow> (int \<times> 'a kernel_scheme) option" where
  "changeFileDescriptors i fds k = do {
     a \<leftarrow> findProcess i k;
     if a = 0 then Some (- 1, k)
     else do {
       k1 \<leftarrow> update_pcb a (fileDescriptors_update (\<lambda>_. take CANT_FILE_DESCRIPTORS fds)) k;
       Some (0, k1)
     }
   }"

definition changePriority :: "int \<Rightarrow> nat \<Rightarrow> 'a kernel_scheme \<Rightarrow> (int \<times> 'a kernel_scheme) option" where
  "changePriority i prio k =
     (if prio > MAX_PRIORITY \<or> prio < MIN_PRIORITY then Some (- 1, k)
      else do {
        a \<leftarrow> findProcess i k;
        if a = 0 then Some (- 1, k)
        else do { k1 \<leftarrow> update_pcb a (priority_update (\<lambda>_. prio)) k; Some (int prio, k1) }
      })"

declare free_pid.simps [simp del]

section \<open>The lists, at the level of their data\<close>

named_theorems kernel_elims \<open>what an operation on one list of the kernel changes\<close>

lemma seq_add_data: "seq_add d l m = (n, l', m') \<Longrightarrow> l_data l' = (if n = 0 then l_data l else l_data l @ [d])"
  by (auto simp: seq_add_def split: if_splits prod.splits)

lemma seq_remove_data:
  assumes "seq_remove d l m = (r, l', m')" and "d \<noteq> 0"
  shows "r = (if d \<in> set (l_data l) then d else 0)" and "l_data l' = remove1 d (l_data l)"
proof -
  have "r = (if d \<in> set (l_data l) then d else 0) \<and> l_data l' = remove1 d (l_data l)"
  proof (cases "cut d (l_items l)")
    case None
    with assms show ?thesis using cut_None [of d "l_items l"] by (auto simp: seq_remove_def remove1_idem)
  next
    case (Some c)
    obtain n zs where c: "c = (n, zs)" by force
    from cut_Some [OF Some [unfolded c]] obtain ys ws where
      "l_items l = ys @ (n, d) # ws" "zs = ys @ ws" "d \<notin> snd ` set ys" by blast
    with assms Some c show ?thesis by (auto simp: seq_remove_def remove1_append)
  qed
  then show "r = (if d \<in> set (l_data l) then d else 0)" and "l_data l' = remove1 d (l_data l)" by blast+
qed

lemma seq_first_data:
  assumes "seq_first l m = (r, l', m')" and "0 \<notin> set (l_data l)"
  shows "l_data l = [] \<and> r = 0 \<and> l' = l \<and> m' = m \<or> r \<noteq> 0 \<and> l_data l = r # l_data l'"
proof (cases "l_items l")
  case Nil
  with assms show ?thesis by (auto simp: seq_first_def)
next
  case (Cons x xs)
  obtain n d where x: "x = (n, d)" by force
  have "d \<noteq> 0" using assms(2) by (auto simp: Cons x)
  from seq_first_Cons [OF Cons [unfolded x] this, of m] assms(1) \<open>d \<noteq> 0\<close> show ?thesis
    by (auto simp: Cons x)
qed

definition PL :: "'a kernel_scheme \<Rightarrow> addr list" where "PL k = l_data (processList k)"
definition RL :: "'a kernel_scheme \<Rightarrow> addr list" where "RL k = l_data (readyProcess k)"
definition BL :: "'a kernel_scheme \<Rightarrow> addr list" where "BL k = l_data (blockedProcess k)"

definition st :: "'a kernel_scheme \<Rightarrow> addr \<Rightarrow> process_state option" where
  "st k = map_option status \<circ> procs k"

definition pd :: "'a kernel_scheme \<Rightarrow> addr \<Rightarrow> int option" where
  "pd k = map_option pid \<circ> procs k"

lemma view_simps [simp]:
  "PL (k\<lparr>k_mm := m\<rparr>) = PL k" "PL (k\<lparr>procs := h\<rparr>) = PL k" "PL (k\<lparr>scheduler := s\<rparr>) = PL k"
  "PL (k\<lparr>readyProcess := l\<rparr>) = PL k" "PL (k\<lparr>blockedProcess := l\<rparr>) = PL k" "PL (k\<lparr>processList := l\<rparr>) = l_data l"
  "PL (k\<lparr>currentPid := i\<rparr>) = PL k" "PL (k\<lparr>currentProcess := a\<rparr>) = PL k" "PL (k\<lparr>processQty := n\<rparr>) = PL k"
  "PL (k\<lparr>quantums := q\<rparr>) = PL k" "PL (k\<lparr>cpu_rsp := n\<rparr>) = PL k" "PL (k\<lparr>created := b\<rparr>) = PL k"
  "RL (k\<lparr>k_mm := m\<rparr>) = RL k" "RL (k\<lparr>procs := h\<rparr>) = RL k" "RL (k\<lparr>scheduler := s\<rparr>) = RL k"
  "RL (k\<lparr>readyProcess := l\<rparr>) = l_data l" "RL (k\<lparr>blockedProcess := l\<rparr>) = RL k" "RL (k\<lparr>processList := l\<rparr>) = RL k"
  "RL (k\<lparr>currentPid := i\<rparr>) = RL k" "RL (k\<lparr>currentProcess := a\<rparr>) = RL k" "RL (k\<lparr>processQty := n\<rparr>) = RL k"
  "RL (k\<lparr>quantums := q\<rparr>) = RL k" "RL (k\<lparr>cpu_rsp := n\<rparr>) = RL k" "RL (k\<lparr>created := b\<rparr>) = RL k"
  "BL (k\<lparr>k_mm := m\<rparr>) = BL k" "BL (k\<lparr>procs := h\<rparr>) = BL k" "BL (k\<lparr>scheduler := s\<rparr>) = BL k"
  "BL (k\<lparr>readyProcess := l\<rparr>) = BL k" "BL (k\<lparr>blockedProcess := l\<rparr>) = l_data l" "BL (k\<lparr>processList := l\<rparr>) = BL k"
  "BL (k\<lparr>currentPid := i\<rparr>) = BL k" "BL (k\<lparr>currentProcess := a\<rparr>) = BL k" "BL (k\<lparr>processQty := n\<rparr>) = BL k"
  "BL (k\<lparr>quantums := q\<rparr>) = BL k" "BL (k\<lparr>cpu_rsp := n\<rparr>) = BL k" "BL (k\<lparr>created := b\<rparr>) = BL k"
  "st (k\<lparr>k_mm := m\<rparr>) = st k" "st (k\<lparr>scheduler := s\<rparr>) = st k" "st (k\<lparr>readyProcess := l\<rparr>) = st k"
  "st (k\<lparr>blockedProcess := l\<rparr>) = st k" "st (k\<lparr>processList := l\<rparr>) = st k" "st (k\<lparr>currentPid := i\<rparr>) = st k"
  "st (k\<lparr>currentProcess := a\<rparr>) = st k" "st (k\<lparr>processQty := n\<rparr>) = st k" "st (k\<lparr>quantums := q\<rparr>) = st k"
  "st (k\<lparr>cpu_rsp := n\<rparr>) = st k" "st (k\<lparr>created := b\<rparr>) = st k"
  "pd (k\<lparr>k_mm := m\<rparr>) = pd k" "pd (k\<lparr>scheduler := s\<rparr>) = pd k" "pd (k\<lparr>readyProcess := l\<rparr>) = pd k"
  "pd (k\<lparr>blockedProcess := l\<rparr>) = pd k" "pd (k\<lparr>processList := l\<rparr>) = pd k" "pd (k\<lparr>currentPid := i\<rparr>) = pd k"
  "pd (k\<lparr>currentProcess := a\<rparr>) = pd k" "pd (k\<lparr>processQty := n\<rparr>) = pd k" "pd (k\<lparr>quantums := q\<rparr>) = pd k"
  "pd (k\<lparr>cpu_rsp := n\<rparr>) = pd k" "pd (k\<lparr>created := b\<rparr>) = pd k"
  by (simp_all add: PL_def RL_def BL_def st_def pd_def)

lemma st_procs [simp]:
  "st (k\<lparr>procs := h\<rparr>) = map_option status \<circ> h"
  "map_option status \<circ> h'(a := x) = (map_option status \<circ> h')(a := map_option status x)"
  "map_option status \<circ> procs k = st k"
  by (simp_all add: st_def fun_upd_comp)

lemma pd_procs [simp]:
  "pd (k\<lparr>procs := h\<rparr>) = map_option pid \<circ> h"
  "map_option pid \<circ> h'(a := x) = (map_option pid \<circ> h')(a := map_option pid x)"
  "map_option pid \<circ> procs k = pd k"
  by (simp_all add: pd_def fun_upd_comp)

lemma st_apply: "st k a = map_option status (procs k a)"
  by (simp add: st_def del: st_procs)

lemma pd_apply: "pd k a = map_option pid (procs k a)"
  by (simp add: pd_def del: pd_procs)

lemma st_Some: "procs k a = Some p \<Longrightarrow> st k a = Some (status p)"
  by (simp add: st_apply)

lemma pd_Some: "procs k a = Some p \<Longrightarrow> pd k a = Some (pid p)"
  by (simp add: pd_apply)

lemma st_SomeD: "st k a = Some x \<Longrightarrow> \<exists>p. procs k a = Some p \<and> status p = x"
  by (auto simp: st_apply)

lemma pd_SomeD: "pd k a = Some i \<Longrightarrow> \<exists>p. procs k a = Some p \<and> pid p = i"
  by (auto simp: pd_apply)

lemma add_readyE [kernel_elims]:
  assumes "add_ready a k = (n, k')"
  obtains l m where "k' = k\<lparr>readyProcess := l, k_mm := m\<rparr>"
    "l_data l = (if n = 0 then RL k else RL k @ [a])"
  using assms seq_add_data [of a "readyProcess k" "k_mm k"] by (auto simp: RL_def add_ready_def split: prod.splits)

lemma add_blockedE [kernel_elims]:
  assumes "add_blocked a k = (n, k')"
  obtains l m where "k' = k\<lparr>blockedProcess := l, k_mm := m\<rparr>"
    "l_data l = (if n = 0 then BL k else BL k @ [a])"
  using assms seq_add_data [of a "blockedProcess k" "k_mm k"] by (auto simp: BL_def add_blocked_def split: prod.splits)

lemma add_processE [kernel_elims]:
  assumes "add_process a k = (n, k')"
  obtains l m where "k' = k\<lparr>processList := l, k_mm := m\<rparr>"
    "l_data l = (if n = 0 then PL k else PL k @ [a])"
  using assms seq_add_data [of a "processList k" "k_mm k"] by (auto simp: PL_def add_process_def split: prod.splits)

lemma remove_readyE [kernel_elims]:
  assumes "remove_ready a k = (d, k')" and "a \<noteq> 0"
  obtains l m where "k' = k\<lparr>readyProcess := l, k_mm := m\<rparr>" "l_data l = remove1 a (RL k)"
    "d = (if a \<in> set (RL k) then a else 0)"
  using assms seq_remove_data [of a "readyProcess k" "k_mm k"] by (auto simp: RL_def remove_ready_def split: prod.splits)

lemma remove_blockedE [kernel_elims]:
  assumes "remove_blocked a k = (d, k')" and "a \<noteq> 0"
  obtains l m where "k' = k\<lparr>blockedProcess := l, k_mm := m\<rparr>" "l_data l = remove1 a (BL k)"
    "d = (if a \<in> set (BL k) then a else 0)"
  using assms seq_remove_data [of a "blockedProcess k" "k_mm k"] by (auto simp: BL_def remove_blocked_def split: prod.splits)

lemma remove_processE [kernel_elims]:
  assumes "remove_process a k = (d, k')" and "a \<noteq> 0"
  obtains l m where "k' = k\<lparr>processList := l, k_mm := m\<rparr>" "l_data l = remove1 a (PL k)"
    "d = (if a \<in> set (PL k) then a else 0)"
  using assms seq_remove_data [of a "processList k" "k_mm k"] by (auto simp: PL_def remove_process_def split: prod.splits)

lemma first_readyE [kernel_elims]:
  assumes "first_ready k = (d, k')" and "0 \<notin> set (RL k)"
  obtains "RL k = []" "d = 0" "k' = k"
  | l m where "k' = k\<lparr>readyProcess := l, k_mm := m\<rparr>" "d \<noteq> 0" "RL k = d # l_data l"
  using assms seq_first_data [of "readyProcess k" "k_mm k"] by (auto simp: RL_def first_ready_def split: prod.splits)

section \<open>The invariant of the process queues\<close>

text \<open>A queue holds exactly the processes of the table in one state, each once.\<close>

definition queue_of :: "addr list \<Rightarrow> (addr \<Rightarrow> process_state option) \<Rightarrow> process_state \<Rightarrow> addr list \<Rightarrow> bool" where
  "queue_of pl s x q = (distinct q \<and> (\<forall>a. a \<in> set q \<longleftrightarrow> a \<in> set pl \<and> s a = Some x))"

text \<open>The process list names live, distinct control blocks with distinct pids below 30, and
  \<open>processQty\<close> counts them.\<close>

definition table_inv :: "addr list \<Rightarrow> (addr \<Rightarrow> int option) \<Rightarrow> nat \<Rightarrow> bool" where
  "table_inv pl p qty = (distinct pl \<and> 0 \<notin> set pl \<and> length pl = qty \<and>
     (\<forall>a \<in> set pl. \<exists>i. p a = Some i \<and> 0 \<le> i \<and> i < int MAX_PROCESS) \<and> inj_on p (set pl))"

text \<open>Only the current process is RUNNING, and no TERMINATED process is on the list.\<close>

definition running_inv :: "addr list \<Rightarrow> (addr \<Rightarrow> process_state option) \<Rightarrow> addr \<Rightarrow> bool" where
  "running_inv pl s cur = (\<forall>a \<in> set pl. (s a = Some RUNNING \<longrightarrow> a = cur) \<and> s a \<noteq> Some TERMINATED)"

definition current_inv :: "addr list \<Rightarrow> (addr \<Rightarrow> process_state option) \<Rightarrow> (addr \<Rightarrow> int option) \<Rightarrow> addr \<Rightarrow> int \<Rightarrow> bool" where
  "current_inv pl s p cur cpid = (cur = 0 \<and> cpid = NO_PROCESS \<or>
     cur \<noteq> 0 \<and> p cur = Some cpid \<and> 0 \<le> cpid \<and> s cur \<noteq> None \<and> (cur \<in> set pl \<or> s cur = Some TERMINATED))"

definition queues_inv :: "addr list \<Rightarrow> addr list \<Rightarrow> addr list \<Rightarrow> (addr \<Rightarrow> process_state option) \<Rightarrow>
    (addr \<Rightarrow> int option) \<Rightarrow> addr \<Rightarrow> int \<Rightarrow> nat \<Rightarrow> bool" where
  "queues_inv pl rl bl s p cur cpid qty = (table_inv pl p qty \<and> queue_of pl s READY rl \<and>
     queue_of pl s BLOCKED bl \<and> running_inv pl s cur \<and> current_inv pl s p cur cpid)"

definition sched_ok :: "'a kernel_scheme \<Rightarrow> bool" where
  "sched_ok k = (scheduler k \<noteq> 0 \<and> procs k 0 = None \<and>
     queues_inv (PL k) (RL k) (BL k) (st k) (pd k) (currentProcess k) (currentPid k) (processQty k))"

lemmas inv_defs = queues_inv_def table_inv_def running_inv_def current_inv_def queue_of_def

subsection \<open>What changing one status does to the invariant\<close>

lemma queue_of_pop: "queue_of pl s x (a # q) \<Longrightarrow> y \<noteq> x \<Longrightarrow> queue_of pl (s(a \<mapsto> y)) x q"
  unfolding queue_of_def by auto

lemma queue_of_push: "queue_of pl s x q \<Longrightarrow> a \<in> set pl \<Longrightarrow> s a \<noteq> Some x \<Longrightarrow> queue_of pl (s(a \<mapsto> x)) x (q @ [a])"
  unfolding queue_of_def by auto

lemma queue_of_other: "queue_of pl s x q \<Longrightarrow> s a \<noteq> Some x \<Longrightarrow> y \<noteq> x \<Longrightarrow> queue_of pl (s(a \<mapsto> y)) x q"
  unfolding queue_of_def by auto

lemma queue_of_take: "queue_of pl s x q \<Longrightarrow> y \<noteq> x \<Longrightarrow> queue_of pl (s(a \<mapsto> y)) x (remove1 a q)"
  unfolding queue_of_def by auto

lemma queue_of_delete: "queue_of pl s x q \<Longrightarrow> distinct pl \<Longrightarrow> queue_of (remove1 a pl) (s(a := y)) x (remove1 a q)"
  unfolding queue_of_def by auto

lemma queue_of_new: "queue_of pl s x q \<Longrightarrow> a \<notin> set pl \<Longrightarrow> queue_of (pl @ [a]) (s(a \<mapsto> x)) x (q @ [a])"
  unfolding queue_of_def by auto

lemma queue_of_new_other: "queue_of pl s x q \<Longrightarrow> a \<notin> set pl \<Longrightarrow> y \<noteq> x \<Longrightarrow> queue_of (pl @ [a]) (s(a \<mapsto> y)) x q"
  unfolding queue_of_def by auto

lemma queue_of_outside: "queue_of pl s x q \<Longrightarrow> a \<notin> set pl \<Longrightarrow> queue_of pl (s(a := y)) x q"
  unfolding queue_of_def by auto

lemma inv_dispatch:
  assumes "queues_inv pl (a # rl) bl s p cur cpid qty" and "p a = Some i" and "s cur \<noteq> Some RUNNING \<or> cur \<notin> set pl"
  shows "queues_inv pl rl bl (s(a \<mapsto> RUNNING)) p a i qty"
proof -
  have a: "a \<in> set pl" "s a = Some READY" using assms(1) by (auto simp: queues_inv_def queue_of_def)
  have "a \<noteq> 0" "0 \<le> i" using a(1) assms(1,2) by (auto simp: queues_inv_def table_inv_def intro: gr0I)
  moreover have "running_inv pl (s(a \<mapsto> RUNNING)) a" using assms(1,3) by (auto simp: queues_inv_def running_inv_def)
  ultimately show ?thesis
    using assms(1,2) a unfolding queues_inv_def by (auto simp: current_inv_def queue_of_pop queue_of_other)
qed

lemma inv_to_ready:
  assumes "queues_inv pl rl bl s p cur cpid qty" and "a \<in> set pl" and "s a = Some x" "x \<noteq> READY"
  shows "queues_inv pl (rl @ [a]) (remove1 a bl) (s(a \<mapsto> READY)) p cur cpid qty"
proof -
  have "running_inv pl (s(a \<mapsto> READY)) cur" "current_inv pl (s(a \<mapsto> READY)) p cur cpid"
    using assms by (auto simp: queues_inv_def running_inv_def current_inv_def)
  then show ?thesis using assms unfolding queues_inv_def by (simp add: queue_of_push queue_of_take)
qed

lemma inv_to_blocked:
  assumes "queues_inv pl rl bl s p cur cpid qty" and "a \<in> set pl" and "s a = Some x" "x \<noteq> BLOCKED"
  shows "queues_inv pl (remove1 a rl) (bl @ [a]) (s(a \<mapsto> BLOCKED)) p cur cpid qty"
proof -
  have "running_inv pl (s(a \<mapsto> BLOCKED)) cur" "current_inv pl (s(a \<mapsto> BLOCKED)) p cur cpid"
    using assms by (auto simp: queues_inv_def running_inv_def current_inv_def)
  then show ?thesis using assms unfolding queues_inv_def by (simp add: queue_of_push queue_of_take)
qed

subsection \<open>Consequences\<close>

lemma sched_okD:
  assumes "sched_ok k"
  shows "scheduler k \<noteq> 0" and "distinct (PL k)" and "0 \<notin> set (PL k)"
    and "0 \<notin> set (RL k)" and "length (PL k) = processQty k" and "inj_on (pd k) (set (PL k))"
    and "queue_of (PL k) (st k) READY (RL k)" and "queue_of (PL k) (st k) BLOCKED (BL k)"
    and "running_inv (PL k) (st k) (currentProcess k)"
    and "current_inv (PL k) (st k) (pd k) (currentProcess k) (currentPid k)"
  using assms by (auto simp: sched_ok_def queues_inv_def table_inv_def queue_of_def)

lemma sched_ok_pcb:
  assumes "sched_ok k" and "a \<in> set (PL k)"
  obtains p where "procs k a = Some p" "a \<noteq> 0" "0 \<le> pid p" "pid p < 30" "status p \<noteq> TERMINATED"
    "status p = RUNNING \<Longrightarrow> a = currentProcess k"
proof -
  from assms obtain i where i: "pd k a = Some i" "0 \<le> i" "i < 30"
    by (auto simp: sched_ok_def queues_inv_def table_inv_def MAX_PROCESS_def)
  then obtain p where p: "procs k a = Some p" "pid p = i" by (auto dest: pd_SomeD)
  have "a \<noteq> 0" using assms(2) sched_okD(3) [OF assms(1)] by metis
  then show ?thesis
    using that [of p] p i sched_okD(9) [OF assms(1)] assms(2) st_Some [OF p(1)] by (auto simp: running_inv_def)
qed

lemma find_pid_spec:
  assumes "\<forall>a \<in> set as. a \<noteq> 0 \<and> h a \<noteq> None"
  shows "find_pid h as i = Some (case List.find (\<lambda>a. map_option pid (h a) = Some i) as of None \<Rightarrow> 0 | Some a \<Rightarrow> a)"
  using assms by (induction as) (auto simp: deref_def)

lemma findProcess_cases [consumes 1, case_names none found]:
  assumes "sched_ok k"
  obtains "findProcess i k = Some 0" "\<forall>a \<in> set (PL k). pd k a \<noteq> Some i"
  | a p where "findProcess i k = Some a" "a \<in> set (PL k)" "a \<noteq> 0" "procs k a = Some p" "pid p = i"
proof -
  have all: "a \<noteq> 0 \<and> procs k a \<noteq> None" if "a \<in> set (PL k)" for a
    using sched_ok_pcb [OF assms that] by blast
  have f: "findProcess i k = Some (case List.find (\<lambda>a. pd k a = Some i) (PL k) of None \<Rightarrow> 0 | Some a \<Rightarrow> a)"
    using find_pid_spec [of "PL k" "procs k"] all sched_okD(1) [OF assms] unfolding findProcess_def pd_apply PL_def
    by simp
  show ?thesis
  proof (cases "List.find (\<lambda>a. pd k a = Some i) (PL k)")
    case None
    then have "findProcess i k = Some 0" using f by simp
    moreover have "\<forall>a \<in> set (PL k). pd k a \<noteq> Some i" using None by (auto simp: find_None_iff)
    ultimately show ?thesis by (rule that(1))
  next
    case (Some a)
    then have a: "a \<in> set (PL k)" "pd k a = Some i" by (auto simp: find_Some_iff)
    then obtain p where "procs k a = Some p" "pid p = i" by (auto dest: pd_SomeD)
    then show ?thesis using f Some all [OF a(1)] that(2) [of a p] a(1) by simp
  qed
qed

lemma findProcess_in:
  assumes "sched_ok k" and "a \<in> set (PL k)" and "procs k a = Some p"
  shows "findProcess (pid p) k = Some a"
  using assms(1)
proof (cases rule: findProcess_cases [where i = "pid p"])
  case none
  with assms(2,3) show ?thesis by (auto simp: pd_Some)
next
  case (found b q)
  then have "pd k b = pd k a" using assms(3) by (simp add: pd_Some)
  with found(1,2) sched_okD(6) [OF assms(1)] assms(2) show ?thesis by (auto dest: inj_onD)
qed

lemma update_pcb_Some:
  "procs k a = Some p \<Longrightarrow> a \<noteq> 0 \<Longrightarrow> update_pcb a f k = Some (k\<lparr>procs := (procs k)(a \<mapsto> f p)\<rparr>)"
  by (simp add: update_pcb_def deref_simps)

lemma pd_same: "procs k a = Some p \<Longrightarrow> pid q = pid p \<Longrightarrow> (pd k)(a \<mapsto> pid q) = pd k"
  by (auto simp: pd_apply)

lemma st_same: "procs k a = Some p \<Longrightarrow> status q = status p \<Longrightarrow> (st k)(a \<mapsto> status q) = st k"
  by (auto simp: st_apply)

section \<open>Scheduling\<close>

lemma dispatch_Some:
  "procs k a = Some p \<Longrightarrow> a \<noteq> 0 \<Longrightarrow> dispatch a k = Some (stackPos p,
    k\<lparr>procs := (procs k)(a \<mapsto> p\<lparr>status := RUNNING\<rparr>), currentProcess := a, currentPid := pid p,
      quantums := int (priority p)\<rparr>)"
  by (simp add: dispatch_def deref_simps update_pcb_Some)

text \<open>The idle process is there and not blocked.\<close>

definition idle_ok :: "'a kernel_scheme \<Rightarrow> bool" where
  "idle_ok k = (\<exists>a \<in> set (PL k). pd k a = Some IDLE_PID \<and> st k a \<noteq> Some BLOCKED)"

text \<open>The ready queue that \<open>requeue\<close> leaves when the queue node it may need can be allocated,
  and the stack pointer a process is resumed with.\<close>

definition requeued :: "'a kernel_scheme \<Rightarrow> addr list" where
  "requeued k = RL k @ (if st k (currentProcess k) = Some RUNNING then [currentProcess k] else [])"

definition node_available :: "'a kernel_scheme \<Rightarrow> bool" where
  "node_available k = (st k (currentProcess k) = Some RUNNING \<longrightarrow>
     fst (seq_add (currentProcess k) (readyProcess k) (k_mm k)) \<noteq> 0)"

definition saved :: "nat \<Rightarrow> 'a kernel_scheme \<Rightarrow> addr \<Rightarrow> nat" where
  "saved r k a = (if a = currentProcess k then r else stackPos (the (procs k a)))"

lemma inv_forget:
  assumes "queues_inv pl rl bl s p cur cpid qty" and "s cur = Some TERMINATED"
  shows "queues_inv pl rl bl (s(cur := None)) (p(cur := None)) 0 NO_PROCESS qty"
proof -
  have cur: "cur \<notin> set pl" using assms by (auto simp: queues_inv_def running_inv_def)
  have "table_inv pl (p(cur := None)) qty"
    using assms(1) cur by (auto simp: queues_inv_def table_inv_def inj_on_def)
  moreover have "queue_of pl (s(cur := None)) READY rl" "queue_of pl (s(cur := None)) BLOCKED bl"
    using assms(1) cur by (auto simp: queues_inv_def queue_of_outside)
  moreover have "running_inv pl (s(cur := None)) 0"
    using assms(1) cur by (auto simp: queues_inv_def running_inv_def)
  ultimately show ?thesis by (simp add: queues_inv_def current_inv_def)
qed

lemma current_cases:
  assumes "sched_ok k"
  obtains "currentProcess k = 0" "currentPid k = NO_PROCESS"
  | p where "currentProcess k \<noteq> 0" "procs k (currentProcess k) = Some p" "status p = TERMINATED"
      "currentProcess k \<notin> set (PL k)" "pid p = currentPid k" "0 \<le> currentPid k"
  | p where "currentProcess k \<noteq> 0" "procs k (currentProcess k) = Some p" "status p \<noteq> TERMINATED"
      "currentProcess k \<in> set (PL k)" "pid p = currentPid k" "0 \<le> currentPid k"
proof -
  note c = sched_okD(9,10) [OF assms]
  show ?thesis
  proof (cases "currentProcess k = 0")
    case True
    then have "currentPid k = NO_PROCESS" using c(2) by (simp add: current_inv_def)
    with True show ?thesis by (rule that(1))
  next
    case False
    with c(2) obtain p where p: "procs k (currentProcess k) = Some p" "pid p = currentPid k" "0 \<le> currentPid k"
      by (auto simp: current_inv_def dest: pd_SomeD)
    have s: "st k (currentProcess k) = Some (status p)" using p(1) by (rule st_Some)
    show ?thesis
    proof (cases "status p = TERMINATED")
      case True
      then have "currentProcess k \<notin> set (PL k)" using c(1) s by (auto simp: running_inv_def)
      with False p True show ?thesis by (intro that(2))
    next
      case nt: False
      then have "currentProcess k \<in> set (PL k)" using c(2) s False by (simp add: current_inv_def)
      with False p nt show ?thesis by (intro that(3))
    qed
  qed
qed

lemma requeue_ok:
  assumes ok: "sched_ok k" and node: "node_available k"
  obtains k1 where "requeue r k = Some k1" "RL k1 = requeued k" "BL k1 = BL k" "PL k1 = PL k"
    "scheduler k1 = scheduler k" "processQty k1 = processQty k" "created k1 = created k" "procs k1 0 = None"
    "queues_inv (PL k) (RL k1) (BL k) (st k1) (pd k1) (currentProcess k1) (currentPid k1) (processQty k)"
    "st k1 (currentProcess k1) \<noteq> Some RUNNING"
    "\<And>a p. a \<in> set (PL k) \<Longrightarrow> procs k a = Some p \<Longrightarrow> \<exists>q. procs k1 a = Some q \<and> stackPos q = saved r k a \<and>
       priority q = priority p \<and> pid q = pid p \<and> (status q = BLOCKED \<longleftrightarrow> status p = BLOCKED)"
  using ok
proof (cases rule: current_cases)
  case 1
  have "procs k 0 = None" using ok by (simp add: sched_ok_def)
  then have st0: "st k 0 = None" by (simp add: st_apply)
  have "requeue r k = Some k" using 1 by (simp add: requeue_def)
  then show ?thesis
  proof (rule that)
    show "RL k = requeued k" using 1 st0 by (simp add: requeued_def)
    show "st k (currentProcess k) \<noteq> Some RUNNING" using 1 st0 by simp
    show "queues_inv (PL k) (RL k) (BL k) (st k) (pd k) (currentProcess k) (currentPid k) (processQty k)"
      using ok by (simp add: sched_ok_def)
    show "\<exists>q. procs k a = Some q \<and> stackPos q = saved r k a \<and> priority q = priority p \<and> pid q = pid p \<and>
        (status q = BLOCKED \<longleftrightarrow> status p = BLOCKED)" if "a \<in> set (PL k)" "procs k a = Some p" for a p
      using that 1 sched_okD(3) [OF ok] by (auto simp: saved_def)
  qed (use ok in \<open>simp_all add: sched_ok_def\<close>)
next
  case (2 p)
  let ?c = "currentProcess k"
  let ?k = "k\<lparr>k_mm := freeProcess ?c p (k_mm k), procs := (procs k)(?c := None), currentProcess := 0,
    currentPid := NO_PROCESS\<rparr>"
  have st: "st k ?c = Some TERMINATED" using 2 by (simp add: st_Some)
  have "requeue r k = Some ?k" using 2 by (simp add: requeue_def deref_simps free_pcb_def)
  then show ?thesis
  proof (rule that)
    show "RL ?k = requeued k" using st by (simp add: requeued_def)
    show "st ?k (currentProcess ?k) \<noteq> Some RUNNING" using ok by (simp add: sched_ok_def st_apply)
    show "queues_inv (PL k) (RL ?k) (BL k) (st ?k) (pd ?k) (currentProcess ?k) (currentPid ?k) (processQty k)"
      using inv_forget [of "PL k" "RL k" "BL k" "st k" "pd k" ?c "currentPid k" "processQty k"] st ok
      by (simp add: sched_ok_def)
    show "\<exists>q. procs ?k a = Some q \<and> stackPos q = saved r k a \<and> priority q = priority p \<and> pid q = pid p \<and>
        (status q = BLOCKED \<longleftrightarrow> status p = BLOCKED)" if "a \<in> set (PL k)" "procs k a = Some p" for a p
      using that 2 by (auto simp: saved_def)
  qed (use ok in \<open>simp_all add: sched_ok_def\<close>)
next
  case (3 p)
  let ?c = "currentProcess k"
  have st: "st k ?c = Some (status p)" using 3 by (simp add: st_Some)
  note inv = ok [unfolded sched_ok_def]
  show ?thesis
  proof (cases "status p = RUNNING")
    case False
    let ?k = "k\<lparr>procs := (procs k)(?c \<mapsto> p\<lparr>stackPos := r\<rparr>)\<rparr>"
    have same: "st ?k = st k" "pd ?k = pd k" using 3 by (simp_all add: fun_upd_idem st_Some pd_Some)
    have "requeue r k = Some ?k" using 3 False by (simp add: requeue_def deref_simps update_pcb_Some)
    then show ?thesis
    proof (rule that)
      show "RL ?k = requeued k" "st ?k (currentProcess ?k) \<noteq> Some RUNNING"
        using st False same by (simp_all add: requeued_def)
      show "queues_inv (PL k) (RL ?k) (BL k) (st ?k) (pd ?k) (currentProcess ?k) (currentPid ?k) (processQty k)"
        using inv same by simp
    qed (use 3 ok in \<open>auto simp: saved_def sched_ok_def\<close>)
  next
    case True
    let ?k = "k\<lparr>procs := (procs k)(?c \<mapsto> p\<lparr>stackPos := r, status := READY\<rparr>)\<rparr>"
    obtain n k1 where add: "add_ready ?c ?k = (n, k1)" by force
    moreover have "n \<noteq> 0"
      using node add st True by (auto simp: node_available_def add_ready_def split: prod.splits)
    ultimately obtain l m where k1: "k1 = ?k\<lparr>readyProcess := l, k_mm := m\<rparr>" "l_data l = RL k @ [?c]"
      by (auto elim!: add_readyE)
    have "requeue r k = Some k1"
      using 3 True add by (simp add: requeue_def deref_simps update_pcb_Some)
    then show ?thesis
    proof (rule that)
      have st1: "st k1 = (st k)(?c \<mapsto> READY)" "pd k1 = pd k" using 3 by (simp_all add: k1 fun_upd_idem pd_Some)
      show "RL k1 = requeued k" using st True by (simp add: k1 requeued_def)
      show "st k1 (currentProcess k1) \<noteq> Some RUNNING" using st1 by (simp add: k1)
      have "remove1 ?c (BL k) = BL k"
        using sched_okD(8) [OF ok] st True by (auto simp: queue_of_def intro: remove1_idem)
      with inv_to_ready [of "PL k" "RL k" "BL k" "st k" "pd k" ?c "currentPid k" "processQty k" ?c RUNNING]
      show "queues_inv (PL k) (RL k1) (BL k) (st k1) (pd k1) (currentProcess k1) (currentPid k1) (processQty k)"
        using inv st True 3 st1 by (simp add: k1)
    qed (use 3 True ok in \<open>auto simp: k1 saved_def sched_ok_def\<close>)
  qed
qed

lemma sched_ok_quantums [simp]: "sched_ok (k\<lparr>quantums := q\<rparr>) = sched_ok k"
  by (simp add: sched_ok_def)

lemma idle_requeued:
  assumes "sched_ok k" and "idle_ok k"
  shows "requeued k \<noteq> []"
proof -
  from assms(2) obtain a where a: "a \<in> set (PL k)" "st k a \<noteq> Some BLOCKED" by (auto simp: idle_ok_def)
  from sched_ok_pcb [OF assms(1) a(1)] obtain p where
    p: "procs k a = Some p" "status p \<noteq> TERMINATED" "status p = RUNNING \<Longrightarrow> a = currentProcess k" by blast
  have s: "st k a = Some (status p)" using p(1) by (rule st_Some)
  show ?thesis
  proof (cases "status p")
    case READY
    then have "a \<in> set (RL k)" using sched_okD(7) [OF assms(1)] a(1) s by (simp add: queue_of_def)
    then show ?thesis by (auto simp: requeued_def)
  next
    case RUNNING
    then show ?thesis using p(3) s by (simp add: requeued_def)
  qed (use p a s in simp_all)
qed

lemma first_and_dispatch:
  assumes q: "queues_inv (PL k) (RL k) (BL k) (st k) (pd k) (currentProcess k) (currentPid k) (processQty k)"
    and k: "scheduler k \<noteq> 0" "procs k 0 = None" "st k (currentProcess k) \<noteq> Some RUNNING" and ne: "RL k \<noteq> []"
    and first: "first_ready k = (a, k2)"
  obtains p k' where "a = hd (RL k)" "procs k a = Some p" "a \<noteq> 0" "a \<in> set (PL k)"
    "dispatch a (k2\<lparr>currentProcess := c\<rparr>) = Some (stackPos p, k')"
    "dispatch a k2 = Some (stackPos p, k')" "sched_ok k'" "currentProcess k' = a" "currentPid k' = pid p"
    "quantums k' = int (priority p)" "RL k' = tl (RL k)" "BL k' = BL k" "PL k' = PL k"
    "st k' = (st k)(a \<mapsto> RUNNING)" "created k' = created k" "processQty k' = processQty k"
    "pd k' = pd k" "procs k' = (procs k)(a \<mapsto> p\<lparr>status := RUNNING\<rparr>)"
proof -
  have z: "0 \<notin> set (PL k)" "queue_of (PL k) (st k) READY (RL k)" using q by (auto simp: queues_inv_def table_inv_def)
  then have "0 \<notin> set (RL k)" by (auto simp: queue_of_def)
  with first ne obtain l m where f: "k2 = k\<lparr>readyProcess := l, k_mm := m\<rparr>" "a \<noteq> 0" "RL k = a # l_data l"
    by (auto elim!: first_readyE)
  then have a: "a \<in> set (PL k)" "st k a = Some READY" using z(2) by (auto simp: queue_of_def)
  then obtain p where p: "procs k a = Some p" "status p = READY" by (auto dest: st_SomeD)
  let ?k = "k2\<lparr>procs := (procs k2)(a \<mapsto> p\<lparr>status := RUNNING\<rparr>), currentProcess := a, currentPid := pid p,
      quantums := int (priority p)\<rparr>"
  have d: "dispatch a k2 = Some (stackPos p, ?k)" "dispatch a (k2\<lparr>currentProcess := c\<rparr>) = Some (stackPos p, ?k)"
    using dispatch_Some [of k2 a p] dispatch_Some [of "k2\<lparr>currentProcess := c\<rparr>" a p] p f(1,2) by simp_all
  have view: "PL ?k = PL k" "RL ?k = l_data l" "BL ?k = BL k" "st ?k = (st k)(a \<mapsto> RUNNING)" "pd ?k = pd k"
      "processQty ?k = processQty k" "scheduler ?k = scheduler k"
    using p by (simp_all add: f(1) fun_upd_idem pd_Some)
  have "pd k a = Some (pid p)" using p by (simp add: pd_Some)
  from inv_dispatch [OF q [unfolded f(3)] this disjI1 [OF k(3)]]
  have "sched_ok ?k" unfolding sched_ok_def view using k(1,2) f(1,2) by simp
  then show ?thesis
    using d p f a view by (intro that [of p ?k]) simp_all
qed

text \<open>Every switch: the running process, if it still can run, goes to the end of the ready queue,
  the head of the queue is dispatched with its priority as its quantum.\<close>

lemma schedule_switch:
  assumes ok: "sched_ok k" and cr: "created k" and idle: "idle_ok k" and node: "node_available k"
    and q: "quantums k \<le> 1"
  obtains a p k' where "requeued k = a # RL k'" "procs k a = Some p" "schedule r k = Some (saved r k a, k')"
    "sched_ok k'" "created k'" "currentProcess k' = a" "quantums k' = int (priority p)" "currentPid k' = pid p"
    "PL k' = PL k" "BL k' = BL k" "idle_ok k'" "pd k' a = Some (pid p)" "st k' a = Some RUNNING"
    "\<And>b p. b \<in> set (PL k) \<Longrightarrow> b \<noteq> a \<Longrightarrow> procs k b = Some p \<Longrightarrow>
       \<exists>q. procs k' b = Some q \<and> stackPos q = saved r k b \<and> priority q = priority p"
proof -
  let ?k = "k\<lparr>quantums := quantums k - 1\<rparr>"
  have okk: "sched_ok ?k" and req: "requeued ?k = requeued k" "node_available ?k" "\<And>b. saved r ?k b = saved r k b"
    using ok node by (simp_all add: requeued_def node_available_def saved_def)
  obtain k1 where R: "requeue r ?k = Some k1" "RL k1 = requeued k" "BL k1 = BL k" "PL k1 = PL k"
    "scheduler k1 = scheduler k" "processQty k1 = processQty k" "created k1 = created k" "procs k1 0 = None"
    "queues_inv (PL k) (RL k1) (BL k) (st k1) (pd k1) (currentProcess k1) (currentPid k1) (processQty k)"
    "st k1 (currentProcess k1) \<noteq> Some RUNNING"
    and P: "\<And>a p. a \<in> set (PL k) \<Longrightarrow> procs k a = Some p \<Longrightarrow> \<exists>q. procs k1 a = Some q \<and> stackPos q = saved r k a \<and>
       priority q = priority p \<and> pid q = pid p \<and> (status q = BLOCKED \<longleftrightarrow> status p = BLOCKED)"
    by (rule requeue_ok [OF okk req(2), of r]) (simp add: req)
  have inv1: "queues_inv (PL k1) (RL k1) (BL k1) (st k1) (pd k1) (currentProcess k1) (currentPid k1) (processQty k1)"
    using R by simp
  obtain a k2 where first: "first_ready k1 = (a, k2)" by force
  have sch: "scheduler k \<noteq> 0" using sched_okD(1) [OF ok] .
  have ne: "RL k1 \<noteq> []" using idle_requeued [OF ok idle] R(2) by simp
  have sch1: "scheduler k1 \<noteq> 0" using R(5) sch by simp
  obtain p' k' where D: "a = hd (RL k1)" "procs k1 a = Some p'" "a \<noteq> 0" "a \<in> set (PL k1)"
    "dispatch a (k2\<lparr>currentProcess := a\<rparr>) = Some (stackPos p', k')" "dispatch a k2 = Some (stackPos p', k')"
    "sched_ok k'" "currentProcess k' = a" "currentPid k' = pid p'" "quantums k' = int (priority p')"
    "RL k' = tl (RL k1)" "BL k' = BL k1" "PL k' = PL k1" "st k' = (st k1)(a \<mapsto> RUNNING)"
    "created k' = created k1" "processQty k' = processQty k1" "pd k' = pd k1"
    "procs k' = (procs k1)(a \<mapsto> p'\<lparr>status := RUNNING\<rparr>)"
    using first_and_dispatch [OF inv1 sch1 R(8,10) ne first, where c = a] by blast
  have aPL: "a \<in> set (PL k)" using D(4) R(4) by simp
  then obtain p where p: "procs k a = Some p" using sched_ok_pcb [OF ok] by blast
  from P [OF aPL p] D(2) have pp: "stackPos p' = saved r k a" "priority p' = priority p" "pid p' = pid p" by auto
  have qty: "processQty k \<noteq> 0" using sched_okD(5) [OF ok] aPL by (metis length_0_conv list.set(1) empty_iff)
  have sched: "schedule r k = Some (stackPos p', k')"
  proof (cases "currentPid k = NO_PROCESS")
    case True
    with ok have "currentProcess k = 0"
      by (cases rule: current_cases) (auto simp: NO_PROCESS_def)
    then have "k1 = ?k" using R(1) by (simp add: requeue_def)
    with True D(3,5) first q cr sch qty show ?thesis by (simp add: schedule_def Let_def)
  next
    case False
    with R(1) D(3,6) first q cr sch qty show ?thesis by (simp add: schedule_def Let_def)
  qed
  have f_idle: "idle_ok k'"
  proof -
    from idle obtain i where i: "i \<in> set (PL k)" "pd k i = Some IDLE_PID" "st k i \<noteq> Some BLOCKED"
      by (auto simp: idle_ok_def)
    then obtain pi where pi: "procs k i = Some pi" "pid pi = IDLE_PID" by (auto dest: pd_SomeD)
    from P [OF i(1) pi(1)] obtain qi where qi: "procs k1 i = Some qi" "pid qi = IDLE_PID"
        "status qi = BLOCKED \<longleftrightarrow> status pi = BLOCKED" using pi(2) by auto
    then have "pd k1 i = Some IDLE_PID" "st k1 i \<noteq> Some BLOCKED"
      using i(3) pi(1) by (auto simp: st_apply pd_apply)
    then show ?thesis using i(1) D(13,14,17) R(4) by (auto simp: idle_ok_def)
  qed
  have f_frame: "\<exists>q. procs k' b = Some q \<and> stackPos q = saved r k b \<and> priority q = priority p"
    if "b \<in> set (PL k)" "b \<noteq> a" "procs k b = Some p" for b p
    using P [OF that(1,3)] that(2) D(18) by auto
  have f: "requeued k = a # RL k'" "schedule r k = Some (saved r k a, k')" "created k'"
      "quantums k' = int (priority p)" "currentPid k' = pid p" "PL k' = PL k" "BL k' = BL k"
      "pd k' a = Some (pid p)" "st k' a = Some RUNNING"
    using D(1,11) R(2) ne apply simp
    using sched pp(1) apply simp
    using D(15) R(7) cr apply simp
    using D(10) pp(2) apply simp
    using D(9) pp(3) apply simp
    using D(13) R(4) apply simp
    using D(12) R(3) apply simp
    using D(2,17) pp(3) apply (simp add: pd_apply)
    using D(14) by simp
  show ?thesis
    by (rule that [OF f(1) p f(2) D(7) f(3) D(8) f(4,5,6,7) f_idle f(8,9) f_frame])
qed

section \<open>Blocking, waking and killing\<close>

text \<open>The queue part of the invariant, for a process list \<open>pl\<close> that may lack a process that is
  being killed, and what the operations on the queues leave alone.\<close>

definition core_inv :: "addr list \<Rightarrow> 'a kernel_scheme \<Rightarrow> bool" where
  "core_inv pl k = (queue_of pl (st k) READY (RL k) \<and> queue_of pl (st k) BLOCKED (BL k) \<and>
     running_inv pl (st k) (currentProcess k))"

definition same_table :: "'a kernel_scheme \<Rightarrow> 'a kernel_scheme \<Rightarrow> bool" where
  "same_table k k' = (PL k' = PL k \<and> pd k' = pd k \<and> currentProcess k' = currentProcess k \<and>
     currentPid k' = currentPid k \<and> processQty k' = processQty k \<and> quantums k' = quantums k \<and>
     scheduler k' = scheduler k \<and> created k' = created k \<and> procs k' 0 = procs k 0 \<and> kernel.more k' = kernel.more k)"

lemma same_table_refl: "same_table k k"
  by (simp add: same_table_def)

lemma same_table_trans: "same_table k k1 \<Longrightarrow> same_table k1 k2 \<Longrightarrow> same_table k k2"
  by (simp add: same_table_def)

lemma sched_ok_core: "sched_ok k \<longleftrightarrow> scheduler k \<noteq> 0 \<and> procs k 0 = None \<and>
    table_inv (PL k) (pd k) (processQty k) \<and> core_inv (PL k) k \<and>
    current_inv (PL k) (st k) (pd k) (currentProcess k) (currentPid k)"
  by (auto simp: sched_ok_def queues_inv_def core_inv_def)

lemma table_find:
  assumes "scheduler k \<noteq> 0" and "table_inv (PL k) (pd k) n" and "a \<in> set (PL k)" and "procs k a = Some p"
  shows "findProcess (pid p) k = Some a"
proof -
  have "b \<noteq> 0 \<and> procs k b \<noteq> None" if "b \<in> set (PL k)" for b
    using assms(2) that by (metis (no_types, lifting) option.simps(8) pd_apply table_inv_def option.distinct(1))
  then have "findProcess (pid p) k = Some (case List.find (\<lambda>b. map_option pid (procs k b) = Some (pid p)) (PL k) of
      None \<Rightarrow> 0 | Some b \<Rightarrow> b)"
    using find_pid_spec [of "PL k" "procs k"] assms(1) unfolding findProcess_def PL_def by simp
  moreover have "List.find (\<lambda>b. map_option pid (procs k b) = Some (pid p)) (PL k) = Some a"
  proof (cases "List.find (\<lambda>b. map_option pid (procs k b) = Some (pid p)) (PL k)")
    case None
    with assms(3,4) show ?thesis by (auto simp: find_None_iff)
  next
    case (Some b)
    then have "b \<in> set (PL k)" "pd k b = pd k a" using assms(4) by (auto simp: find_Some_iff pd_apply)
    with assms(2,3) have "b = a" by (auto simp: table_inv_def dest: inj_onD)
    with Some show ?thesis by simp
  qed
  ultimately show ?thesis by simp
qed

lemma core_to_ready:
  assumes "core_inv pl k" and "a \<in> set pl" and "st k a = Some x" and "x \<noteq> READY"
    and "RL k' = RL k @ [a]" and "BL k' = remove1 a (BL k)" and "st k' = (st k)(a \<mapsto> READY)"
    and "currentProcess k' = currentProcess k"
  shows "core_inv pl k'"
  using assms by (auto simp: core_inv_def queue_of_push queue_of_take running_inv_def)

lemma setReady_cases:
  assumes sch: "scheduler k \<noteq> 0" and tab: "table_inv (PL k) (pd k) n" and core: "core_inv pl k"
    and a: "a \<in> set pl" "a \<in> set (PL k)" "procs k a = Some p"
  obtains (same) "status p \<noteq> BLOCKED" "setReadyProcess (pid p) k = Some (0, k)"
  | (woken) k' where "status p = BLOCKED" "setReadyProcess (pid p) k = Some (0, k')" "same_table k k'"
      "core_inv pl k'" "procs k' = (procs k)(a \<mapsto> p\<lparr>status := READY\<rparr>)" "RL k' = RL k @ [a]"
      "BL k' = remove1 a (BL k)"
  | (lost) k' where "status p = BLOCKED" "setReadyProcess (pid p) k = Some (- 1, k')" "procs k' = procs k"
      "RL k' = RL k" "BL k' = remove1 a (BL k)" "PL k' = PL k"
proof (cases "status p = BLOCKED")
  case False
  have "a \<noteq> 0" using a(2) tab by (auto simp: table_inv_def intro: gr0I)
  then have "setReadyProcess (pid p) k = Some (0, k)"
    using False table_find [OF sch tab a(2,3)] a(3) by (simp add: setReadyProcess_def deref_simps)
  with False show ?thesis by (rule same)
next
  case True
  have nz: "a \<noteq> 0" using a(2) tab by (auto simp: table_inv_def intro: gr0I)
  have s: "st k a = Some BLOCKED" using a(3) True by (simp add: st_Some)
  then have "a \<in> set (BL k)" using core a(1) by (simp add: core_inv_def queue_of_def)
  obtain d k1 where rem: "remove_blocked a k = (d, k1)" by force
  with nz obtain l m where k1: "k1 = k\<lparr>blockedProcess := l, k_mm := m\<rparr>" "l_data l = remove1 a (BL k)" "d = a"
    using \<open>a \<in> set (BL k)\<close> by (auto elim!: remove_blockedE)
  obtain n' k2 where add: "add_ready a k1 = (n', k2)" by force
  then obtain l' m' where k2: "k2 = k1\<lparr>readyProcess := l', k_mm := m'\<rparr>"
      "l_data l' = (if n' = 0 then RL k1 else RL k1 @ [a])" by (rule add_readyE)
  note f = table_find [OF sch tab a(2,3)]
  show ?thesis
  proof (cases "n' = 0")
    case True
    then have "setReadyProcess (pid p) k = Some (- 1, k2)"
      using f a(3) nz rem add k1(3) \<open>status p = BLOCKED\<close> by (simp add: setReadyProcess_def deref_simps)
    with \<open>status p = BLOCKED\<close> show ?thesis by (rule lost) (use True k1 k2 in simp_all)
  next
    case False
    let ?k = "k2\<lparr>procs := (procs k2)(a \<mapsto> p\<lparr>status := READY\<rparr>)\<rparr>"
    have up: "update_pcb a (status_update (\<lambda>_. READY)) k2 = Some ?k"
      using a(3) nz k1(1) k2(1) by (intro update_pcb_Some) simp_all
    have call: "setReadyProcess (pid p) k = Some (0, ?k)"
      using f a(3) nz rem add k1(3) \<open>status p = BLOCKED\<close> False up by (simp add: setReadyProcess_def deref_simps)
    have view: "RL ?k = RL k @ [a]" "BL ?k = remove1 a (BL k)" "st ?k = (st k)(a \<mapsto> READY)"
        "procs ?k = (procs k)(a \<mapsto> p\<lparr>status := READY\<rparr>)" "currentProcess ?k = currentProcess k"
      using k1 k2 False by simp_all
    have "same_table k ?k"
      using nz a(3) by (simp add: same_table_def k1(1) k2(1) fun_upd_idem pd_Some)
    from woken [OF \<open>status p = BLOCKED\<close> call this core_to_ready [OF core a(1) s _ view(1,2,3,5)] view(4,1,2)]
    show ?thesis by simp
  qed
qed

text \<open>The results of the \<open>setReadyProcess\<close> calls of \<open>kill\<close>, which it ignores.\<close>

fun wake_results :: "addr list \<Rightarrow> 'a kernel_scheme \<Rightarrow> int list option" where
  "wake_results [] k = Some []"
| "wake_results (a # as) k =
     (if a = 0 then wake_results as k
      else do {
        p \<leftarrow> deref (procs k) a;
        (r, k) \<leftarrow> setReadyProcess (pid p) k;
        rs \<leftarrow> wake_results as k;
        Some (r # rs)
      })"

lemma wake_all_ok:
  assumes "scheduler k \<noteq> 0" and "table_inv (PL k) (pd k) n" and "core_inv pl k"
    and "set as \<subseteq> set pl" and "set pl \<subseteq> set (PL k)"
    and "wake_results as k = Some rs" and "set rs \<subseteq> {0}"
  obtains k' where "wake_all as k = Some k'" "same_table k k'" "core_inv pl k'"
    "\<And>b. b \<notin> set as \<Longrightarrow> procs k' b = procs k b"
    "\<And>b. b \<in> set as \<Longrightarrow> st k' b \<noteq> Some BLOCKED"
  using assms
proof (induction as arbitrary: k rs thesis)
  case Nil
  show ?case by (rule Nil(1) [of k]) (use Nil in \<open>auto simp: same_table_refl\<close>)
next
  case (Cons a as)
  have aPL: "a \<in> set pl" "a \<in> set (PL k)" using Cons(6,7) by auto
  then have nz: "a \<noteq> 0" using Cons(4) by (auto simp: table_inv_def intro: gr0I)
  from Cons(4) aPL(2) obtain p where p: "procs k a = Some p"
    by (auto simp: table_inv_def dest!: bspec dest: pd_SomeD)
  have again: thesis if k1: "setReadyProcess (pid p) k = Some (0, k1)" "same_table k k1" "core_inv pl k1"
      "\<And>b. b \<noteq> a \<Longrightarrow> procs k1 b = procs k b" "st k1 a \<noteq> Some BLOCKED" for k1
  proof -
    from Cons(8,9) k1(1) nz p obtain rs' where rs: "wake_results as k1 = Some rs'" "set rs' \<subseteq> {0}"
      by (auto simp: deref_simps split: bind_splits)
    have t: "scheduler k1 \<noteq> 0" "table_inv (PL k1) (pd k1) n" "set pl \<subseteq> set (PL k1)" "set as \<subseteq> set pl"
      using k1(2) Cons(3,4,6,7) by (auto simp: same_table_def)
    obtain k' where k': "wake_all as k1 = Some k'" "same_table k1 k'" "core_inv pl k'"
      "\<And>b. b \<notin> set as \<Longrightarrow> procs k' b = procs k1 b" "\<And>b. b \<in> set as \<Longrightarrow> st k' b \<noteq> Some BLOCKED"
      by (rule Cons(1) [OF _ t(1,2) k1(3) t(4,3) rs]) blast
    have all: "wake_all (a # as) k = Some k'" using nz p k1(1) k'(1) by (simp add: deref_simps)
    have fr: "procs k' b = procs k b" if "b \<notin> set (a # as)" for b using that k'(4) k1(4) by simp
    have wk: "st k' b \<noteq> Some BLOCKED" if "b \<in> set (a # as)" for b
      using that k'(4,5) k1(5) by (cases "b \<in> set as") (auto simp: st_apply)
    show thesis by (rule Cons(2) [OF all same_table_trans [OF k1(2) k'(2)] k'(3) fr wk])
  qed
  show ?case
  proof (rule setReady_cases [OF Cons(3,4,5) aPL p])
    assume "status p \<noteq> BLOCKED" "setReadyProcess (pid p) k = Some (0, k)"
    then show thesis by (intro again [of k]) (use Cons(5) p in \<open>auto simp: same_table_refl st_apply\<close>)
  next
    fix k' assume "status p = BLOCKED" "setReadyProcess (pid p) k = Some (0, k')" "same_table k k'"
      "core_inv pl k'" "procs k' = (procs k)(a \<mapsto> p\<lparr>status := READY\<rparr>)" "RL k' = RL k @ [a]"
    then show thesis by (intro again [of k']) (auto simp: st_apply)
  next
    fix k' assume "setReadyProcess (pid p) k = Some (- 1, k')"
    with Cons(8,9) nz p show thesis by (auto simp: deref_simps split: bind_splits)
  qed
qed

lemma core_to_blocked:
  assumes "core_inv pl k" and "a \<in> set pl" and "st k a = Some x" and "x \<noteq> BLOCKED"
    and "RL k' = remove1 a (RL k)" and "BL k' = BL k @ [a]" and "st k' = (st k)(a \<mapsto> BLOCKED)"
    and "currentProcess k' = currentProcess k"
  shows "core_inv pl k'"
  using assms by (auto simp: core_inv_def queue_of_push queue_of_take running_inv_def)

lemma current_same_table:
  assumes "current_inv (PL k) (st k) (pd k) (currentProcess k) (currentPid k)" and "same_table k k'"
    and "st k' (currentProcess k) = st k (currentProcess k) \<or>
      currentProcess k \<in> set (PL k) \<and> st k' (currentProcess k) \<noteq> None"
  shows "current_inv (PL k') (st k') (pd k') (currentProcess k') (currentPid k')"
  using assms by (auto simp: current_inv_def same_table_def)

text \<open>Blocking a process that is not blocked, up to the \<open>yield\<close>.\<close>

definition block_rest :: "int \<Rightarrow> nat \<Rightarrow> 'a kernel_scheme \<Rightarrow> (int \<times> 'a kernel_scheme) option" where
  "block_rest i r k = do { c \<leftarrow> getPid k; k \<leftarrow> (if c = i then yield r k else Some k); Some (0, k) }"

lemma block_step:
  assumes ok: "sched_ok k" and a: "a \<in> set (PL k)" "procs k a = Some p" "status p \<noteq> BLOCKED"
  obtains (blocked) k' where "blockProcess (pid p) r k = block_rest (pid p) r k'" "same_table k k'" "sched_ok k'"
      "procs k' = (procs k)(a \<mapsto> p\<lparr>status := BLOCKED\<rparr>)" "RL k' = remove1 a (RL k)" "BL k' = BL k @ [a]"
  | (lost) k' where "blockProcess (pid p) r k = Some (- 1, k')" "procs k' = procs k" "RL k' = remove1 a (RL k)"
      "BL k' = BL k" "PL k' = PL k"
proof -
  from ok [unfolded sched_ok_core] have sch: "scheduler k \<noteq> 0" and tab: "table_inv (PL k) (pd k) (processQty k)"
    and core: "core_inv (PL k) k" and cur: "current_inv (PL k) (st k) (pd k) (currentProcess k) (currentPid k)" by auto
  have nz: "a \<noteq> 0" using a(1) tab by (auto simp: table_inv_def intro: gr0I)
  note f = table_find [OF sch tab a(1,2)]
  have s: "st k a = Some (status p)" using a(2) by (rule st_Some)
  have "status p \<noteq> TERMINATED" using sched_ok_pcb [OF ok a(1)] a(2) by (metis option.inject)
  then have cases: "status p = RUNNING \<or> status p = READY"
    using a(3) by (cases "status p") auto
  obtain d k0 where rem: "remove_ready a k = (d, k0)" by force
  define k1 where "k1 = (if status p = READY then k0 else k)"
  have k0: "\<exists>l m. k1 = k\<lparr>readyProcess := l, k_mm := m\<rparr> \<and> l_data l = remove1 a (RL k)"
  proof (cases "status p = READY")
    case True
    from rem nz obtain l m where "k0 = k\<lparr>readyProcess := l, k_mm := m\<rparr>" "l_data l = remove1 a (RL k)"
      by (rule remove_readyE)
    with True show ?thesis by (auto simp: k1_def)
  next
    case False
    then have "a \<notin> set (RL k)" using core a(1) s by (simp add: core_inv_def queue_of_def)
    then show ?thesis using False
      by (intro exI [of _ "readyProcess k"] exI [of _ "k_mm k"]) (simp add: k1_def RL_def [symmetric] remove1_idem)
  qed
  have d: "status p = READY \<Longrightarrow> d \<noteq> 0"
    using rem nz s core a(1) by (auto simp: core_inv_def queue_of_def elim!: remove_readyE)
  obtain l m where k1: "k1 = k\<lparr>readyProcess := l, k_mm := m\<rparr>" "l_data l = remove1 a (RL k)" using k0 by blast
  obtain n k2 where add: "add_blocked a k1 = (n, k2)" by force
  then obtain l' m' where k2: "k2 = k1\<lparr>blockedProcess := l', k_mm := m'\<rparr>"
      "l_data l' = (if n = 0 then BL k1 else BL k1 @ [a])" by (rule add_blockedE)
  let ?k = "k2\<lparr>procs := (procs k2)(a \<mapsto> p\<lparr>status := BLOCKED\<rparr>)\<rparr>"
  have up: "update_pcb a (status_update (\<lambda>_. BLOCKED)) k2 = Some ?k"
    using a(2) nz k1(1) k2(1) by (intro update_pcb_Some) simp_all
  have call: "blockProcess (pid p) r k = (if n = 0 then Some (- 1, k2) else block_rest (pid p) r ?k)"
  proof (cases "status p = READY")
    case True
    then show ?thesis using f a(2) nz rem d add up
      by (simp add: blockProcess_def deref_simps k1_def block_rest_def)
  next
    case False
    then show ?thesis using f a(2) nz cases add up
      by (simp add: blockProcess_def deref_simps k1_def block_rest_def)
  qed
  show ?thesis
  proof (cases "n = 0")
    case True
    show ?thesis by (rule lost [of k2]) (use call True k1 k2 in simp_all)
  next
    case False
    have view: "RL ?k = remove1 a (RL k)" "BL ?k = BL k @ [a]" "st ?k = (st k)(a \<mapsto> BLOCKED)"
        "procs ?k = (procs k)(a \<mapsto> p\<lparr>status := BLOCKED\<rparr>)" "currentProcess ?k = currentProcess k"
      using k1 k2 False by simp_all
    have same: "same_table k ?k"
      using nz a(2) by (simp add: same_table_def k1(1) k2(1) fun_upd_idem pd_Some)
    have core': "core_inv (PL ?k) ?k"
      using core_to_blocked [OF core a(1) s a(3) view(1,2,3,5)] same by (simp add: same_table_def)
    have cur': "current_inv (PL ?k) (st ?k) (pd ?k) (currentProcess ?k) (currentPid ?k)"
      by (rule current_same_table [OF cur same]) (use a(1) view(3) in auto)
    have "sched_ok ?k"
      unfolding sched_ok_core using ok same core' cur' by (simp add: same_table_def sched_ok_core)
    then show ?thesis by (intro blocked [of ?k]) (use call False same view in simp_all)
  qed
qed

lemma yield_switch:
  assumes "sched_ok k" and "created k" and "idle_ok k" and "node_available k"
  obtains a p k' where "requeued k = a # RL k'" "procs k a = Some p" "yield r k = Some k'" "cpu_rsp k' = saved r k a"
    "sched_ok k'" "currentProcess k' = a" "quantums k' = int (priority p)" "currentPid k' = pid p"
    "PL k' = PL k" "BL k' = BL k" "idle_ok k'" "created k'"
    "\<And>b p. b \<in> set (PL k) \<Longrightarrow> b \<noteq> a \<Longrightarrow> procs k b = Some p \<Longrightarrow>
       \<exists>q. procs k' b = Some q \<and> stackPos q = saved r k b \<and> priority q = priority p"
proof -
  let ?k = "k\<lparr>quantums := 0\<rparr>"
  have "sched_ok ?k" "created ?k" "idle_ok ?k" "node_available ?k" "quantums ?k \<le> 1"
    using assms by (simp_all add: idle_ok_def node_available_def)
  then obtain a p k' where S: "requeued ?k = a # RL k'" "procs ?k a = Some p"
    "schedule r ?k = Some (saved r ?k a, k')" "sched_ok k'" "created k'" "currentProcess k' = a"
    "quantums k' = int (priority p)" "currentPid k' = pid p" "PL k' = PL ?k" "BL k' = BL ?k" "idle_ok k'"
    "\<And>b p. b \<in> set (PL ?k) \<Longrightarrow> b \<noteq> a \<Longrightarrow> procs ?k b = Some p \<Longrightarrow>
       \<exists>q. procs k' b = Some q \<and> stackPos q = saved r ?k b \<and> priority q = priority p"
    by (rule schedule_switch [of ?k r]) blast
  let ?k' = "k'\<lparr>cpu_rsp := saved r k a\<rparr>"
  have sv: "saved r ?k b = saved r k b" for b by (simp add: saved_def)
  have rq: "requeued k = a # RL k'"
    using S(1) by (cases "st k (currentProcess k) = Some RUNNING") (simp_all add: requeued_def)
  have "yield r k = Some ?k'"
    using S(3) sched_okD(1) [OF assms(1)] by (simp add: yield_def timer_tick_def sv)
  then show ?thesis
    by (intro that [of a ?k' p]) (use S sv rq in \<open>simp_all add: sched_ok_def idle_ok_def\<close>)
qed

lemma table_remove:
  assumes "table_inv pl p n" and "a \<in> set pl"
  shows "table_inv (remove1 a pl) p (n - 1)"
  using assms notin_set_remove1 [of 0 pl a]
  by (auto simp: table_inv_def length_remove1 intro: inj_on_diff)

lemma table_outside: "table_inv pl p n \<Longrightarrow> a \<notin> set pl \<Longrightarrow> table_inv pl (p(a := y)) n"
  by (auto simp: table_inv_def inj_on_def)

lemma core_outside:
  assumes "core_inv pl k" and "a \<notin> set pl" and "RL k' = RL k" and "BL k' = BL k" and "st k' = (st k)(a := y)"
    and "currentProcess k' = currentProcess k"
  shows "core_inv pl k'"
  using assms by (auto simp: core_inv_def queue_of_outside running_inv_def)

definition pd_same_on :: "'a kernel_scheme \<Rightarrow> 'a kernel_scheme \<Rightarrow> addr \<Rightarrow> bool" where
  "pd_same_on k k' a = (\<forall>b. b \<noteq> a \<longrightarrow> pd k' b = pd k b)"

text \<open>The queues of the process being killed (lines 380-389).\<close>

lemma kill_dequeue:
  assumes "core_inv pl k" and "a \<in> set pl" and "distinct pl" and "procs k a = Some p" and "a \<noteq> 0"
  obtains k1 where "(if status p = READY then let (d, k1) = remove_ready a k in (d \<noteq> 0, k1)
       else if status p = BLOCKED then let (d, k1) = remove_blocked a k in (d \<noteq> 0, k1) else (True, k)) = (True, k1)"
    "core_inv (remove1 a pl) k1" "procs k1 = procs k" "same_table k k1"
    "RL k1 = remove1 a (RL k)" "BL k1 = remove1 a (BL k)"
proof -
  have s: "st k a = Some (status p)" using assms(4) by (rule st_Some)
  have q: "queue_of pl (st k) READY (RL k)" "queue_of pl (st k) BLOCKED (BL k)" using assms(1) by (auto simp: core_inv_def)
  have "core_inv (remove1 a pl) k1" if "RL k1 = remove1 a (RL k)" "BL k1 = remove1 a (BL k)" "st k1 = st k"
      "currentProcess k1 = currentProcess k" for k1 :: "'a kernel_scheme"
    using q queue_of_delete [OF _ assms(3), of "st k" _ _ a "st k a"] assms(1) that set_remove1_subset [of a pl]
    by (auto simp: core_inv_def running_inv_def)
  note core = this
  consider "status p = READY" | "status p = BLOCKED" | "status p \<noteq> READY" "status p \<noteq> BLOCKED" by blast
  then show ?thesis
  proof cases
    case 1
    obtain d k1 where rem: "remove_ready a k = (d, k1)" by force
    moreover have "a \<in> set (RL k)" "a \<notin> set (BL k)" using q assms(2) s 1 by (auto simp: queue_of_def)
    ultimately obtain l m where "k1 = k\<lparr>readyProcess := l, k_mm := m\<rparr>" "l_data l = remove1 a (RL k)" "d = a"
      using assms(5) by (auto elim!: remove_readyE)
    with rem 1 assms(5) \<open>a \<notin> set (BL k)\<close> show ?thesis
      by (intro that [of k1] core) (simp_all add: same_table_def remove1_idem)
  next
    case 2
    obtain d k1 where rem: "remove_blocked a k = (d, k1)" by force
    moreover have "a \<in> set (BL k)" "a \<notin> set (RL k)" using q assms(2) s 2 by (auto simp: queue_of_def)
    ultimately obtain l m where "k1 = k\<lparr>blockedProcess := l, k_mm := m\<rparr>" "l_data l = remove1 a (BL k)" "d = a"
      using assms(5) by (auto elim!: remove_blockedE)
    with rem 2 assms(5) \<open>a \<notin> set (RL k)\<close> show ?thesis
      by (intro that [of k1] core) (simp_all add: same_table_def remove1_idem)
  next
    case 3
    then have "a \<notin> set (RL k)" "a \<notin> set (BL k)" using q s by (auto simp: queue_of_def)
    with 3 show ?thesis by (intro that [of k] core) (simp_all add: same_table_def remove1_idem)
  qed
qed

lemma kill_ok:
  assumes ok: "sched_ok k" and a: "a \<in> set (PL k)" "procs k a = Some p"
    and w: "set (l_data (waitingList p)) \<subseteq> set (PL k) - {a}"
    and wk: "wake_results (l_data (waitingList p)) (snd (if status p = READY then remove_ready a k
       else if status p = BLOCKED then remove_blocked a k else (0, k))) = Some rs" "set rs \<subseteq> {0}"
  obtains k' where "kill a k = Some (0, k')" "sched_ok k'" "PL k' = remove1 a (PL k)"
    "a \<noteq> currentProcess k \<Longrightarrow> procs k' a = None" "a = currentProcess k \<Longrightarrow> st k' a = Some TERMINATED"
    "\<And>b. b \<in> set (l_data (waitingList p)) \<Longrightarrow> st k' b \<noteq> Some BLOCKED"
    "\<And>b. b \<notin> insert a (set (l_data (waitingList p))) \<Longrightarrow> procs k' b = procs k b"
    "currentProcess k' = currentProcess k" "scheduler k' = scheduler k"
    "pd_same_on k k' a" "created k' = created k"
proof -
  from ok [unfolded sched_ok_core] have sch: "scheduler k \<noteq> 0" and tab: "table_inv (PL k) (pd k) (processQty k)"
    and core: "core_inv (PL k) k" and cur: "current_inv (PL k) (st k) (pd k) (currentProcess k) (currentPid k)"
    and p0: "procs k 0 = None" by auto
  have nz: "a \<noteq> 0" using a p0 by (cases "a = 0") simp_all
  have dist: "distinct (PL k)" using tab by (simp add: table_inv_def)
  let ?W = "l_data (waitingList p)"
  obtain k1 where k1: "(if status p = READY then let (d, k1) = remove_ready a k in (d \<noteq> 0, k1)
       else if status p = BLOCKED then let (d, k1) = remove_blocked a k in (d \<noteq> 0, k1) else (True, k)) = (True, k1)"
    "core_inv (remove1 a (PL k)) k1" "procs k1 = procs k" "same_table k k1"
    by (rule kill_dequeue [OF core a(1) dist a(2) nz]) blast
  then have snd: "snd (if status p = READY then remove_ready a k
       else if status p = BLOCKED then remove_blocked a k else (0, k)) = k1"
    by (auto split: if_splits prod.splits)
  have t1: "scheduler k1 \<noteq> 0" "table_inv (PL k1) (pd k1) (processQty k)" "PL k1 = PL k"
    using k1(4) sch tab by (auto simp: same_table_def)
  have W: "set ?W \<subseteq> set (remove1 a (PL k))" using w dist by auto
  have sub: "set (remove1 a (PL k)) \<subseteq> set (PL k1)" using t1(3) set_remove1_subset by metis
  obtain k2 where k2: "wake_all ?W k1 = Some k2" "same_table k1 k2" "core_inv (remove1 a (PL k)) k2"
    "\<And>b. b \<notin> set ?W \<Longrightarrow> procs k2 b = procs k1 b" "\<And>b. b \<in> set ?W \<Longrightarrow> st k2 b \<noteq> Some BLOCKED"
    by (rule wake_all_ok [OF t1(1,2) k1(2) W sub wk [unfolded snd]]) blast
  have same: "same_table k k2" using same_table_trans [OF k1(4) k2(2)] .
  have a2: "procs k2 a = Some p" using k2(4) [of a] w k1(3) a(2) by auto
  obtain d k3 where rem: "remove_process a k2 = (d, k3)" by force
  with nz obtain l m where k3: "k3 = k2\<lparr>processList := l, k_mm := m\<rparr>" "l_data l = remove1 a (PL k)" "d = a"
    using a(1) same by (auto simp: same_table_def elim!: remove_processE)
  let ?k5 = "k3\<lparr>procs := (procs k3)(a \<mapsto> p\<lparr>status := TERMINATED\<rparr>), processQty := (processQty k3 + 65535) mod 2 ^ 16\<rparr>"
  define k' where "k' = (if currentProcess k \<noteq> a then ?k5\<lparr>k_mm := freeProcess a (p\<lparr>status := TERMINATED\<rparr>) (k_mm ?k5),
    procs := (procs ?k5)(a := None)\<rparr> else ?k5)"
  have call: "kill a k = Some (0, k')"
    using a(2) nz k1(1) k2(1) rem k3 a2 same
    by (simp add: kill_def deref_simps update_pcb_Some k'_def free_pcb_def same_table_def)
  have q: "processQty k = length (PL k)" "length (PL k) \<le> 30"
  proof -
    show "processQty k = length (PL k)" using tab by (simp add: table_inv_def)
    have "(\<lambda>b. the (pd k b)) ` set (PL k) \<subseteq> {0 ..< 30}" using tab by (fastforce simp: table_inv_def MAX_PROCESS_def)
    moreover have "inj_on (\<lambda>b. the (pd k b)) (set (PL k))"
      using tab unfolding table_inv_def inj_on_def by (metis option.sel)
    ultimately have "card (set (PL k)) \<le> card {0 ..< 30 :: int}" by (intro card_inj_on_le) auto
    then show "length (PL k) \<le> 30" using dist by (simp add: distinct_card)
  qed
  have qty: "(processQty k + 65535) mod 65536 = processQty k - 1"
  proof -
    have "0 < processQty k" using q(1) a(1) by (cases "PL k") simp_all
    then obtain n where n: "processQty k = Suc n" by (cases "processQty k") simp_all
    then have "processQty k + 65535 = n + 65536" by simp
    moreover have "n < 65536" using q n by simp
    ultimately show ?thesis by (simp only: mod_add_self2 mod_less n diff_Suc_1)
  qed
  have out: "a \<notin> set (remove1 a (PL k))" using dist by simp
  have view: "PL k' = remove1 a (PL k)" "RL k' = RL k2" "BL k' = BL k2" "currentProcess k' = currentProcess k"
      "currentPid k' = currentPid k" "scheduler k' = scheduler k" "processQty k' = processQty k - 1"
      "st k' = (st k2)(a := if currentProcess k \<noteq> a then None else Some TERMINATED)"
      "pd k' = (pd k)(a := if currentProcess k \<noteq> a then None else pd k a)"
      "procs k' = (procs k2)(a := if currentProcess k \<noteq> a then None else Some (p\<lparr>status := TERMINATED\<rparr>))"
    using same k3 qty a(2) by (auto simp: k'_def same_table_def pd_Some)
  have "table_inv (PL k') (pd k') (processQty k')"
    unfolding view using table_outside [OF table_remove [OF tab a(1)] out] .
  moreover have "core_inv (PL k') k'"
    unfolding view(1) using core_outside [OF k2(3) out view(2,3,8)] same view(4) by (simp add: same_table_def)
  moreover have "current_inv (PL k') (st k') (pd k') (currentProcess k') (currentPid k')"
  proof (cases "currentProcess k = 0")
    case True
    with cur show ?thesis by (simp add: current_inv_def view)
  next
    case False
    show ?thesis
    proof (cases "currentProcess k = a")
      case True
      then show ?thesis using cur False by (simp add: current_inv_def view)
    next
      case ca: False
      have "st k2 (currentProcess k) = st k (currentProcess k) \<or>
          currentProcess k \<in> set (PL k) \<and> st k2 (currentProcess k) \<noteq> None"
      proof (cases "currentProcess k \<in> set (PL k)")
        case True
        then have "pd k2 (currentProcess k) \<noteq> None" using tab same by (auto simp: table_inv_def same_table_def)
        then show ?thesis using True by (auto simp: pd_apply st_apply)
      next
        case nPL: False
        then have "currentProcess k \<notin> set ?W" using w by auto
        then show ?thesis using k2(4) k1(3) by (simp add: st_apply)
      qed
      then show ?thesis using cur False ca by (auto simp: current_inv_def view)
    qed
  qed
  moreover have "procs k' 0 = None" using nz p0 same by (simp add: view(10) same_table_def)
  ultimately have "sched_ok k'" unfolding sched_ok_core using sch view(6) by simp
  moreover have "st k' b \<noteq> Some BLOCKED" if "b \<in> set ?W" for b
    using k2(5) [OF that] that w by (auto simp: view(8))
  moreover have "procs k' b = procs k b" if "b \<notin> insert a (set ?W)" for b
    using k2(4) [of b] k1(3) that by (simp add: view(10))
  moreover have "pd_same_on k k' a" using view(9) by (simp add: pd_same_on_def)
  moreover have "created k' = created k" using same k3(1) by (simp add: k'_def same_table_def)
  ultimately show ?thesis
    by (intro that [OF call]) (use view in simp_all)
qed

section \<open>Creation\<close>

lemma table_find_none:
  assumes "scheduler k \<noteq> 0" and "table_inv (PL k) (pd k) n" and "\<forall>b \<in> set (PL k). pd k b \<noteq> Some i"
  shows "findProcess i k = Some 0"
proof -
  have "b \<noteq> 0 \<and> procs k b \<noteq> None" if "b \<in> set (PL k)" for b
    using assms(2) that by (metis (no_types, lifting) option.simps(8) pd_apply table_inv_def option.distinct(1))
  then have "findProcess i k = Some (case List.find (\<lambda>b. map_option pid (procs k b) = Some i) (PL k) of
      None \<Rightarrow> 0 | Some b \<Rightarrow> b)"
    using find_pid_spec [of "PL k" "procs k"] assms(1) unfolding findProcess_def PL_def by simp
  moreover have "List.find (\<lambda>b. map_option pid (procs k b) = Some i) (PL k) = None"
    using assms(3) by (auto simp: find_None_iff pd_apply)
  ultimately show ?thesis by simp
qed

lemma free_pid_least:
  assumes "scheduler k \<noteq> 0" and "table_inv (PL k) (pd k) n" and "i \<le> MAX_PROCESS"
  shows "\<exists>j. free_pid k i = Some j \<and> i \<le> j \<and> j \<le> MAX_PROCESS \<and>
    (\<forall>x. i \<le> x \<and> x < j \<longrightarrow> (\<exists>b \<in> set (PL k). pd k b = Some (int x))) \<and>
    (j < MAX_PROCESS \<longrightarrow> (\<forall>b \<in> set (PL k). pd k b \<noteq> Some (int j)))"
  using assms(3)
proof (induction "MAX_PROCESS - i" arbitrary: i)
  case 0
  then show ?case by (intro exI [of _ i]) (auto simp: free_pid.simps)
next
  case (Suc d)
  then have i: "i < MAX_PROCESS" by simp
  show ?case
  proof (cases "\<exists>b \<in> set (PL k). pd k b = Some (int i)")
    case False
    then have "findProcess (int i) k = Some 0" using table_find_none [OF assms(1,2)] by blast
    with False i show ?thesis by (intro exI [of _ i]) (auto simp: free_pid.simps)
  next
    case True
    then obtain b p where b: "b \<in> set (PL k)" "procs k b = Some p" "pid p = int i" by (auto dest: pd_SomeD)
    have "findProcess (int i) k = Some b" using table_find [OF assms(1,2) b(1,2)] b(3) by simp
    moreover have "b \<noteq> 0" using b(1) assms(2) by (auto simp: table_inv_def intro: gr0I)
    ultimately have step: "free_pid k i = free_pid k (i + 1)" using i by (subst free_pid.simps) simp
    have "d = MAX_PROCESS - (i + 1)" "i + 1 \<le> MAX_PROCESS" using Suc(2) i by simp_all
    from Suc(1) [OF this] obtain j where j: "free_pid k (i + 1) = Some j" "i + 1 \<le> j" "j \<le> MAX_PROCESS"
      "\<forall>x. i + 1 \<le> x \<and> x < j \<longrightarrow> (\<exists>b \<in> set (PL k). pd k b = Some (int x))"
      "j < MAX_PROCESS \<longrightarrow> (\<forall>b \<in> set (PL k). pd k b \<noteq> Some (int j))" by blast
    have "\<forall>x. i \<le> x \<and> x < j \<longrightarrow> (\<exists>b \<in> set (PL k). pd k b = Some (int x))"
      using j(4) True by (metis Suc_eq_plus1 le_eq_less_or_eq Suc_leI)
    with j step show ?thesis by (intro exI [of _ j]) simp
  qed
qed

text \<open>A table that is not full has a free pid.\<close>

lemma free_pid_exists:
  assumes "scheduler k \<noteq> 0" and "table_inv (PL k) (pd k) n" and "n < MAX_PROCESS" and "free_pid k 0 = Some j"
  shows "j < MAX_PROCESS"
proof (rule ccontr)
  assume "\<not> j < MAX_PROCESS"
  with free_pid_least [OF assms(1,2), of 0] assms(4)
  have all: "\<exists>b \<in> set (PL k). pd k b = Some (int x)" if "x < MAX_PROCESS" for x
    using that by fastforce
  then have "int ` {..< MAX_PROCESS} \<subseteq> (\<lambda>b. the (pd k b)) ` set (PL k)" by force
  then have "card (int ` {..< MAX_PROCESS}) \<le> card (set (PL k))"
    using card_image_le [of "set (PL k)" "\<lambda>b. the (pd k b)"] card_mono [of "(\<lambda>b. the (pd k b)) ` set (PL k)"]
    by (metis List.finite_set finite_imageI le_trans)
  moreover have "card (int ` {..< MAX_PROCESS}) = MAX_PROCESS" by (simp add: card_image)
  moreover have "card (set (PL k)) = n" using assms(2) by (simp add: table_inv_def distinct_card)
  ultimately show False using assms(3) by simp
qed

lemma initializeProcess_status:
  assumes "initializeProcess p0 i args ac prio code gr fds m = (r, p, m')" and "r \<noteq> - 1"
  shows "r = 0 \<and> pid p = i \<and> status p = READY \<and> priority p = prio \<and> l_data (waitingList p) = []"
  using assms by (auto simp: initializeProcess_def Let_def seq_create_def split: prod.splits if_splits)

lemma core_new:
  assumes "core_inv (PL k) k" and "a \<notin> set (PL k)" and "PL k' = PL k @ [a]" and "RL k' = RL k @ [a]"
    and "BL k' = BL k" and "st k' = (st k)(a \<mapsto> READY)" and "currentProcess k' = currentProcess k"
  shows "core_inv (PL k') k'"
  using assms by (auto simp: core_inv_def queue_of_new queue_of_new_other running_inv_def)

lemma createProcess_cases:
  assumes ok: "sched_ok k" and fresh: "procs k (fst (mm_alloc sizeof_pcb (k_mm k))) = None"
  obtains (failed) k' where "createProcess code args ac prio fds gr k = Some (- 1, k')" "procs k' = procs k"
      "PL k' = PL k" "RL k' = RL k" "BL k' = BL k" "same_table k k'"
  | (made) a p j k' where "createProcess code args ac prio fds gr k = Some (int j, k')" "j < MAX_PROCESS"
      "\<forall>x < j. \<exists>b \<in> set (PL k). pd k b = Some (int x)" "\<forall>b \<in> set (PL k). pd k b \<noteq> Some (int j)"
      "a \<notin> set (PL k)" "procs k' = (procs k)(a \<mapsto> p)" "pid p = int j" "status p = READY" "priority p = prio"
      "PL k' = PL k \<or> PL k' = PL k @ [a]" "RL k' = RL k \<or> RL k' = RL k @ [a]" "BL k' = BL k"
      "PL k' = PL k @ [a] \<Longrightarrow> RL k' = RL k @ [a] \<Longrightarrow> sched_ok k'" "created k' = created k"
      "l_data (waitingList p) = []" "currentProcess k' = currentProcess k" "currentPid k' = currentPid k"
      "quantums k' = quantums k"
proof -
  from ok [unfolded sched_ok_core] have sch: "scheduler k \<noteq> 0" and tab: "table_inv (PL k) (pd k) (processQty k)"
    and core: "core_inv (PL k) k" and cur: "current_inv (PL k) (st k) (pd k) (currentProcess k) (currentPid k)"
    and p0: "procs k 0 = None" by auto
  obtain a m where alloc: "mm_alloc sizeof_pcb (k_mm k) = (a, m)" by force
  show ?thesis
  proof (cases "MAX_PROCESS \<le> processQty k \<or> a = 0")
    case True
    then have "createProcess code args ac prio fds gr k = Some (- 1, if MAX_PROCESS \<le> processQty k then k else k\<lparr>k_mm := m\<rparr>)"
      using sch alloc by (auto simp: createProcess_def)
    then show ?thesis by (rule failed) (simp_all add: same_table_def)
  next
    case False
    have fr: "procs k a = None" using fresh alloc by simp
    have out: "a \<notin> set (PL k)" using tab fr by (auto simp: table_inv_def pd_apply)
    let ?k2 = "k\<lparr>k_mm := m, procs := (procs k)(a \<mapsto> zeroed_pcb)\<rparr>"
    have tab2: "table_inv (PL ?k2) (pd ?k2) (processQty k)" using table_outside [OF tab out] by simp
    have sch2: "scheduler ?k2 \<noteq> 0" using sch by simp
    have pd2: "pd ?k2 b = pd k b" if "b \<in> set (PL k)" for b using out that by auto
    obtain j where j: "free_pid ?k2 0 = Some j" "\<forall>x < j. \<exists>b \<in> set (PL k). pd k b = Some (int x)"
      "j < MAX_PROCESS \<longrightarrow> (\<forall>b \<in> set (PL k). pd k b \<noteq> Some (int j))"
      using free_pid_least [OF sch2 tab2, of 0] pd2 by (force simp del: pd_procs)
    have jm: "j < MAX_PROCESS" using free_pid_exists [OF sch2 tab2 _ j(1)] False by simp
    obtain r p m1 where init: "initializeProcess zeroed_pcb (int j) args ac prio code gr fds m = (r, p, m1)"
      by (rule prod_cases3)
    let ?k3 = "?k2\<lparr>procs := (procs ?k2)(a \<mapsto> p), k_mm := m1\<rparr>"
    show ?thesis
    proof (cases "r = - 1")
      case True
      let ?k4 = "?k3\<lparr>k_mm := freeProcess a p m1, procs := (procs ?k3)(a := None)\<rparr>"
      have "free_pcb a ?k3 = Some ?k4" using False by (simp add: free_pcb_def deref_simps)
      then have call: "createProcess code args ac prio fds gr k = Some (- 1, ?k4)"
        using sch alloc False j(1) jm init True by (simp add: createProcess_def)
      have same: "(procs k)(a := None) = procs k" using fr by (simp add: fun_upd_idem)
      show ?thesis
        by (rule failed [OF call]) (use same False p0 fr in \<open>simp_all add: same_table_def pd_apply fun_upd_idem\<close>)
    next
      case okr: False
      note ini = initializeProcess_status [OF init okr]
      obtain n4 k4 where add4: "add_process a ?k3 = (n4, k4)" by force
      then obtain l4 m4 where k4: "k4 = ?k3\<lparr>processList := l4, k_mm := m4\<rparr>"
          "l_data l4 = (if n4 = 0 then PL ?k3 else PL ?k3 @ [a])" by (rule add_processE)
      obtain n5 k5 where add5: "add_ready a k4 = (n5, k5)" by force
      then obtain l5 m5 where k5: "k5 = k4\<lparr>readyProcess := l5, k_mm := m5\<rparr>"
          "l_data l5 = (if n5 = 0 then RL k4 else RL k4 @ [a])" by (rule add_readyE)
      let ?k' = "k5\<lparr>processQty := (processQty k5 + 1) mod 2 ^ 16\<rparr>"
      have call: "createProcess code args ac prio fds gr k = Some (int j, ?k')"
        using sch alloc False j(1) jm init okr ini add4 add5 by (simp add: createProcess_def Let_def)
      have q: "(processQty k + 1) mod 2 ^ 16 = processQty k + 1"
        using False by (simp add: MAX_PROCESS_def)
      have view: "procs ?k' = (procs k)(a \<mapsto> p)" "PL ?k' = (if n4 = 0 then PL k else PL k @ [a])"
          "RL ?k' = (if n5 = 0 then RL k else RL k @ [a])" "BL ?k' = BL k" "st ?k' = (st k)(a \<mapsto> READY)"
          "pd ?k' = (pd k)(a \<mapsto> int j)" "currentProcess ?k' = currentProcess k" "currentPid ?k' = currentPid k"
          "scheduler ?k' = scheduler k" "processQty ?k' = processQty k + 1"
        using k4 k5 ini q by simp_all
      have inv: "sched_ok ?k'" if "PL ?k' = PL k @ [a]" "RL ?k' = RL k @ [a]"
      proof -
        have "table_inv (PL ?k') (pd ?k') (processQty ?k')"
          unfolding that(1) view(6,10) using tab out False j(3) jm
          by (auto simp: table_inv_def inj_on_def)
        moreover have "core_inv (PL ?k') ?k'" using core_new [OF core out that view(4,5,7)] .
        moreover have "current_inv (PL ?k') (st ?k') (pd ?k') (currentProcess ?k') (currentPid ?k')"
          unfolding that(1) view(5-8) using cur fr by (auto simp: current_inv_def st_apply pd_apply)
        ultimately show ?thesis unfolding sched_ok_core using sch p0 False view(1,9) by simp
      qed
      show ?thesis
        by (rule made [OF call jm j(2) _ out view(1) _ _ _ _ _ view(4) inv])
          (use j(3) jm ini view(2,3) k4 k5 in simp_all)
    qed
  qed
qed

section \<open>Every step keeps the invariant\<close>

text \<open>The steps of the running kernel: a timer tick, and the system calls on processes. The side
  conditions are the ones under which the code keeps its queues exact: a queue node could be
  allocated, the idle process is neither blocked nor killed, and a killed process's waiting
  list names live processes only.\<close>

inductive kstep :: "'a kernel_scheme \<Rightarrow> 'a kernel_scheme \<Rightarrow> bool" where
  tick: "timer_tick r k = Some k' \<Longrightarrow> node_available k \<Longrightarrow> kstep k k'"
| create: "createProcess code args ac prio fds gr k = Some (i, k') \<Longrightarrow>
    procs k (fst (mm_alloc sizeof_pcb (k_mm k))) = None \<Longrightarrow>
    i = - 1 \<or> length (PL k') = length (PL k) + 1 \<and> length (RL k') = length (RL k) + 1 \<Longrightarrow> kstep k k'"
| ready: "setReadyProcess i k = Some (0, k') \<Longrightarrow> kstep k k'"
| block: "blockProcess i r k = Some (0, k') \<Longrightarrow> i \<noteq> IDLE_PID \<Longrightarrow> kstep k k'"
| kill: "kill a k = Some (0, k') \<Longrightarrow> a \<in> set (PL k) \<Longrightarrow> procs k a = Some p \<Longrightarrow> pid p \<noteq> IDLE_PID \<Longrightarrow>
    set (l_data (waitingList p)) \<subseteq> set (PL k) - {a} \<Longrightarrow>
    wake_results (l_data (waitingList p)) (snd (if status p = READY then remove_ready a k
       else if status p = BLOCKED then remove_blocked a k else (0, k))) = Some rs \<Longrightarrow> set rs \<subseteq> {0} \<Longrightarrow> kstep k k'"
| prio: "changePriority i n k = Some (r, k') \<Longrightarrow> kstep k k'"
| files: "changeFileDescriptors i fds k = Some (r, k') \<Longrightarrow> kstep k k'"

definition kernel_inv :: "'a kernel_scheme \<Rightarrow> bool" where
  "kernel_inv k = (sched_ok k \<and> idle_ok k \<and> created k)"

lemma sched_ok_update_other:
  assumes "sched_ok k" and "procs k a = Some p" and "a \<noteq> 0" and "pid q = pid p" and "status q = status p"
  shows "sched_ok (k\<lparr>procs := (procs k)(a \<mapsto> q)\<rparr>)" and "idle_ok (k\<lparr>procs := (procs k)(a \<mapsto> q)\<rparr>) = idle_ok k"
proof -
  have "(st k)(a \<mapsto> status p) = st k" "(pd k)(a \<mapsto> pid p) = pd k"
    using assms(2) by (simp_all add: fun_upd_idem st_Some pd_Some)
  then show "sched_ok (k\<lparr>procs := (procs k)(a \<mapsto> q)\<rparr>)"
    and "idle_ok (k\<lparr>procs := (procs k)(a \<mapsto> q)\<rparr>) = idle_ok k"
    using assms by (simp_all add: sched_ok_def idle_ok_def)
qed

lemma kernel_inv_tick:
  assumes inv: "kernel_inv k" and tick: "timer_tick r k = Some k'" and node: "node_available k"
  shows "kernel_inv k'"
proof -
  note i = inv [unfolded kernel_inv_def]
  have out: "kernel_inv (k1\<lparr>cpu_rsp := n\<rparr>)" if "kernel_inv k1" for k1 :: "'a kernel_scheme" and n
    using that by (simp add: kernel_inv_def sched_ok_def idle_ok_def)
  show ?thesis
  proof (cases "quantums k \<le> 1")
    case True
    obtain k1 n where "schedule r k = Some (n, k1)" "sched_ok k1" "created k1" "idle_ok k1"
      by (rule schedule_switch [of k r]) (use i node True in auto)
    with tick out [of k1] show ?thesis by (auto simp: timer_tick_def kernel_inv_def)
  next
    case False
    then have "schedule r k = Some (r, k\<lparr>quantums := quantums k - 1\<rparr>)"
      using i sched_okD(1) [of k] by (auto simp: schedule_def Let_def)
    with tick have "k' = k\<lparr>quantums := quantums k - 1\<rparr>\<lparr>cpu_rsp := r\<rparr>" by (simp add: timer_tick_def)
    moreover have "kernel_inv (k\<lparr>quantums := quantums k - 1\<rparr>)" using i by (simp add: kernel_inv_def idle_ok_def)
    ultimately show ?thesis using out by simp
  qed
qed

lemma kernel_inv_ready:
  assumes inv: "kernel_inv k" and call: "setReadyProcess i k = Some (r, k')" and r: "r = 0"
  shows "kernel_inv k'"
proof -
  note i = inv [unfolded kernel_inv_def]
  from i have ok: "sched_ok k" by simp
  from ok show ?thesis
  proof (cases rule: findProcess_cases [where i = i])
    case none
    with call r show ?thesis by (simp add: setReadyProcess_def)
  next
    case (found a p)
    from ok [unfolded sched_ok_core] have sch: "scheduler k \<noteq> 0" and tab: "table_inv (PL k) (pd k) (processQty k)"
      and core: "core_inv (PL k) k" and cur: "current_inv (PL k) (st k) (pd k) (currentProcess k) (currentPid k)" by auto
    show ?thesis
    proof (rule setReady_cases [OF sch tab core found(2,2,4)])
      assume "setReadyProcess (pid p) k = Some (0, k)"
      with call found(5) inv show ?thesis by simp
    next
      fix k1 assume s: "status p = BLOCKED" "setReadyProcess (pid p) k = Some (0, k1)" "same_table k k1"
        "core_inv (PL k) k1" "procs k1 = (procs k)(a \<mapsto> p\<lparr>status := READY\<rparr>)"
      then have k1: "k1 = k'" using call found(5) by simp
      have "current_inv (PL k1) (st k1) (pd k1) (currentProcess k1) (currentPid k1)"
        by (rule current_same_table [OF cur s(3)]) (use s(5) found(2) in \<open>auto simp: st_apply\<close>)
      then have "sched_ok k1" using ok s(3,4) by (simp add: sched_ok_core same_table_def)
      moreover have "idle_ok k1"
        using i s(3,5) by (auto simp: idle_ok_def same_table_def st_apply)
      ultimately show ?thesis using k1 i s(3) by (simp add: kernel_inv_def same_table_def)
    next
      fix k1 assume "setReadyProcess (pid p) k = Some (- 1, k1)"
      with call found(5) r show ?thesis by simp
    qed
  qed
qed

lemma kernel_inv_rest:
  assumes inv: "kernel_inv k" and nr: "st k (currentProcess k) \<noteq> Some RUNNING \<or> currentPid k \<noteq> i"
    and call: "block_rest i r k = Some (x, k')"
  shows "kernel_inv k'"
proof (cases "currentPid k = i")
  case False
  then show ?thesis using call inv sched_okD(1) [of k]
    by (auto simp: block_rest_def getPid_def kernel_inv_def split: if_splits)
next
  case True
  note i = inv [unfolded kernel_inv_def]
  have "node_available k" using nr True by (simp add: node_available_def)
  with i obtain k1 where "yield r k = Some k1" "sched_ok k1" "idle_ok k1" "created k1"
    using yield_switch [of k r thesis] by blast
  with call True i sched_okD(1) [of k] show ?thesis
    by (auto simp: block_rest_def getPid_def kernel_inv_def)
qed

lemma kernel_inv_block:
  assumes inv: "kernel_inv k" and call: "blockProcess i r k = Some (x, k')" and x: "x = 0" and idle: "i \<noteq> IDLE_PID"
  shows "kernel_inv k'"
proof -
  note iv = inv [unfolded kernel_inv_def]
  from iv have ok: "sched_ok k" by simp
  from ok show ?thesis
  proof (cases rule: findProcess_cases [where i = i])
    case none
    with call x show ?thesis by (simp add: blockProcess_def)
  next
    case (found a p)
    have cur: "currentPid k = i \<Longrightarrow> a = currentProcess k \<or> st k (currentProcess k) \<noteq> Some RUNNING"
    proof -
      assume c: "currentPid k = i"
      have "0 \<le> i" using sched_ok_pcb [OF ok found(2)] found(4,5) by (metis option.inject)
      from ok show "a = currentProcess k \<or> st k (currentProcess k) \<noteq> Some RUNNING"
      proof (cases rule: current_cases)
        case 1
        with c \<open>0 \<le> i\<close> show ?thesis by (simp add: NO_PROCESS_def)
      next
        case (2 q)
        then show ?thesis by (simp add: st_Some)
      next
        case (3 q)
        then have "pd k (currentProcess k) = pd k a" using found(4,5) c by (simp add: pd_Some)
        with 3(4) found(2) sched_okD(6) [OF ok] show ?thesis by (auto dest: inj_onD)
      qed
    qed
    show ?thesis
    proof (cases "status p = BLOCKED")
      case True
      have nr: "st k (currentProcess k) \<noteq> Some RUNNING \<or> currentPid k \<noteq> i"
        using cur True found(4) by (auto simp: st_Some)
      have "blockProcess i r k = block_rest i r k"
        using True found by (simp add: blockProcess_def block_rest_def deref_simps)
      with kernel_inv_rest [OF inv nr] call show ?thesis by simp
    next
      case False
      from ok found(2,4) False show ?thesis
      proof (cases rule: block_step [where r = r])
        case (blocked k1)
        have "currentProcess k1 = currentProcess k" "currentPid k1 = currentPid k"
          using blocked(2) by (simp_all add: same_table_def)
        then have nr: "st k1 (currentProcess k1) \<noteq> Some RUNNING \<or> currentPid k1 \<noteq> i"
          using cur blocked(4) by (auto simp: st_apply)
        have "idle_ok k1"
        proof -
          from iv obtain b where b: "b \<in> set (PL k)" "pd k b = Some IDLE_PID" "st k b \<noteq> Some BLOCKED"
            by (auto simp: idle_ok_def)
          then have "b \<noteq> a" using found(4,5) idle by (auto simp: pd_Some)
          with b blocked(2,4) show ?thesis by (auto simp: idle_ok_def same_table_def st_apply)
        qed
        then have "kernel_inv k1" using blocked(2,3) iv by (simp add: kernel_inv_def same_table_def)
        moreover have "block_rest i r k1 = Some (x, k')" using blocked(1) found(5) call by simp
        ultimately show ?thesis using nr by (intro kernel_inv_rest [of k1 i r x k'])
      next
        case (lost k1)
        with call found(5) x show ?thesis by simp
      qed
    qed
  qed
qed

lemma kernel_inv_step: "kstep k k' \<Longrightarrow> kernel_inv k \<Longrightarrow> kernel_inv k'"
proof (induction rule: kstep.induct)
  case (tick r k k')
  then show ?case by (blast intro: kernel_inv_tick)
next
  case (create code args ac prio fds gr k i k')
  note iv = create(4) [unfolded kernel_inv_def]
  then have ok: "sched_ok k" by simp
  from ok create(2) show ?case
  proof (cases rule: createProcess_cases [where code = code and args = args and ac = ac and prio = prio and fds = fds and gr = gr])
    case (failed k1)
    then have "k1 = k'" using create(1) by simp
    moreover have "st k1 = st k" using failed(2) by (auto simp: st_apply)
    ultimately show ?thesis
      using failed iv by (simp add: kernel_inv_def sched_ok_def idle_ok_def same_table_def)
  next
    case (made a p j k1)
    then have k1: "k1 = k'" "i \<noteq> - 1" using create(1) by auto
    with create(3) made(10,11) have l: "PL k1 = PL k @ [a]" "RL k1 = RL k @ [a]" by auto
    have "idle_ok k1"
    proof -
      from iv obtain b where b: "b \<in> set (PL k)" "pd k b = Some IDLE_PID" "st k b \<noteq> Some BLOCKED"
        by (auto simp: idle_ok_def)
      then have "b \<noteq> a" using made(5) by auto
      with b l made(6) show ?thesis by (auto simp: idle_ok_def st_apply pd_apply)
    qed
    moreover have "created k1" using made(14) iv by simp
    ultimately show ?thesis using made(13) [OF l] k1 by (simp add: kernel_inv_def)
  qed
next
  case (ready i k k')
  then show ?case by (blast intro: kernel_inv_ready)
next
  case (block i r k k')
  then show ?case by (blast intro: kernel_inv_block)
next
  case (kill a k k' p rs)
  note iv = kill(8) [unfolded kernel_inv_def]
  from iv have ok: "sched_ok k" by simp
  obtain k1 where k1: "Scheduler.kill a k = Some (0, k1)" "sched_ok k1" "PL k1 = remove1 a (PL k)"
    "\<And>b. b \<in> set (l_data (waitingList p)) \<Longrightarrow> st k1 b \<noteq> Some BLOCKED"
    "\<And>b. b \<notin> insert a (set (l_data (waitingList p))) \<Longrightarrow> procs k1 b = procs k b" "pd_same_on k k1 a" "created k1 = created k"
    by (rule kill_ok [OF ok kill(2,3,5,6,7)]) blast
  with kill(1) have "k1 = k'" by simp
  have "idle_ok k1"
  proof -
    from iv obtain b where b: "b \<in> set (PL k)" "pd k b = Some IDLE_PID" "st k b \<noteq> Some BLOCKED"
      by (auto simp: idle_ok_def)
    then have ba: "b \<noteq> a" using kill(3,4) by (auto simp: pd_Some)
    moreover have "st k1 b \<noteq> Some BLOCKED"
      using k1(4,5) [of b] ba b(3) by (cases "b \<in> set (l_data (waitingList p))") (auto simp: st_apply)
    moreover have "pd k1 b = Some IDLE_PID" using k1(6) ba b(2) by (simp add: pd_same_on_def)
    ultimately show ?thesis using b(1) k1(3) by (auto simp: idle_ok_def)
  qed
  with k1 \<open>k1 = k'\<close> iv show ?case by (simp add: kernel_inv_def)
next
  case (prio i n k r k')
  note iv = prio(2) [unfolded kernel_inv_def]
  from iv have ok: "sched_ok k" by simp
  from ok show ?case
  proof (cases rule: findProcess_cases [where i = i])
    case none
    with prio show ?thesis by (auto simp: changePriority_def split: if_splits)
  next
    case (found a p)
    have "k' = k \<or> k' = k\<lparr>procs := (procs k)(a \<mapsto> p\<lparr>priority := n\<rparr>)\<rparr>"
      using prio(1) found by (auto simp: changePriority_def update_pcb_Some split: if_splits)
    then show ?thesis
      using prio(2) iv sched_ok_update_other [OF ok found(4,3), of "p\<lparr>priority := n\<rparr>"] by (auto simp: kernel_inv_def)
  qed
next
  case (files i fds k r k')
  note iv = files(2) [unfolded kernel_inv_def]
  from iv have ok: "sched_ok k" by simp
  from ok show ?case
  proof (cases rule: findProcess_cases [where i = i])
    case none
    with files show ?thesis by (auto simp: changeFileDescriptors_def)
  next
    case (found a p)
    have "k' = k\<lparr>procs := (procs k)(a \<mapsto> p\<lparr>fileDescriptors := take CANT_FILE_DESCRIPTORS fds\<rparr>)\<rparr>"
      using files(1) found by (auto simp: changeFileDescriptors_def update_pcb_Some)
    then show ?thesis
      using iv sched_ok_update_other [OF ok found(4,3), of "p\<lparr>fileDescriptors := take CANT_FILE_DESCRIPTORS fds\<rparr>"]
      by (auto simp: kernel_inv_def)
  qed
qed

end
