(* ===== verification/Scheduler_Properties.thy ===== *)
theory Scheduler_Properties
  imports Scheduler
begin

text \<open>What the scheduler of \<open>Kernel/processes/scheduler.c\<close> promises: its invariant over every
  sequence of operations, round robin and time slices, process creation, blocking, killing, and
  the operations' behaviour where a guard is missing.\<close>

section \<open>Properties\<close>

text \<open>For the witnesses: a kernel with the idle process (ready), a running shell, a ready child and
  a process that waits for the child.\<close>

definition demo_pcb :: "int \<Rightarrow> process_state \<Rightarrow> plist \<Rightarrow> pcb" where
  "demo_pcb i s w = zeroed_pcb\<lparr>pid := i, priority := 2, status := s, stackPos := 1000 + nat i,
     fileDescriptors := [0, 1, 2], waitingList := w\<rparr>"

definition demo_kernel :: kernel where
  "demo_kernel = \<lparr>k_mm = small_mm,
     procs = [100 \<mapsto> demo_pcb 0 READY null_list, 200 \<mapsto> demo_pcb 1 RUNNING null_list,
              300 \<mapsto> demo_pcb 2 READY \<lparr>l_addr = 30, l_items = [(31, 400)]\<rparr>,
              400 \<mapsto> demo_pcb 3 BLOCKED null_list],
     scheduler = 10, created = True,
     processList = \<lparr>l_addr = 11, l_items = [(12, 100), (13, 200), (14, 300), (15, 400)]\<rparr>,
     readyProcess = \<lparr>l_addr = 16, l_items = [(17, 100), (18, 300)]\<rparr>,
     blockedProcess = \<lparr>l_addr = 19, l_items = [(20, 400)]\<rparr>,
     currentPid = 1, currentProcess = 200, processQty = 4, quantums = 1, cpu_rsp = 0\<rparr>"

lemma demo_procs:
  "procs demo_kernel 100 = Some (demo_pcb 0 READY null_list)"
  "procs demo_kernel 200 = Some (demo_pcb 1 RUNNING null_list)"
  "procs demo_kernel 300 = Some (demo_pcb 2 READY \<lparr>l_addr = 30, l_items = [(31, 400)]\<rparr>)"
  "procs demo_kernel 400 = Some (demo_pcb 3 BLOCKED null_list)"
  by (simp_all add: demo_kernel_def)

lemma demo_lists:
  "PL demo_kernel = [100, 200, 300, 400]" "RL demo_kernel = [100, 300]" "BL demo_kernel = [400]"
  "currentProcess demo_kernel = 200" "quantums demo_kernel = 1" "created demo_kernel" "scheduler demo_kernel = 10"
  by (simp_all add: demo_kernel_def PL_def RL_def BL_def)

lemma demo_view:
  "st demo_kernel 100 = Some READY" "st demo_kernel 200 = Some RUNNING" "st demo_kernel 300 = Some READY"
  "st demo_kernel 400 = Some BLOCKED" "pd demo_kernel 100 = Some 0" "pd demo_kernel 200 = Some 1"
  "pd demo_kernel 300 = Some 2" "pd demo_kernel 400 = Some 3"
  by (simp_all add: st_apply pd_apply demo_procs demo_pcb_def)

lemma demo_ok: "sched_ok demo_kernel"
proof -
  have "processQty demo_kernel = 4" "currentPid demo_kernel = 1" "procs demo_kernel 0 = None"
    by (simp_all add: demo_kernel_def)
  then show ?thesis
    by (auto simp: sched_ok_def inv_defs demo_lists demo_view MAX_PROCESS_def inj_on_def)
qed

lemma demo_idle: "idle_ok demo_kernel"
  by (auto simp: idle_ok_def demo_lists demo_view IDLE_PID_def)

lemma demo_node: "node_available demo_kernel"
  by (simp add: node_available_def demo_kernel_def seq_add_def sizeof_node_def small_mm_def small_buddy_def
      buddy_alloc_def getExponent_def getExponent_from.simps POW2_def sub64_def MIN_EXP_def findFreeNode.simps
      getNodeLevel_def Let_def)



text \<open>
  C4. When the quantum is used up, \<open>schedule\<close> is round robin: the running
  process, its stack pointer saved, joins the tail of the ready queue, the head of the queue
  leaves it and runs with its priority as its new quantum, from the stack pointer that was
  saved for it; everyone else keeps his stack pointer and his place in the queue.
\<close>

theorem schedule_round_robin:
  assumes "sched_ok k" and "created k" and "idle_ok k" and "node_available k" and "quantums k \<le> 1"
  shows "\<exists>a p k'. requeued k = a # RL k' \<and> procs k a = Some p \<and> schedule r k = Some (saved r k a, k') \<and>
    sched_ok k' \<and> currentProcess k' = a \<and> st k' a = Some RUNNING \<and> quantums k' = int (priority p) \<and> BL k' = BL k \<and>
    (\<forall>b \<in> set (PL k) - {a}. \<exists>q. procs k' b = Some q \<and> stackPos q = saved r k b)"
proof -
  obtain a p k' where s: "requeued k = a # RL k'" "procs k a = Some p" "schedule r k = Some (saved r k a, k')"
    "sched_ok k'" "currentProcess k' = a" "st k' a = Some RUNNING" "quantums k' = int (priority p)" "BL k' = BL k"
    "\<And>b p. b \<in> set (PL k) \<Longrightarrow> b \<noteq> a \<Longrightarrow> procs k b = Some p \<Longrightarrow>
       \<exists>q. procs k' b = Some q \<and> stackPos q = saved r k b \<and> priority q = priority p"
    by (rule schedule_switch [OF assms, of r]) blast
  have "\<exists>q. procs k' b = Some q \<and> stackPos q = saved r k b" if "b \<in> set (PL k) - {a}" for b
  proof -
    from that obtain p where "procs k b = Some p" using sched_ok_pcb [OF assms(1), of b] by blast
    from s(9) [OF _ _ this] that show ?thesis by auto
  qed
  with s show ?thesis by (intro exI [of _ a] exI [of _ p] exI [of _ k']) simp
qed

theorem schedule_round_robin_witness:
  "\<exists>k'. schedule 5000 demo_kernel = Some (1000, k') \<and> RL k' = [300, 200] \<and> quantums k' = 2"
proof -
  have q: "quantums demo_kernel \<le> 1" by (simp add: demo_lists)
  from schedule_round_robin [OF demo_ok demo_lists(6) demo_idle demo_node q, of 5000] show ?thesis
    by (auto simp: requeued_def demo_lists demo_view saved_def demo_procs demo_pcb_def)
qed

text \<open>A run of timer interrupts, given the stack pointers they save.\<close>

fun ticks :: "nat list \<Rightarrow> 'a kernel_scheme \<Rightarrow> 'a kernel_scheme option" where
  "ticks [] k = Some k"
| "ticks (r # rs) k = do { k \<leftarrow> timer_tick r k; ticks rs k }"

lemma ticks_within:
  assumes "created k" and "scheduler k \<noteq> 0" and "processQty k \<noteq> 0" and "int (length rs) < quantums k"
  shows "ticks rs k = Some (k\<lparr>quantums := quantums k - int (length rs), cpu_rsp := List.last (cpu_rsp k # rs)\<rparr>)"
  using assms
proof (induction rs arbitrary: k)
  case Nil
  show ?case by (cases k) simp
next
  case (Cons r rs)
  let ?k = "k\<lparr>quantums := quantums k - 1, cpu_rsp := r\<rparr>"
  have "timer_tick r k = Some ?k" using Cons.prems by (simp add: timer_tick_def schedule_def)
  moreover have "ticks rs ?k = Some (?k\<lparr>quantums := quantums ?k - int (length rs), cpu_rsp := List.last (cpu_rsp ?k # rs)\<rparr>)"
    using Cons.prems by (intro Cons.IH) simp_all
  ultimately show ?case by (cases k) (simp add: algebra_simps)
qed

text \<open>
  A dispatched process keeps the processor for its quantum: over any run of fewer
  ticks than the quantum nothing but the quantum changes, and each interrupt resumes the stack
  pointer it saved. So a process of priority p runs for p ticks before it is switched out.
\<close>

theorem time_slice:
  assumes "created k" and "scheduler k \<noteq> 0" and "processQty k \<noteq> 0" and "int (length rs) < quantums k"
  shows "ticks rs k = Some (k\<lparr>quantums := quantums k - int (length rs), cpu_rsp := List.last (cpu_rsp k # rs)\<rparr>)"
  using assms by (rule ticks_within)

theorem time_slice_witness:
  "ticks [7, 8] (demo_kernel\<lparr>quantums := 3\<rparr>) = Some (demo_kernel\<lparr>quantums := 1, cpu_rsp := 8\<rparr>)"
proof -
  have "scheduler demo_kernel = 10" "processQty demo_kernel = 4" "created demo_kernel"
    by (simp_all add: demo_kernel_def)
  then show ?thesis using time_slice [of "demo_kernel\<lparr>quantums := 3\<rparr>" "[7, 8]"] by simp
qed



text \<open>The running process blocks itself.\<close>

lemma block_running:
  assumes inv: "kernel_inv k" and c: "procs k (currentProcess k) = Some p" "status p = RUNNING"
    and idle: "pid p \<noteq> IDLE_PID"
  shows "(\<exists>k'. blockProcess (pid p) r k = Some (- 1, k') \<and> procs k' = procs k \<and> PL k' = PL k \<and> RL k' = RL k \<and> BL k' = BL k) \<or>
    (\<exists>a q p' k'. blockProcess (pid p) r k = Some (0, k') \<and> kernel_inv k' \<and> RL k = a # RL k' \<and>
       BL k' = BL k @ [currentProcess k] \<and> currentProcess k' = a \<and> procs k a = Some q \<and> cpu_rsp k' = stackPos q \<and>
       procs k' (currentProcess k) = Some p' \<and> stackPos p' = r \<and> st k' (currentProcess k) = Some BLOCKED)"
proof -
  let ?c = "currentProcess k"
  from inv have ok: "sched_ok k" and cr: "created k" and io: "idle_ok k" by (simp_all add: kernel_inv_def)
  have s: "st k ?c = Some RUNNING" using c by (simp add: st_Some)
  have in_PL: "?c \<in> set (PL k)" using sched_okD(10) [OF ok] s sched_ok_def [of k] ok by (auto simp: current_inv_def st_apply)
  have cp: "currentPid k = pid p" using sched_okD(10) [OF ok] c(1) ok by (auto simp: current_inv_def pd_Some sched_ok_def)
  have nR: "?c \<notin> set (RL k)" using sched_okD(7) [OF ok] s by (simp add: queue_of_def)
  have nb: "status p \<noteq> BLOCKED" using c by simp
  from ok in_PL c(1) nb show ?thesis
  proof (cases rule: block_step [where r = r])
    case (lost k')
    then show ?thesis using nR by (intro disjI1 exI [of _ k']) (simp add: remove1_idem)
  next
    case (blocked k1)
    have cur1: "currentProcess k1 = ?c" "currentPid k1 = pid p" "scheduler k1 \<noteq> 0" "created k1" "PL k1 = PL k" "pd k1 = pd k"
      using blocked(2) cp cr sched_okD(1) [OF ok] by (auto simp: same_table_def)
    have st1: "st k1 ?c = Some BLOCKED" using blocked(4) by (simp add: st_apply)
    have R1: "RL k1 = RL k" "requeued k1 = RL k1" using nR blocked(5) st1 cur1(1) by (simp_all add: remove1_idem requeued_def)
    have io1: "idle_ok k1"
    proof -
      from io obtain b where b: "b \<in> set (PL k)" "pd k b = Some IDLE_PID" "st k b \<noteq> Some BLOCKED" by (auto simp: idle_ok_def)
      then have "b \<noteq> ?c" using idle c(1) by (auto simp: pd_Some)
      with b cur1 blocked(4) show ?thesis by (auto simp: idle_ok_def st_apply)
    qed
    have n1: "node_available k1" using st1 cur1(1) by (simp add: node_available_def)
    obtain a q k' where Y: "requeued k1 = a # RL k'" "procs k1 a = Some q" "yield r k1 = Some k'" "cpu_rsp k' = saved r k1 a"
      "sched_ok k'" "currentProcess k' = a" "PL k' = PL k1" "BL k' = BL k1" "idle_ok k'" "created k'"
      and others: "\<And>b p. b \<in> set (PL k1) \<Longrightarrow> b \<noteq> a \<Longrightarrow> procs k1 b = Some p \<Longrightarrow>
         \<exists>q. procs k' b = Some q \<and> stackPos q = saved r k1 b \<and> priority q = priority p"
      by (rule yield_switch [OF blocked(3) cur1(4) io1 n1, of r]) (rule that; assumption?)
    have ac: "a \<noteq> ?c" using nR Y(1) R1 by auto
    have call: "blockProcess (pid p) r k = Some (0, k')"
      using blocked(1) Y(3) cur1 by (simp add: block_rest_def getPid_def)
    have qa: "procs k a = Some q" using Y(2) blocked(4) ac by simp
    have sv: "saved r k1 a = stackPos q" "saved r k1 ?c = r" using ac cur1(1) Y(2) by (simp_all add: saved_def)
    obtain p' where p': "procs k' ?c = Some p'" "stackPos p' = r"
      using others [of ?c] in_PL cur1(5) ac blocked(4) sv(2) by auto
    have B: "BL k' = BL k @ [?c]" using Y(8) blocked(6) by simp
    have "st k' ?c = Some BLOCKED"
      using sched_okD(8) [OF Y(5)] B unfolding queue_of_def by force
    then show ?thesis using call Y(4,5,6,9,10) B p' qa sv(1) Y(1) R1
      by (auto simp: kernel_inv_def)
  qed
qed




text \<open>The witness has the bitmap manager, whose region begins at 100: the nodes' addresses are outside it.\<close>

definition demo_bitmap :: kernel where
  "demo_bitmap = demo_kernel\<lparr>k_mm := BitmapMM small_bitmap\<rparr>"

lemma demo_bitmap_ok: "sched_ok demo_bitmap"
proof -
  have "sched_ok (demo_kernel\<lparr>k_mm := m\<rparr>) = sched_ok demo_kernel" for m
    by (simp add: sched_ok_def)
  then show ?thesis using demo_ok by (simp add: demo_bitmap_def)
qed

lemma small_bitmap_free: "i < 100 \<Longrightarrow> bitmap_free i small_bitmap = small_bitmap"
  by (simp add: small_bitmap_def bitmap_free_def Let_def)

lemma small_bitmap_node: "\<exists>m. bitmap_alloc sizeof_node small_bitmap = (100, m)"
  by (simp add: bitmap_alloc_def small_bitmap_def POW2_def sub64_def add64_def alloc_scan.simps
      fill_range.simps Let_def sizeof_node_def)

lemma demo_wake: "wake_results [400] (snd (remove_ready 300 demo_bitmap)) = Some [0]"
proof -
  obtain m where m: "bitmap_alloc sizeof_node small_bitmap = (100, m)" using small_bitmap_node by blast
  have lists: "processList demo_bitmap = \<lparr>l_addr = 11, l_items = [(12, 100), (13, 200), (14, 300), (15, 400)]\<rparr>"
    "readyProcess demo_bitmap = \<lparr>l_addr = 16, l_items = [(17, 100), (18, 300)]\<rparr>"
    "blockedProcess demo_bitmap = \<lparr>l_addr = 19, l_items = [(20, 400)]\<rparr>" "scheduler demo_bitmap = 10"
    "k_mm demo_bitmap = BitmapMM small_bitmap" "procs demo_bitmap = procs demo_kernel"
    by (simp_all add: demo_bitmap_def demo_kernel_def)
  have pids: "pid (demo_pcb i s w) = i" "status (demo_pcb i s w) = s" for i s w by (simp_all add: demo_pcb_def)
  show ?thesis
    by (simp add: remove_ready_def seq_remove_def lists small_bitmap_free demo_procs deref_simps setReadyProcess_def
        findProcess_def pids remove_blocked_def add_ready_def seq_add_def m update_pcb_def Let_def)
qed


text \<open>
  A waiting list keeps a pointer to a waiter that was killed: when the
  process it waits for is killed afterwards, \<open>kill\<close> dereferences the freed control block.
\<close>

theorem dangling_waiter_fault:
  assumes ok: "sched_ok k" and a: "a \<in> set (PL k)" "procs k a = Some p" "l_data (waitingList p) = w # ws"
    and w: "w \<in> set (PL k)" "w \<noteq> a" "w \<noteq> currentProcess k" "procs k w = Some q" "l_data (waitingList q) = []"
  shows "\<exists>k'. kill w k = Some (0, k') \<and> sched_ok k' \<and> kill a k' = None"
proof -
  have ws: "set (l_data (waitingList q)) \<subseteq> set (PL k) - {w}" using w(5) by simp
  have wr: "wake_results (l_data (waitingList q)) (snd (if status q = READY then remove_ready w k
       else if status q = BLOCKED then remove_blocked w k else (0, k))) = Some []" by (simp add: w(5))
  have e: "set ([] :: int list) \<subseteq> {0}" by simp
  obtain k' where k': "kill w k = Some (0, k')" "sched_ok k'" "PL k' = remove1 w (PL k)"
    "w \<noteq> currentProcess k \<Longrightarrow> procs k' w = None" and o: "\<And>b. b \<notin> insert w (set (l_data (waitingList q))) \<Longrightarrow> procs k' b = procs k b"
    by (rule kill_ok [OF ok w(1,4) ws wr e]) blast
  have a': "procs k' a = Some p" "a \<in> set (PL k')" using o [of a] a(1,2) w(2,5) k'(3) by simp_all
  have az: "a \<noteq> 0" "w \<noteq> 0" using sched_okD(3) [OF ok] a(1) w(1) by (metis, metis)
  have core: "core_inv (PL k') k'" using k'(2) by (simp add: sched_ok_core)
  obtain k1 where k1: "(if status p = READY then let (d, k1) = remove_ready a k' in (d \<noteq> 0, k1)
       else if status p = BLOCKED then let (d, k1) = remove_blocked a k' in (d \<noteq> 0, k1) else (True, k')) = (True, k1)"
    "procs k1 = procs k'"
    by (rule kill_dequeue [OF core a'(2) sched_okD(2) [OF k'(2)] a'(1) az(1)]) blast
  have "wake_all (w # ws) k1 = None" using k1(2) k'(4) w(3) az(2) by (simp add: deref_def)
  then have "kill a k' = None"
    using a' az(1) k1(1) a(3) by (simp add: kill_def deref_simps)
  with k' show ?thesis by blast
qed

theorem dangling_waiter_fault_witness:
  "\<exists>k'. kill 400 demo_kernel = Some (0, k') \<and> sched_ok k' \<and> kill 300 k' = None"
proof -
  have i: "300 \<in> set (PL demo_kernel)" "400 \<in> set (PL demo_kernel)" "(400 :: addr) \<noteq> 300" "400 \<noteq> currentProcess demo_kernel"
    by (simp_all add: demo_lists)
  have l: "l_data (waitingList (demo_pcb 2 READY \<lparr>l_addr = 30, l_items = [(31, 400)]\<rparr>)) = [400]"
    "l_data (waitingList (demo_pcb 3 BLOCKED null_list)) = []" by (simp_all add: demo_pcb_def)
  show ?thesis
    by (rule dangling_waiter_fault [OF demo_ok i(1) demo_procs(3) l(1) i(2,3,4) demo_procs(4) l(2)])
qed

text \<open>
  Nothing protects the idle process: once it is BLOCKED and no process is ready, a
  blocked current process lets \<open>schedule\<close> dispatch it all the same. It runs while it is still on
  the blocked queue, so the queues no longer agree with the states.
\<close>

theorem idle_blocked:
  assumes ok: "sched_ok k" and cr: "created k" and q: "quantums k \<le> 1" and R: "RL k = []"
    and c: "st k (currentProcess k) = Some BLOCKED" "currentProcess k \<in> set (PL k)"
    and idle: "a \<in> set (PL k)" "pd k a = Some IDLE_PID" "st k a = Some BLOCKED"
  shows "\<exists>s k'. schedule r k = Some (s, k') \<and> currentProcess k' = a \<and> st k' a = Some RUNNING \<and>
    a \<in> set (BL k') \<and> \<not> sched_ok k'"
proof -
  let ?c = "currentProcess k"
  let ?k = "k\<lparr>quantums := quantums k - 1\<rparr>"
  obtain p where p: "procs k ?c = Some p" "status p = BLOCKED" using c(1) by (auto dest: st_SomeD)
  have nz: "?c \<noteq> 0" "a \<noteq> 0" using sched_okD(3) [OF ok] c(2) idle(1) by (metis, metis)
  have cp: "currentPid k \<noteq> NO_PROCESS" using sched_okD(10) [OF ok] nz(1) by (auto simp: current_inv_def NO_PROCESS_def)
  let ?k1 = "?k\<lparr>procs := (procs k)(?c \<mapsto> p\<lparr>stackPos := r\<rparr>)\<rparr>"
  have req: "requeue r ?k = Some ?k1"
    using p nz(1) by (simp add: requeue_def deref_simps update_pcb_Some)
  have qty: "processQty k \<noteq> 0" using sched_okD(5) [OF ok] idle(1) by (metis length_0_conv empty_iff list.set(1))
  have ok1: "sched_ok ?k1"
    using sched_ok_update_other(1) [of ?k ?c p "p\<lparr>stackPos := r\<rparr>"] ok p(1) nz(1) by simp
  obtain d k2 where first: "first_ready ?k1 = (d, k2)" by force
  have d: "d = 0" "k2 = ?k1" using first by (rule first_readyE; use R in simp)+
  have "st ?k1 a = Some BLOCKED" using idle(3) p by (auto simp: st_apply)
  from st_SomeD [OF this] obtain q' where q': "procs ?k1 a = Some q'" by blast
  have "pid q' = IDLE_PID" using idle(2) q' p(1) by (auto simp: pd_apply split: if_splits)
  then have find: "findProcess IDLE_PID ?k1 = Some a"
    using findProcess_in [OF ok1 _ q'] idle(1) by simp
  have disp: "\<exists>s k'. schedule r k = Some (s, k') \<and> dispatch a ?k1 = Some (s, k')"
    using cr sched_okD(1) [OF ok] qty q cp req first d find nz(2) dispatch_Some [of ?k1 a, OF q' nz(2)]
    by (simp add: schedule_def Let_def)
  then obtain s k' where k': "schedule r k = Some (s, k')" "dispatch a ?k1 = Some (s, k')" by blast
  have v: "currentProcess k' = a" "st k' a = Some RUNNING" "BL k' = BL k"
    using k'(2) dispatch_Some [of ?k1 a, OF q' nz(2)] by (auto simp: st_apply)
  have "a \<in> set (BL k')" using v(3) sched_okD(8) [OF ok] idle by (simp add: queue_of_def)
  moreover have "\<not> sched_ok k'"
    using sched_okD(8) [of k'] \<open>a \<in> set (BL k')\<close> v(2) by (auto simp: queue_of_def)
  ultimately show ?thesis using k'(1) v by blast
qed

text \<open>The witness: the idle process is blocked, and so is the shell, the current process.\<close>

definition demo_idle_blocked :: kernel where
  "demo_idle_blocked = demo_kernel\<lparr>
     procs := [100 \<mapsto> demo_pcb 0 BLOCKED null_list, 200 \<mapsto> demo_pcb 1 BLOCKED null_list],
     processList := \<lparr>l_addr = 11, l_items = [(12, 100), (13, 200)]\<rparr>,
     readyProcess := \<lparr>l_addr = 16, l_items = []\<rparr>,
     blockedProcess := \<lparr>l_addr = 19, l_items = [(17, 100), (20, 200)]\<rparr>, processQty := 2\<rparr>"

theorem idle_blocked_witness:
  "\<exists>s k'. schedule 9 demo_idle_blocked = Some (s, k') \<and> st k' 100 = Some RUNNING \<and> \<not> sched_ok k'"
proof -
  let ?k = demo_idle_blocked
  have l: "PL ?k = [100, 200]" "RL ?k = []" "BL ?k = [100, 200]" "currentProcess ?k = 200" "quantums ?k \<le> 1"
    "created ?k" "scheduler ?k = 10" "processQty ?k = 2" "currentPid ?k = 1" "procs ?k 0 = None"
    by (simp_all add: demo_idle_blocked_def demo_kernel_def PL_def RL_def BL_def)
  have s: "st ?k 100 = Some BLOCKED" "st ?k 200 = Some BLOCKED" "pd ?k 100 = Some 0" "pd ?k 200 = Some 1"
    by (simp_all add: st_apply pd_apply demo_idle_blocked_def demo_pcb_def)
  have ok: "sched_ok ?k"
    by (auto simp: sched_ok_def inv_defs l s MAX_PROCESS_def inj_on_def)
  have c: "st ?k (currentProcess ?k) = Some BLOCKED" "currentProcess ?k \<in> set (PL ?k)" by (simp_all add: l s)
  have i: "100 \<in> set (PL ?k)" "pd ?k 100 = Some IDLE_PID" by (simp_all add: l s IDLE_PID_def)
  from idle_blocked [OF ok l(6,5,2) c i s(1), of 9] show ?thesis by blast
qed

end
