(* ===== verification/Scheduler_Liveness.thy ===== *)
theory Scheduler_Liveness
  imports Scheduler_Properties
begin

text \<open>
  No ready process starves: while no system call intervenes, the timer gives the processor to each process of the ready
  queue in turn, after as many ticks as the quanta of those before it. This needs nothing of the memory manager: a
  process that finds no node for the queue when its quantum is used up is lost, but not those that wait.
\<close>

text \<open>What of the invariant is kept even then.\<close>

definition in_turn :: "'a kernel_scheme \<Rightarrow> bool" where
  "in_turn k = (created k \<and> scheduler k \<noteq> 0 \<and> processQty k \<noteq> 0 \<and> currentPid k \<noteq> NO_PROCESS \<and>
     st k (currentProcess k) = Some RUNNING \<and> distinct (currentProcess k # RL k) \<and> 0 \<notin> set (currentProcess k # RL k) \<and>
     (\<forall>a \<in> set (currentProcess k # RL k). \<exists>p. procs k a = Some p \<and> pid p \<noteq> NO_PROCESS))"

lemma sched_ok_in_turn:
  assumes ok: "sched_ok k" and "created k" and run: "st k (currentProcess k) = Some RUNNING"
  shows "in_turn k"
proof -
  have q: "queues_inv (PL k) (RL k) (BL k) (st k) (pd k) (currentProcess k) (currentPid k) (processQty k)"
    and z: "scheduler k \<noteq> 0" "procs k 0 = None" using ok by (simp_all add: sched_ok_def)
  have cur: "currentProcess k \<noteq> 0 \<and> currentProcess k \<in> set (PL k) \<and> currentPid k \<noteq> NO_PROCESS"
    using ok
  proof (cases rule: current_cases)
    case 1
    then show ?thesis using run z(2) by (simp add: st_apply)
  next
    case (2 p)
    then show ?thesis using run by (simp add: st_apply)
  next
    case (3 p)
    then show ?thesis by (simp add: NO_PROCESS_def)
  qed
  have rl: "set (RL k) \<subseteq> set (PL k)" "distinct (RL k)" "currentProcess k \<notin> set (RL k)" "0 \<notin> set (PL k)" "length (PL k) = processQty k"
    using q run by (auto simp: queues_inv_def table_inv_def queue_of_def)
  have "\<exists>p. procs k a = Some p \<and> pid p \<noteq> NO_PROCESS" if "a \<in> set (PL k)" for a
  proof -
    from q that obtain i where "pd k a = Some i" "0 \<le> i" by (auto simp: queues_inv_def table_inv_def)
    then show ?thesis by (auto simp: pd_apply NO_PROCESS_def)
  qed
  moreover have "processQty k \<noteq> 0" using cur rl(5) by (cases "PL k") auto
  ultimately show ?thesis using assms(2,3) z(1) cur rl by (auto simp: in_turn_def)
qed

text \<open>One tick at the end of a quantum.\<close>

lemma switch_turn:
  assumes t: "in_turn k" and q: "quantums k \<le> 1" and rl: "RL k = a # as"
  obtains k' ys where "timer_tick r k = Some k'" "in_turn k'" "currentProcess k' = a" "RL k' = as @ ys"
    "quantums k' = int (priority (the (procs k a)))"
    "\<And>b p. procs k b = Some p \<Longrightarrow> \<exists>p'. procs k' b = Some p' \<and> priority p' = priority p"
proof -
  let ?c = "currentProcess k" and ?k = "k\<lparr>quantums := quantums k - 1\<rparr>"
  have t': "created k" "scheduler k \<noteq> 0" "processQty k \<noteq> 0" "currentPid k \<noteq> NO_PROCESS" "?c \<noteq> 0" "a \<noteq> 0" "0 \<notin> set as"
    "distinct (?c # a # as)" "st k ?c = Some RUNNING"
    and pr: "\<And>b. b \<in> set (?c # a # as) \<Longrightarrow> \<exists>p. procs k b = Some p \<and> pid p \<noteq> NO_PROCESS"
    using t rl by (auto simp: in_turn_def)
  from pr [of ?c] obtain p where p: "procs k ?c = Some p" "pid p \<noteq> NO_PROCESS" by auto
  have run: "status p = RUNNING" using p(1) t'(9) by (simp add: st_apply)
  from pr [of a] obtain pa where pa: "procs k a = Some pa" "pid pa \<noteq> NO_PROCESS" by auto
  let ?p = "p\<lparr>stackPos := r, status := READY\<rparr>"
  define k1 where "k1 = ?k\<lparr>procs := (procs k)(?c \<mapsto> ?p)\<rparr>"
  obtain n k2 where add: "add_ready ?c k1 = (n, k2)" by force
  then obtain l m where k2: "k2 = k1\<lparr>readyProcess := l, k_mm := m\<rparr>" "l_data l = (if n = 0 then RL k1 else RL k1 @ [?c])"
    by (rule add_readyE)
  have rl2: "RL k2 = a # as @ (if n = 0 then [] else [?c])" using k2 rl by (simp add: k1_def)
  have req: "requeue r ?k = Some k2"
    using t'(5) p(1) run add by (simp add: requeue_def deref_simps update_pcb_Some k1_def)
  obtain d k3 where first: "first_ready k2 = (d, k3)" by force
  have "0 \<notin> set (RL k2)" using rl2 t' by auto
  then obtain l' m' where k3: "k3 = k2\<lparr>readyProcess := l', k_mm := m'\<rparr>" "RL k2 = d # l_data l'"
    by (rule first_readyE [OF first]) (use rl2 in simp, rule that)
  have d: "d = a" and l': "l_data l' = as @ (if n = 0 then [] else [?c])" using k3(2) rl2 by simp_all
  have a3: "procs k3 a = Some pa" using pa(1) t'(8) by (simp add: k3(1) k2(1) k1_def)
  let ?k' = "k3\<lparr>procs := (procs k3)(a \<mapsto> pa\<lparr>status := RUNNING\<rparr>), currentProcess := a, currentPid := pid pa,
      quantums := int (priority pa)\<rparr>"
  have "schedule r k = Some (stackPos pa, ?k')"
    using t' q req first d dispatch_Some [OF a3 t'(6)] by (simp add: schedule_def Let_def)
  then have tick: "timer_tick r k = Some (?k'\<lparr>cpu_rsp := stackPos pa\<rparr>)" by (simp add: timer_tick_def)
  have procs': "procs ?k' = (procs k)(?c \<mapsto> ?p, a \<mapsto> pa\<lparr>status := RUNNING\<rparr>)" by (simp add: k3(1) k2(1) k1_def)
  have same: "created ?k' = created k" "scheduler ?k' = scheduler k" "processQty ?k' = processQty k" "RL ?k' = l_data l'"
    by (simp_all add: k3(1) k2(1) k1_def)
  have "\<exists>p. procs ?k' b = Some p \<and> pid p \<noteq> NO_PROCESS" if "b \<in> set (a # RL ?k')" for b
    using that pr [of b] p pa l' unfolding procs' same(4) by (auto split: if_splits)
  moreover have "st ?k' a = Some RUNNING" unfolding st_apply procs' by simp
  moreover have "distinct (a # RL ?k')" "0 \<notin> set (a # RL ?k')" using t'(5-8) l' unfolding same(4) by auto
  ultimately have "in_turn (?k'\<lparr>cpu_rsp := stackPos pa\<rparr>)" using t'(1-3) pa(2) same(1-3) by (simp add: in_turn_def)
  moreover have "\<exists>q'. procs ?k' b = Some q' \<and> priority q' = priority q" if "procs k b = Some q" for b q
    using that p(1) pa(1) unfolding procs' by auto
  ultimately show ?thesis using that [OF tick] pa(1) l' same(4) by simp
qed

lemma ticks_append: "ticks (rs @ ss) = (\<lambda>k. Option.bind (ticks rs k) (ticks ss))"
proof (induction rs)
  case (Cons r rs)
  then show ?case by (intro ext) (simp add: Option.bind_assoc)
qed (simp add: fun_eq_iff)

text \<open>How many ticks pass until the i-th process of the queue runs.\<close>

definition slice :: "'a kernel_scheme \<Rightarrow> addr \<Rightarrow> nat" where
  "slice k a = max 1 (priority (the (procs k a)))"

definition turn :: "'a kernel_scheme \<Rightarrow> nat \<Rightarrow> nat" where
  "turn k i = nat (max 1 (quantums k)) + sum_list (map (slice k) (take i (RL k)))"

lemma first_turn:
  assumes t: "in_turn k" and rl: "RL k = a # as" and n: "length rs = nat (max 1 (quantums k))"
  obtains k' ys where "ticks rs k = Some k'" "in_turn k'" "currentProcess k' = a" "RL k' = as @ ys"
    "quantums k' = int (priority (the (procs k a)))"
    "\<And>b p. procs k b = Some p \<Longrightarrow> \<exists>p'. procs k' b = Some p' \<and> priority p' = priority p"
proof -
  have "rs \<noteq> []" using n by auto
  then obtain ss r where rs: "rs = ss @ [r]" by (cases rs rule: rev_cases) auto
  obtain k1 where k1: "ticks ss k = Some k1" "in_turn k1" "quantums k1 \<le> 1" "RL k1 = RL k" "procs k1 = procs k"
  proof (cases "ss = []")
    case True
    then have "quantums k \<le> 1" using n rs by (simp add: max_def split: if_splits)
    then show ?thesis using that [of k] t True by simp
  next
    case False
    then have "int (length ss) < quantums k" using n rs by (cases ss) auto
    moreover have "created k" "scheduler k \<noteq> 0" "processQty k \<noteq> 0" using t by (simp_all add: in_turn_def)
    ultimately have e: "ticks ss k = Some (k\<lparr>quantums := quantums k - int (length ss), cpu_rsp := List.last (cpu_rsp k # ss)\<rparr>)"
      by (intro ticks_within) simp_all
    have "quantums k - int (length ss) \<le> 1" using n rs by simp
    then show ?thesis using t by (intro that [OF e]) (simp_all add: in_turn_def st_apply)
  qed
  have rl1: "RL k1 = a # as" using k1(4) rl by simp
  obtain k' ys where k': "timer_tick r k1 = Some k'" "in_turn k'" "currentProcess k' = a" "RL k' = as @ ys"
    "quantums k' = int (priority (the (procs k1 a)))"
    "\<And>b p. procs k1 b = Some p \<Longrightarrow> \<exists>p'. procs k' b = Some p' \<and> priority p' = priority p"
    by (rule switch_turn [where r = r, OF k1(2,3) rl1]) (rule that)
  have "ticks rs k = Some k'" using k1(1) k'(1) by (simp add: rs ticks_append)
  with that k' k1(5) show ?thesis by simp
qed

lemma turn_comes:
  assumes "in_turn k" and "i < length (RL k)" and "length rs = turn k i"
  shows "\<exists>k'. ticks rs k = Some k' \<and> in_turn k' \<and> currentProcess k' = RL k ! i \<and>
    quantums k' = int (priority (the (procs k (RL k ! i))))"
  using assms
proof (induction i arbitrary: k rs)
  case 0
  then obtain a as where rl: "RL k = a # as" by (cases "RL k") auto
  have n: "length rs = nat (max 1 (quantums k))" using 0(3) by (simp add: turn_def)
  from first_turn [OF 0(1) rl n] show ?case unfolding rl by (metis nth_Cons_0)
next
  case (Suc i)
  then obtain a as where rl: "RL k = a # as" by (cases "RL k") auto
  let ?n = "nat (max 1 (quantums k))"
  obtain rs1 rs2 where rs: "rs = rs1 @ rs2" "length rs1 = ?n"
    using Suc.prems(3) by (metis append_take_drop_id length_take min.absorb2 le_add1 turn_def)
  obtain k1 ys where k1: "ticks rs1 k = Some k1" "in_turn k1" "currentProcess k1 = a" "RL k1 = as @ ys"
    "quantums k1 = int (priority (the (procs k a)))"
    "\<And>b p. procs k b = Some p \<Longrightarrow> \<exists>p'. procs k1 b = Some p' \<and> priority p' = priority p"
    by (rule first_turn [OF Suc.prems(1) rl rs(2)]) (rule that)
  have i: "i < length as" using Suc.prems(2) rl by simp
  have same: "priority (the (procs k1 b)) = priority (the (procs k b))" if "b \<in> set as" for b
  proof -
    have "\<exists>p. procs k b = Some p" using Suc.prems(1) that rl by (auto simp: in_turn_def)
    then show ?thesis using k1(6) by fastforce
  qed
  have s: "map (slice k1) (take i as) = map (slice k) (take i as)" using same by (auto simp: slice_def dest: in_set_takeD)
  have "turn k1 i = slice k a + sum_list (map (slice k) (take i as))"
    using i by (simp add: turn_def k1(4,5) s) (simp add: slice_def)
  moreover have "turn k (Suc i) = ?n + (slice k a + sum_list (map (slice k) (take i as)))" by (simp add: turn_def rl)
  ultimately have "length rs2 = turn k1 i" using Suc.prems(3) rs by simp
  moreover have "i < length (RL k1)" using i k1(4) by simp
  ultimately obtain k' where "ticks rs2 k1 = Some k'" "in_turn k'" "currentProcess k' = RL k1 ! i"
    "quantums k' = int (priority (the (procs k1 (RL k1 ! i))))" using Suc.IH [OF k1(2)] by blast
  moreover have "RL k1 ! i = RL k ! Suc i" "RL k ! Suc i \<in> set as" using i k1(4) rl by (simp_all add: nth_append)
  ultimately show ?case using k1(1) rs(1) same by (auto simp: ticks_append)
qed

text \<open>
  C34. No ready process starves: from any consistent state with a running process, after the rest of its
  quantum and one full quantum (its priority, at least one tick) of every process before it in the ready queue, and
  exactly then, the i-th process of the queue runs, with a full quantum of its own, whether or not the memory manager had
  room for the processes that went back to the queue.
\<close>

theorem ready_gets_processor:
  assumes "sched_ok k" and "created k" and "st k (currentProcess k) = Some RUNNING" and "i < length (RL k)" and "length rs = turn k i"
  shows "\<exists>k'. ticks rs k = Some k' \<and> currentProcess k' = RL k ! i \<and> st k' (RL k ! i) = Some RUNNING \<and>
    quantums k' = int (priority (the (procs k (RL k ! i))))"
  using turn_comes [OF sched_ok_in_turn [OF assms(1-3)] assms(4,5)] by (auto simp: in_turn_def)

theorem ready_gets_processor_witness:
  "\<exists>k'. ticks [5000] demo_kernel = Some k' \<and> currentProcess k' = 100"
proof -
  have "st demo_kernel (currentProcess demo_kernel) = Some RUNNING" "0 < length (RL demo_kernel)" "length [5000] = turn demo_kernel 0"
    "RL demo_kernel ! 0 = 100"
    by (simp_all add: demo_lists demo_view turn_def demo_procs demo_pcb_def)
  with ready_gets_processor [OF demo_ok demo_lists(6), of 0 "[5000]"] show ?thesis by auto
qed

end
