(* ===== verification/Frame.thy ===== *)
theory Frame
  imports Scheduler_Properties
begin

text \<open>
  The operations of the scheduler on a state that extends the record \<open>kernel\<close>: they do not look at the
  extension and do not change it. The theories of the semaphores and the pipes rest on it.
\<close>

named_theorems frames \<open>an operation of the scheduler leaves the extension of the state alone\<close>

lemma more_update_pcb [frames]: "update_pcb a f k = Some k' \<Longrightarrow> kernel.more k' = kernel.more k"
  by (auto simp: update_pcb_def bind_eq_Some_conv)

lemma more_free_pcb [frames]: "free_pcb a k = Some k' \<Longrightarrow> kernel.more k' = kernel.more k"
  by (auto simp: free_pcb_def bind_eq_Some_conv)

lemma more_lists [frames]:
  "add_ready a k = (n, k') \<Longrightarrow> kernel.more k' = kernel.more k"
  "add_blocked a k = (n, k') \<Longrightarrow> kernel.more k' = kernel.more k"
  "add_process a k = (n, k') \<Longrightarrow> kernel.more k' = kernel.more k"
  "remove_ready a k = (n, k') \<Longrightarrow> kernel.more k' = kernel.more k"
  "remove_blocked a k = (n, k') \<Longrightarrow> kernel.more k' = kernel.more k"
  "remove_process a k = (n, k') \<Longrightarrow> kernel.more k' = kernel.more k"
  "first_ready k = (n, k') \<Longrightarrow> kernel.more k' = kernel.more k"
  by (auto simp: add_ready_def add_blocked_def add_process_def remove_ready_def remove_blocked_def
      remove_process_def first_ready_def split: prod.splits)

lemma more_dispatch [frames]: "dispatch a k = Some (s, k') \<Longrightarrow> kernel.more k' = kernel.more k"
  by (auto simp: dispatch_def bind_eq_Some_conv dest: frames)

lemma more_snd_add_ready: "kernel.more (snd (add_ready a k)) = kernel.more k"
  by (simp add: add_ready_def split: prod.splits)

lemma more_requeue [frames]: "requeue r k = Some k' \<Longrightarrow> kernel.more k' = kernel.more k"
  by (auto simp: requeue_def bind_eq_Some_conv more_snd_add_ready split: if_splits dest!: frames)

lemma more_schedule [frames]:
  assumes "schedule r k = Some (s, k')"
  shows "kernel.more k' = kernel.more k"
proof -
  let ?k = "k\<lparr>quantums := quantums k - 1\<rparr>"
  consider "\<not> created k \<or> scheduler k = 0" | "created k" "scheduler k \<noteq> 0" "processQty k = 0 \<or> quantums k > 1"
    | "created k" "scheduler k \<noteq> 0" "processQty k \<noteq> 0" "\<not> quantums k > 1" "currentPid k = NO_PROCESS"
    | "created k" "scheduler k \<noteq> 0" "processQty k \<noteq> 0" "\<not> quantums k > 1" "currentPid k \<noteq> NO_PROCESS" by blast
  then show ?thesis
  proof cases
    case 3
    obtain a k1 where f: "first_ready ?k = (a, k1)" by force
    with more_lists(7) [OF f] 3 assms show ?thesis
      by (auto simp: schedule_def Let_def split: if_splits dest!: more_dispatch)
  next
    case 4
    with assms obtain k2 where q: "requeue r ?k = Some k2" by (auto simp: schedule_def bind_eq_Some_conv)
    obtain a k3 where f: "first_ready k2 = (a, k3)" by force
    have "kernel.more k3 = kernel.more k" using more_requeue [OF q] more_lists(7) [OF f] by simp
    with 4 assms q f show ?thesis
      by (auto simp: schedule_def bind_eq_Some_conv split: if_splits dest!: more_dispatch)
  qed (use assms in \<open>auto simp: schedule_def Let_def split: if_splits\<close>)
qed

lemma more_timer_tick [frames]: "timer_tick r k = Some k' \<Longrightarrow> kernel.more k' = kernel.more k"
  by (auto simp: timer_tick_def bind_eq_Some_conv dest: more_schedule)

lemma more_yield [frames]: "yield r k = Some k' \<Longrightarrow> kernel.more k' = kernel.more k"
  by (auto simp: yield_def split: if_splits dest: more_timer_tick)

lemma more_setReadyProcess [frames]: "setReadyProcess i k = Some (x, k') \<Longrightarrow> kernel.more k' = kernel.more k"
  by (auto simp: setReadyProcess_def bind_eq_Some_conv split: if_splits prod.splits dest!: frames)

lemma more_blockProcess [frames]: "blockProcess i r k = Some (x, k') \<Longrightarrow> kernel.more k' = kernel.more k"
  by (auto simp: blockProcess_def bind_eq_Some_conv Let_def split: if_splits prod.splits dest!: frames)

lemma more_wake_all [frames]: "wake_all as k = Some k' \<Longrightarrow> kernel.more k' = kernel.more k"
  by (induction as arbitrary: k) (auto simp: bind_eq_Some_conv split: if_splits dest!: more_setReadyProcess)

lemma more_kill [frames]:
  assumes "Scheduler.kill a k = Some (v, k')"
  shows "kernel.more k' = kernel.more k"
proof -
  from assms obtain p where p: "deref (procs k) a = Some p" by (auto simp: kill_def bind_eq_Some_conv)
  obtain ok k1 where q: "(if status p = READY then let (d, k1) = remove_ready a k in (d \<noteq> 0, k1)
       else if status p = BLOCKED then let (d, k1) = remove_blocked a k in (d \<noteq> 0, k1) else (True, k)) = (ok, k1)" by force
  then have m1: "kernel.more k1 = kernel.more k" by (auto split: if_splits prod.splits dest: more_lists)
  show ?thesis
  proof (cases ok)
    case False
    with assms p q m1 show ?thesis by (auto simp: kill_def)
  next
    case True
    with assms p q obtain k2 where w: "wake_all (l_data (waitingList p)) k1 = Some k2" by (auto simp: kill_def bind_eq_Some_conv)
    obtain d k3 where r: "remove_process a k2 = (d, k3)" by force
    have m3: "kernel.more k3 = kernel.more k" using m1 more_wake_all [OF w] more_lists(6) [OF r] by simp
    from assms p q True w r m3 show ?thesis
      by (auto simp: kill_def bind_eq_Some_conv Let_def split: if_splits dest!: more_update_pcb more_free_pcb)
  qed
qed

lemma more_killProcess [frames]: "killProcess i k = Some (v, k') \<Longrightarrow> kernel.more k' = kernel.more k"
  by (auto simp: killProcess_def bind_eq_Some_conv Let_def split: if_splits dest!: more_kill)

lemma more_killForegroundProcess [frames]: "killForegroundProcess k = Some (v, k') \<Longrightarrow> kernel.more k' = kernel.more k"
  by (auto simp: killForegroundProcess_def killCurrentProcess_def bind_eq_Some_conv split: if_splits
      dest!: more_kill more_killProcess)

end
