(* ===== verification/Semaphores.thy ===== *)
theory Semaphores
  imports Frame
begin

text \<open>
  \<open>Kernel/utils/semaphores/semaphores.c\<close>: counting semaphores with a queue of waiting processes. The kernel's
  state is extended by the pointer \<open>semManager\<close>, the array it points to, and the 16-bit cells that
  \<open>sem_wait\<close> allocates for the pids in the queues. \<open>acquire\<close> and \<open>release\<close> are those of
  \<open>Kernel/asm/semaphores.asm\<close>; \<open>None\<close> is a fault or an \<open>acquire\<close> that spins: the kernel has one processor and its
  system calls are not interrupted, so nobody would release the lock.
\<close>

unbundle bit_operations_syntax

definition NUM_SEMS :: nat where "NUM_SEMS = 128"
definition sizeof_semaphores :: nat where "sizeof_semaphores = 2048"
definition sizeof_pid :: nat where "sizeof_pid = 2"

record semaphore =
  waitQueue :: plist
  counter :: "32 word"
  spinlock :: "8 word"
  active :: "8 word"

record sem_kernel = kernel +
  semManager :: addr
  semaphores :: "nat \<Rightarrow> semaphore"
  pid_cells :: "addr \<rightharpoonup> int"

section \<open>Operations\<close>

definition isValidSemId :: "int \<Rightarrow> int" where
  "isValidSemId i = (if i < 0 \<or> i \<ge> int NUM_SEMS then - 1 else 0)"

definition update_sem :: "int \<Rightarrow> (semaphore \<Rightarrow> semaphore) \<Rightarrow> 'a sem_kernel_scheme \<Rightarrow> 'a sem_kernel_scheme" where
  "update_sem i f k = k\<lparr>semaphores := (semaphores k)(nat i := f (semaphores k (nat i)))\<rparr>"

definition acquire :: "int \<Rightarrow> 'a sem_kernel_scheme \<Rightarrow> 'a sem_kernel_scheme option" where
  "acquire i k =
     (if semManager k = 0 then None
      else if spinlock (semaphores k (nat i)) \<noteq> 0 then None
      else Some (update_sem i (spinlock_update (\<lambda>_. 1)) k))"

definition release :: "int \<Rightarrow> 'a sem_kernel_scheme \<Rightarrow> 'a sem_kernel_scheme" where
  "release i k = update_sem i (spinlock_update (\<lambda>_. 0)) k"

definition clear_sem :: semaphore where
  "clear_sem = \<lparr>waitQueue = null_list, counter = 0, spinlock = 0, active = 0\<rparr>"

definition initSemaphoreManager :: "'a sem_kernel_scheme \<Rightarrow> addr \<times> 'a sem_kernel_scheme" where
  "initSemaphoreManager k =
     (let (p, m) = mm_alloc sizeof_semaphores (k_mm k); k1 = k\<lparr>k_mm := m, semManager := p\<rparr> in
      if p = 0 then (0, k1)
      else (p, k1\<lparr>semaphores := (\<lambda>i. if i < NUM_SEMS then clear_sem else semaphores k1 i)\<rparr>))"

definition sem_create :: "int \<Rightarrow> 32 word \<Rightarrow> 'a sem_kernel_scheme \<Rightarrow> (int \<times> 'a sem_kernel_scheme) option" where
  "sem_create i v k =
     (if isValidSemId i = - 1 then Some (- 1, k)
      else if semManager k = 0 then None
      else if active (semaphores k (nat i)) = 0 then
        let (q, m) = seq_create (k_mm k);
            k1 = update_sem i (\<lambda>s. s\<lparr>counter := v, spinlock := 0, active := 1, waitQueue := q\<rparr>) (k\<lparr>k_mm := m\<rparr>) in
        if l_addr q = 0 then Some (- 1, k1) else Some (0, k1)
      else Some (- 1, k))"

definition sem_open :: "int \<Rightarrow> 'a sem_kernel_scheme \<Rightarrow> int option" where
  "sem_open i k =
     (if isValidSemId i = - 1 then Some (- 1)
      else if semManager k = 0 then None
      else if active (semaphores k (nat i)) \<noteq> 0 then Some 0
      else Some (- 1))"

definition sem_destroy :: "int \<Rightarrow> 'a sem_kernel_scheme \<Rightarrow> (int \<times> 'a sem_kernel_scheme) option" where
  "sem_destroy i k =
     (if isValidSemId i = - 1 then Some (- 1, k)
      else if semManager k = 0 then None
      else if active (semaphores k (nat i)) = 0 then Some (- 1, k)
      else if l_addr (waitQueue (semaphores k (nat i))) = 0 then None
      else Some (0, update_sem i (\<lambda>_. clear_sem)
        (k\<lparr>k_mm := seq_free (waitQueue (semaphores k (nat i))) (k_mm k)\<rparr>)))"

definition sem_wait :: "int \<Rightarrow> nat \<Rightarrow> 'a sem_kernel_scheme \<Rightarrow> (int \<times> 'a sem_kernel_scheme) option" where
  "sem_wait i r k =
     (if isValidSemId i = - 1 then Some (- 1, k)
      else do {
        k1 \<leftarrow> acquire i k;
        if counter (semaphores k1 (nat i)) \<noteq> 0 then
          Some (0, release i (update_sem i (counter_update (\<lambda>c. c - 1)) k1))
        else do {
          c \<leftarrow> getPid k1;
          let (p, m) = mm_alloc sizeof_pid (k_mm k1);
          if p = 0 then Some (- 1, release i (k1\<lparr>k_mm := m\<rparr>))
          else do {
            let k2 = k1\<lparr>k_mm := m, pid_cells := (pid_cells k1)(p \<mapsto> c)\<rparr>;
            let (n, q, m') = seq_add p (waitQueue (semaphores k2 (nat i))) (k_mm k2);
            let k3 = release i (update_sem i (waitQueue_update (\<lambda>_. q)) (k2\<lparr>k_mm := m'\<rparr>));
            (b, k4) \<leftarrow> blockProcess c r k3;
            Some (0, k4)
          }
        }
      })"

text \<open>The loop of \<open>sem_post\<close> that drops the waiters that are gone: the iterator is past the node it removes.\<close>

definition free_cell :: "addr \<Rightarrow> 'a sem_kernel_scheme \<Rightarrow> 'a sem_kernel_scheme" where
  "free_cell d k = k\<lparr>k_mm := mm_free d (k_mm k), pid_cells := (pid_cells k)(d := None)\<rparr>"

definition drop_waiter :: "int \<Rightarrow> addr \<Rightarrow> 'a sem_kernel_scheme \<Rightarrow> 'a sem_kernel_scheme" where
  "drop_waiter i d k =
     (let (x, q, m) = seq_remove d (waitQueue (semaphores k (nat i))) (k_mm k)
      in update_sem i (waitQueue_update (\<lambda>_. q)) (k\<lparr>k_mm := m\<rparr>))"

fun purge :: "int \<Rightarrow> addr list \<Rightarrow> 'a sem_kernel_scheme \<Rightarrow> 'a sem_kernel_scheme option" where
  "purge i [] k = Some k"
| "purge i (d # ds) k = do {
     c \<leftarrow> deref (pid_cells k) d;
     a \<leftarrow> findProcess c k;
     gone \<leftarrow> (if a = 0 then Some True else do { p \<leftarrow> deref (procs k) a; Some (status p = TERMINATED) });
     purge i ds (if gone then free_cell d (drop_waiter i d k) else k)
   }"

definition sem_post :: "int \<Rightarrow> 'a sem_kernel_scheme \<Rightarrow> (int \<times> 'a sem_kernel_scheme) option" where
  "sem_post i k =
     (if isValidSemId i = - 1 then Some (- 1, k)
      else do {
        k1 \<leftarrow> acquire i k;
        k2 \<leftarrow> purge i (l_data (waitQueue (semaphores k1 (nat i)))) k1;
        let q = waitQueue (semaphores k2 (nat i));
        let raise = (\<lambda>k. Some (0 :: int, release i (update_sem i (counter_update (\<lambda>c. c + 1)) k)));
        if l_addr q \<noteq> 0 \<and> l_items q \<noteq> [] then do {
          let (d, q', m) = seq_first q (k_mm k2);
          let k3 = drop_waiter i d (update_sem i (waitQueue_update (\<lambda>_. q')) (k2\<lparr>k_mm := m\<rparr>));
          if d \<noteq> 0 then do {
            c \<leftarrow> deref (pid_cells k3) d;
            (b, k4) \<leftarrow> setReadyProcess c (free_cell d k3);
            Some (0, release i k4)
          }
          else raise k3
        }
        else raise k2
      })"

section \<open>What the semaphores leave of the kernel's state, and the kernel of the semaphores\<close>

text \<open>Everything the scheduler keeps, without the memory manager.\<close>

definition sched_view :: "'a kernel_scheme \<Rightarrow> (addr \<rightharpoonup> pcb) \<times> addr \<times> bool \<times> plist \<times> plist \<times> plist \<times> int \<times> addr \<times> nat \<times> int \<times> nat" where
  "sched_view k = (procs k, scheduler k, created k, processList k, readyProcess k, blockedProcess k,
     currentPid k, currentProcess k, processQty k, quantums k, cpu_rsp k)"

lemma sched_view_simps [simp]:
  fixes k :: "'a sem_kernel_scheme"
  shows "sched_view (k\<lparr>k_mm := m\<rparr>) = sched_view k"
    "sched_view (k\<lparr>semaphores := s\<rparr>) = sched_view k"
    "sched_view (k\<lparr>pid_cells := c\<rparr>) = sched_view k"
    "sched_view (k\<lparr>semManager := p\<rparr>) = sched_view k"
  by (simp_all add: sched_view_def)

lemma sched_view_D:
  assumes "sched_view k' = sched_view k"
  shows "procs k' = procs k" and "PL k' = PL k" and "RL k' = RL k" and "BL k' = BL k" and "scheduler k' = scheduler k"
    and "created k' = created k" and "currentProcess k' = currentProcess k" and "currentPid k' = currentPid k"
    and "processQty k' = processQty k" and "st k' = st k" and "pd k' = pd k" and "findProcess i k' = findProcess i k"
  using assms unfolding sched_view_def PL_def RL_def BL_def st_def pd_def findProcess_def by simp_all

lemma sched_view_inv:
  assumes "sched_view k' = sched_view k"
  shows "sched_ok k' = sched_ok k" and "idle_ok k' = idle_ok k" and "kernel_inv k' = kernel_inv k"
  unfolding sched_ok_def idle_ok_def kernel_inv_def by (simp_all add: sched_view_D [OF assms])

lemma sem_more:
  fixes k k' :: "'a sem_kernel_scheme"
  assumes "kernel.more k' = kernel.more k"
  shows "semaphores k' = semaphores k" and "semManager k' = semManager k" and "pid_cells k' = pid_cells k"
  using assms by (cases k; cases k'; simp)+

lemma seq_remove_addr: "seq_remove d l m = (x, l', m') \<Longrightarrow> l_addr l' = l_addr l"
  by (auto simp: seq_remove_def split: if_splits option.splits)

lemma seq_first_addr: "seq_first l m = (x, l', m') \<Longrightarrow> l_addr l' = l_addr l"
  by (auto simp: seq_first_def split: list.splits prod.splits dest: seq_remove_addr)

lemma seq_add_addr: "seq_add d l m = (x, l', m') \<Longrightarrow> l_addr l' = l_addr l"
  by (auto simp: seq_add_def split: if_splits prod.splits)

lemma update_sem_simps [simp]:
  "sched_view (update_sem i f k) = sched_view k"
  "semaphores (update_sem i f k) = (semaphores k)(nat i := f (semaphores k (nat i)))"
  "pid_cells (update_sem i f k) = pid_cells k" "semManager (update_sem i f k) = semManager k"
  "k_mm (update_sem i f k) = k_mm k"
  by (simp_all add: update_sem_def)

section \<open>The abstract semaphore\<close>

text \<open>A value and the pids that wait, oldest first. A wait takes a unit or joins the queue; a post gives
  its unit to the first waiter who is still there or keeps it.\<close>

type_synonym asem = "32 word \<times> int list"

definition asem_wait :: "int \<Rightarrow> asem \<Rightarrow> asem" where
  "asem_wait c s = (if fst s \<noteq> 0 then (fst s - 1, snd s) else (0, snd s @ [c]))"

definition asem_post :: "(int \<Rightarrow> bool) \<Rightarrow> asem \<Rightarrow> asem" where
  "asem_post live s = (case List.filter live (snd s) of [] \<Rightarrow> (fst s + 1, []) | c # cs \<Rightarrow> (fst s, cs))"

definition sem_abs :: "'a sem_kernel_scheme \<Rightarrow> int \<Rightarrow> asem" where
  "sem_abs k i = (counter (semaphores k (nat i)),
     map (\<lambda>d. the (pid_cells k d)) (l_data (waitQueue (semaphores k (nat i)))))"

definition sem_ok :: "'a sem_kernel_scheme \<Rightarrow> int \<Rightarrow> bool" where
  "sem_ok k i = (let s = semaphores k (nat i); ds = l_data (waitQueue s) in
     semManager k \<noteq> 0 \<and> active s \<noteq> 0 \<and> spinlock s = 0 \<and> l_addr (waitQueue s) \<noteq> 0 \<and>
     distinct ds \<and> 0 \<notin> set ds \<and> set ds \<subseteq> dom (pid_cells k) \<and> (counter s = 0 \<or> ds = []))"

definition live_pid :: "'a kernel_scheme \<Rightarrow> int \<Rightarrow> bool" where
  "live_pid k c = (findProcess c k \<noteq> Some 0)"

text \<open>A process that \<open>findProcess\<close> finds is not TERMINATED, so \<open>purge\<close> drops exactly those it does not find.\<close>

lemma gone_iff:
  assumes "sched_ok k"
  obtains a where "findProcess c k = Some a" "live_pid k c = (a \<noteq> 0)"
    "(if a = 0 then Some True else do { p \<leftarrow> deref (procs k) a; Some (status p = TERMINATED) }) = Some (a = 0)"
  using assms
proof (cases rule: findProcess_cases [where i = c])
  case none
  then show ?thesis by (intro that [of 0]) (simp_all add: live_pid_def)
next
  case (found a p)
  from sched_ok_pcb [OF assms found(2)] found(4) have "status p \<noteq> TERMINATED" by force
  with found show ?thesis by (intro that [of a]) (simp_all add: live_pid_def deref_simps)
qed

lemma drop_waiter_spec:
  assumes "d \<noteq> 0"
  shows "sched_view (drop_waiter i d k) = sched_view k" and "pid_cells (drop_waiter i d k) = pid_cells k"
    and "semManager (drop_waiter i d k) = semManager k"
    and "\<exists>q. semaphores (drop_waiter i d k) = (semaphores k)(nat i := (semaphores k (nat i))\<lparr>waitQueue := q\<rparr>) \<and>
      l_addr q = l_addr (waitQueue (semaphores k (nat i))) \<and> l_data q = remove1 d (l_data (waitQueue (semaphores k (nat i))))"
proof -
  obtain x q m where r: "seq_remove d (waitQueue (semaphores k (nat i))) (k_mm k) = (x, q, m)" by (rule prod_cases3)
  note s = seq_remove_data(2) [OF r assms] seq_remove_addr [OF r]
  show "sched_view (drop_waiter i d k) = sched_view k" "pid_cells (drop_waiter i d k) = pid_cells k"
    "semManager (drop_waiter i d k) = semManager k" by (simp_all add: drop_waiter_def r)
  show "\<exists>q. semaphores (drop_waiter i d k) = (semaphores k)(nat i := (semaphores k (nat i))\<lparr>waitQueue := q\<rparr>) \<and>
      l_addr q = l_addr (waitQueue (semaphores k (nat i))) \<and> l_data q = remove1 d (l_data (waitQueue (semaphores k (nat i))))"
    using s by (intro exI [of _ q]) (simp add: drop_waiter_def r)
qed

lemma free_cell_simps [simp]:
  "sched_view (free_cell d k) = sched_view k" "semaphores (free_cell d k) = semaphores k"
  "semManager (free_cell d k) = semManager k" "pid_cells (free_cell d k) = (pid_cells k)(d := None)"
  by (simp_all add: free_cell_def)

lemma purge_spec:
  assumes "sched_ok k" and "l_data (waitQueue (semaphores k (nat i))) = pre @ ds" and "distinct (pre @ ds)"
    and "0 \<notin> set ds" and "set ds \<subseteq> dom (pid_cells k)"
  shows "\<exists>k' q. purge i ds k = Some k' \<and> sched_view k' = sched_view k \<and> semManager k' = semManager k \<and>
    semaphores k' = (semaphores k)(nat i := (semaphores k (nat i))\<lparr>waitQueue := q\<rparr>) \<and>
    l_addr q = l_addr (waitQueue (semaphores k (nat i))) \<and>
    l_data q = pre @ List.filter (\<lambda>d. live_pid k (the (pid_cells k d))) ds \<and>
    (\<forall>d. d \<notin> {d \<in> set ds. \<not> live_pid k (the (pid_cells k d))} \<longrightarrow> pid_cells k' d = pid_cells k d)"
  using assms
proof (induction ds arbitrary: k pre)
  case Nil
  then show ?case by (intro exI [of _ k] exI [of _ "waitQueue (semaphores k (nat i))"]) simp
next
  case (Cons d ds)
  obtain c where c: "pid_cells k d = Some c" using Cons.prems(5) by auto
  have dz: "d \<noteq> 0" using Cons.prems(4) by auto
  obtain a where a: "findProcess c k = Some a" "live_pid k c = (a \<noteq> 0)"
    "(if a = 0 then Some True else do { p \<leftarrow> deref (procs k) a; Some (status p = TERMINATED) }) = Some (a = 0)"
    by (rule gone_iff [OF Cons.prems(1), of c])
  have step: "purge i (d # ds) k = purge i ds (if a = 0 then free_cell d (drop_waiter i d k) else k)"
    using c dz a by (simp add: deref_simps del: if_split)
  show ?case
  proof (cases "a = 0")
    case False
    have "\<exists>k' q. purge i ds k = Some k' \<and> sched_view k' = sched_view k \<and> semManager k' = semManager k \<and>
      semaphores k' = (semaphores k)(nat i := (semaphores k (nat i))\<lparr>waitQueue := q\<rparr>) \<and>
      l_addr q = l_addr (waitQueue (semaphores k (nat i))) \<and>
      l_data q = (pre @ [d]) @ List.filter (\<lambda>d. live_pid k (the (pid_cells k d))) ds \<and>
      (\<forall>d. d \<notin> {d \<in> set ds. \<not> live_pid k (the (pid_cells k d))} \<longrightarrow> pid_cells k' d = pid_cells k d)"
      using Cons.prems by (intro Cons.IH) simp_all
    then obtain k' q where K: "purge i ds k = Some k'" "sched_view k' = sched_view k" "semManager k' = semManager k"
      "semaphores k' = (semaphores k)(nat i := (semaphores k (nat i))\<lparr>waitQueue := q\<rparr>)"
      "l_addr q = l_addr (waitQueue (semaphores k (nat i)))"
      "l_data q = (pre @ [d]) @ List.filter (\<lambda>d. live_pid k (the (pid_cells k d))) ds"
      "\<forall>d. d \<notin> {d \<in> set ds. \<not> live_pid k (the (pid_cells k d))} \<longrightarrow> pid_cells k' d = pid_cells k d" by blast
    then show ?thesis using False step a(2) c by (intro exI [of _ k'] exI [of _ q]) simp
  next
    case True
    note D = drop_waiter_spec [OF dz, of i k]
    obtain q where q: "semaphores (drop_waiter i d k) = (semaphores k)(nat i := (semaphores k (nat i))\<lparr>waitQueue := q\<rparr>)"
      "l_addr q = l_addr (waitQueue (semaphores k (nat i)))" "l_data q = remove1 d (pre @ d # ds)"
      using D(4) Cons.prems(2) by auto
    let ?k = "free_cell d (drop_waiter i d k)"
    have v: "sched_view ?k = sched_view k" using D(1) by simp
    have live: "live_pid ?k = live_pid k" by (rule ext) (simp add: live_pid_def sched_view_D(12) [OF v])
    have cells: "pid_cells ?k x = pid_cells k x" if "x \<in> set ds" for x
      using that Cons.prems(3) D(2) by auto
    have "\<exists>k' q'. purge i ds ?k = Some k' \<and> sched_view k' = sched_view ?k \<and> semManager k' = semManager ?k \<and>
      semaphores k' = (semaphores ?k)(nat i := (semaphores ?k (nat i))\<lparr>waitQueue := q'\<rparr>) \<and>
      l_addr q' = l_addr (waitQueue (semaphores ?k (nat i))) \<and>
      l_data q' = pre @ List.filter (\<lambda>d. live_pid ?k (the (pid_cells ?k d))) ds \<and>
      (\<forall>d. d \<notin> {d \<in> set ds. \<not> live_pid ?k (the (pid_cells ?k d))} \<longrightarrow> pid_cells k' d = pid_cells ?k d)"
    proof (rule Cons.IH)
      show "sched_ok ?k" using Cons.prems(1) sched_view_inv(1) [OF v] by simp
      show "l_data (waitQueue (semaphores ?k (nat i))) = pre @ ds"
        using q(1,3) Cons.prems(3) by (simp add: remove1_append)
      show "set ds \<subseteq> dom (pid_cells ?k)" using D(2) Cons.prems(3,5) by auto
    qed (use Cons.prems in auto)
    then obtain k' q' where K: "purge i ds ?k = Some k'" "sched_view k' = sched_view ?k" "semManager k' = semManager ?k"
      "semaphores k' = (semaphores ?k)(nat i := (semaphores ?k (nat i))\<lparr>waitQueue := q'\<rparr>)"
      "l_addr q' = l_addr (waitQueue (semaphores ?k (nat i)))"
      "l_data q' = pre @ List.filter (\<lambda>d. live_pid ?k (the (pid_cells ?k d))) ds"
      "\<And>d. d \<notin> {d \<in> set ds. \<not> live_pid ?k (the (pid_cells ?k d))} \<Longrightarrow> pid_cells k' d = pid_cells ?k d" by blast
    have f: "List.filter (\<lambda>d. live_pid ?k (the (pid_cells ?k d))) ds = List.filter (\<lambda>d. live_pid k (the (pid_cells k d))) ds"
      using cells live by (intro filter_cong) auto
    have cc: "pid_cells k' x = pid_cells k x" if "x \<notin> {x \<in> set (d # ds). \<not> live_pid k (the (pid_cells k x))}" for x
    proof -
      have "x \<noteq> d" using that True a(2) c by auto
      then have "pid_cells ?k x = pid_cells k x" using D(2) by simp
      moreover from this have "x \<notin> {d \<in> set ds. \<not> live_pid ?k (the (pid_cells ?k d))}" using that live by auto
      ultimately show ?thesis using K(7) [of x] by simp
    qed
    have "semaphores k' = (semaphores k)(nat i := (semaphores k (nat i))\<lparr>waitQueue := q'\<rparr>)" using K(4) q(1) by simp
    moreover have "l_addr q' = l_addr (waitQueue (semaphores k (nat i)))" using K(5) q(1,2) by simp
    moreover have "l_data q' = pre @ List.filter (\<lambda>d. live_pid k (the (pid_cells k d))) (d # ds)"
      using K(6) f True a(2) c by simp
    moreover have "sched_view k' = sched_view k" "semManager k' = semManager k" using K(2,3) v D(3) by simp_all
    moreover have "purge i (d # ds) k = Some k'" using step True K(1) by simp
    ultimately show ?thesis using cc by (intro exI [of _ k'] exI [of _ q'] conjI allI impI) auto
  qed
qed

lemma sem_ok_acquire:
  assumes "sem_ok k i"
  shows "acquire i k = Some (update_sem i (spinlock_update (\<lambda>_. 1)) k)"
  using assms by (simp add: sem_ok_def acquire_def Let_def)

lemma release_simps [simp]:
  "sched_view (release i k) = sched_view k" "pid_cells (release i k) = pid_cells k"
  "semManager (release i k) = semManager k" "k_mm (release i k) = k_mm k"
  "semaphores (release i k) = (semaphores k)(nat i := (semaphores k (nat i))\<lparr>spinlock := 0\<rparr>)"
  by (simp_all add: release_def)

lemma sem_ok_frame:
  assumes "sem_ok k i" and "kernel.more k' = kernel.more (k :: 'a sem_kernel_scheme)"
  shows "sem_ok k' i" and "sem_abs k' i = sem_abs k i"
  using assms by (simp_all add: sem_ok_def sem_abs_def sem_more [OF assms(2)])

lemma setReady_result:
  assumes "sched_ok k" and "findProcess c k = Some a" and "a \<noteq> 0"
  obtains p b k' where "procs k a = Some p" "setReadyProcess c k = Some (b, k')"
    "status p \<noteq> BLOCKED \<longrightarrow> b = 0 \<and> k' = k"
    "status p = BLOCKED \<and> b = 0 \<longrightarrow> procs k' = (procs k)(a \<mapsto> p\<lparr>status := READY\<rparr>) \<and>
       RL k' = RL k @ [a] \<and> BL k' = remove1 a (BL k) \<and> sched_ok k'"
    "b \<noteq> 0 \<longrightarrow> procs k' = procs k \<and> RL k' = RL k \<and> BL k' = remove1 a (BL k)" "PL k' = PL k"
proof -
  from assms(1) obtain p where p: "a \<in> set (PL k)" "procs k a = Some p" "pid p = c"
  proof (cases rule: findProcess_cases [where i = c])
    case none
    with assms(2,3) show ?thesis by simp
  next
    case (found a' p)
    with assms(2) that show ?thesis by simp
  qed
  from assms(1) [unfolded sched_ok_core] have sch: "scheduler k \<noteq> 0" and tab: "table_inv (PL k) (pd k) (processQty k)"
    and core: "core_inv (PL k) k" and cur: "current_inv (PL k) (st k) (pd k) (currentProcess k) (currentPid k)"
    and p0: "procs k 0 = None" by auto
  from sch tab core p(1) p(1) p(2) show ?thesis
  proof (cases rule: setReady_cases)
    case same
    with p show ?thesis by (intro that [of p 0 k]) simp_all
  next
    case (woken k')
    have "sched_ok k'"
    proof -
      have "PL k' = PL k" "scheduler k' = scheduler k" "processQty k' = processQty k" "pd k' = pd k" "currentProcess k' = currentProcess k"
        "currentPid k' = currentPid k" "procs k' 0 = None"
        using woken(3) p0 assms(3) by (auto simp: same_table_def woken(5))
      moreover have "st k' = (st k)(a \<mapsto> READY)" using woken(5) by (auto simp: st_apply)
      moreover have "current_inv (PL k) ((st k)(a \<mapsto> READY)) (pd k) (currentProcess k) (currentPid k)"
        using cur p(1) by (auto simp: current_inv_def)
      ultimately show ?thesis using woken(4) sch tab by (simp add: sched_ok_core)
    qed
    then show ?thesis using p woken by (intro that [of p 0 k']) (simp_all add: same_table_def)
  next
    case (lost k')
    with p show ?thesis by (intro that [of p "- 1" k']) simp_all
  qed
qed

lemma sem_post_lemma:
  fixes k :: "'a sem_kernel_scheme"
  assumes ok: "sem_ok k i" and i: "isValidSemId i = 0" and sok: "sched_ok k"
  obtains (raised) k' where "List.filter (live_pid k) (snd (sem_abs k i)) = []" "sem_post i k = Some (0, k')" "sem_ok k' i"
      "sem_abs k' i = asem_post (live_pid k) (sem_abs k i)" "sched_view k' = sched_view k"
  | (handed) c cs a and k1 :: "'a sem_kernel_scheme" and b k2 k' where "List.filter (live_pid k) (snd (sem_abs k i)) = c # cs" "sem_post i k = Some (0, k')"
      "sem_ok k' i" "sem_abs k' i = asem_post (live_pid k) (sem_abs k i)" "findProcess c k = Some a" "a \<noteq> 0"
      "sched_view k1 = sched_view k" "setReadyProcess c k1 = Some (b, k2)" "sched_view k' = sched_view k2"
proof -
  let ?s = "semaphores k (nat i)"
  let ?ds = "l_data (waitQueue ?s)"
  let ?k1 = "update_sem i (spinlock_update (\<lambda>_. 1)) k"
  have o: "semManager k \<noteq> 0" "active ?s \<noteq> 0" "spinlock ?s = 0" "l_addr (waitQueue ?s) \<noteq> 0" "distinct ?ds" "0 \<notin> set ?ds"
    "set ?ds \<subseteq> dom (pid_cells k)" "counter ?s = 0 \<or> ?ds = []" using ok by (auto simp: sem_ok_def Let_def)
  have v1: "sched_view ?k1 = sched_view k" by simp
  have live: "live_pid ?k1 = live_pid k" by (rule ext) (simp add: live_pid_def sched_view_D(12) [OF v1])
  let ?live = "\<lambda>d. live_pid k (the (pid_cells k d))"
  obtain k2 q where K: "purge i ?ds ?k1 = Some k2" "sched_view k2 = sched_view k" "semManager k2 = semManager k"
    "semaphores k2 = (semaphores k)(nat i := ?s\<lparr>spinlock := 1, waitQueue := q\<rparr>)" "l_addr q \<noteq> 0"
    "l_data q = List.filter ?live ?ds"
    "\<And>d. d \<notin> {d \<in> set ?ds. \<not> ?live d} \<Longrightarrow> pid_cells k2 d = pid_cells k d"
    using purge_spec [of ?k1 i "[]" ?ds] o sok sched_view_inv(1) [OF v1] live by auto
  have qs: "distinct (l_data q)" "0 \<notin> set (l_data q)" "set (l_data q) \<subseteq> dom (pid_cells k2)"
    using K(6,7) o(5,6,7) by (auto simp: domIff)
  have w: "snd (sem_abs k i) = map (\<lambda>d. the (pid_cells k d)) ?ds" by (simp add: sem_abs_def)
  have flt: "List.filter (live_pid k) (snd (sem_abs k i)) = map (\<lambda>d. the (pid_cells k d)) (l_data q)"
    unfolding w K(6) by (simp add: filter_map comp_def)
  show ?thesis
  proof (cases "l_items q")
    case Nil
    let ?k' = "release i (update_sem i (counter_update (\<lambda>c. c + 1)) k2)"
    have post: "sem_post i k = Some (0, ?k')"
      using i K Nil sem_ok_acquire [OF ok] by (simp add: sem_post_def Let_def)
    show ?thesis
      by (rule raised [of ?k']) (use post flt Nil K o in \<open>auto simp: sem_ok_def sem_abs_def asem_post_def Let_def\<close>)
  next
    case (Cons x xs)
    obtain n d where x: "x = (n, d)" by force
    obtain d' q' m where f: "seq_first q (k_mm k2) = (d', q', m)" by (rule prod_cases3)
    from seq_first_data [OF f qs(2)] Cons have F: "d' \<noteq> 0" "l_data q = d' # l_data q'" by auto
    have fa: "l_addr q' = l_addr q" by (rule seq_first_addr [OF f])
    have sq: "set (l_data q) = {d \<in> set ?ds. ?live d}" unfolding K(6) by (rule set_filter)
    have "d' \<in> set (l_data q)" "set (l_data q') \<subseteq> set (l_data q)" "distinct (d' # l_data q')"
      unfolding F(2) using qs(1) F(2) by (simp, force, metis)
    then have dd: "d' \<notin> set (l_data q')" "d' \<in> set ?ds" "?live d'" "\<And>y. y \<in> set (l_data q') \<Longrightarrow> y \<in> set ?ds \<and> ?live y \<and> y \<noteq> d'"
      unfolding sq by (simp_all del: set_map) blast
    let ?k3 = "drop_waiter i d' (update_sem i (waitQueue_update (\<lambda>_. q')) (k2\<lparr>k_mm := m\<rparr>))"
    note D = drop_waiter_spec [OF F(1), of i "update_sem i (waitQueue_update (\<lambda>_. q')) (k2\<lparr>k_mm := m\<rparr>)"]
    obtain q3 where q3: "semaphores ?k3 = (semaphores k)(nat i := ?s\<lparr>spinlock := 1, waitQueue := q3\<rparr>)" "l_addr q3 = l_addr q"
      "l_data q3 = l_data q'"
      using D(4) K(4) fa dd(1) by (auto simp: remove1_idem)
    have v3: "sched_view ?k3 = sched_view k" using D(1) K(2) by simp
    have c3: "pid_cells ?k3 = pid_cells k2" using D(2) by simp
    have d2: "pid_cells k2 d' = pid_cells k d'" using K(7) dd(3) by simp
    obtain c where c: "pid_cells k d' = Some c" using o(7) dd(2) by auto
    let ?k4 = "free_cell d' ?k3"
    have v4: "sched_view ?k4 = sched_view k" using v3 by simp
    obtain a where a: "findProcess c k = Some a" "a \<noteq> 0"
      using gone_iff [OF sok, of c] dd(3) c by (metis option.sel live_pid_def)
    have "findProcess c ?k4 = Some a" using a(1) sched_view_D(12) [OF v4] by simp
    then obtain p b k5 where r: "setReadyProcess c ?k4 = Some (b, k5)"
      using setReady_result [of ?k4 c a] sok sched_view_inv(1) [OF v4] a(2) by metis
    note fr = sem_more [OF more_setReadyProcess [OF r]]
    let ?k' = "release i k5"
    have post: "sem_post i k = Some (0, ?k')"
      using i K Cons sem_ok_acquire [OF ok] f F(1) r c3 d2 c by (simp add: sem_post_def Let_def deref_simps)
    have cells: "pid_cells k5 y = pid_cells k y" if "y \<in> set (l_data q')" for y
    proof -
      have "y \<noteq> d'" "?live y" using dd(4) [OF that] by blast+
      then show ?thesis using fr(3) c3 K(7) by simp
    qed
    have sems: "semaphores ?k' = (semaphores k)(nat i := ?s\<lparr>waitQueue := q3\<rparr>)"
      using fr(1) q3(1) o(3) by (cases ?s) simp
    have flt': "List.filter (live_pid k) (snd (sem_abs k i)) = c # map (\<lambda>d. the (pid_cells k d)) (l_data q')"
      using flt F(2) c by simp
    have abs': "sem_abs ?k' i = (counter ?s, map (\<lambda>d. the (pid_cells k d)) (l_data q'))"
      using sems q3(3) cells by (simp add: sem_abs_def)
    have "counter ?s = 0" using o(8) dd(2) by auto
    moreover have "set (l_data q') \<subseteq> dom (pid_cells k5)"
      using cells dd(4) o(7) unfolding dom_def subset_iff mem_Collect_eq by metis
    moreover have "distinct (l_data q')" "0 \<notin> set (l_data q')" using qs(1,2) unfolding F(2) by simp_all
    ultimately have ok': "sem_ok ?k' i"
      using sems o(1-4) q3(2,3) K(3,5) fr(2) D(3) by (simp add: sem_ok_def Let_def del: set_map)
    show ?thesis
      by (rule handed [OF flt' post ok' _ a v4 r]) (simp_all add: abs' asem_post_def flt', simp add: sem_abs_def)
  qed
qed


lemma isValid_cases: "isValidSemId i = 0 \<or> isValidSemId i = - 1"
  by (simp add: isValidSemId_def)

text \<open>The memory \<open>sem_wait\<close> needs: the cell, and the node of the semaphore's queue.\<close>

definition wait_cell :: "'a kernel_scheme \<Rightarrow> addr" where
  "wait_cell k = fst (mm_alloc sizeof_pid (k_mm k))"

definition wait_node :: "'a sem_kernel_scheme \<Rightarrow> int \<Rightarrow> addr" where
  "wait_node k i = fst (seq_add (wait_cell k) (waitQueue (semaphores k (nat i))) (snd (mm_alloc sizeof_pid (k_mm k))))"

lemma sem_wait_lemma:
  assumes ok: "sem_ok k i" and i: "isValidSemId i = 0" and sch: "scheduler k \<noteq> 0" and fresh: "pid_cells k (wait_cell k) = None"
  obtains (passed) k' where "fst (sem_abs k i) \<noteq> 0" "sem_wait i r k = Some (0, k')" "sem_ok k' i"
      "sem_abs k' i = asem_wait (currentPid k) (sem_abs k i)" "sched_view k' = sched_view k"
  | (failed) k' where "fst (sem_abs k i) = 0" "wait_cell k = 0" "sem_wait i r k = Some (- 1, k')" "sem_ok k' i"
      "sem_abs k' i = sem_abs k i" "sched_view k' = sched_view k"
  | (waits) k1 where "fst (sem_abs k i) = 0" "wait_cell k \<noteq> 0" "sched_view k1 = sched_view k" "sem_ok k1 i"
      "sem_abs k1 i = (if wait_node k i = 0 then sem_abs k i else asem_wait (currentPid k) (sem_abs k i))"
      "sem_wait i r k = map_option (\<lambda>(b, k4). (0, k4)) (blockProcess (currentPid k) r k1)"
proof -
  let ?s = "semaphores k (nat i)"
  let ?ds = "l_data (waitQueue ?s)"
  let ?k1 = "update_sem i (spinlock_update (\<lambda>_. 1)) k"
  have o: "semManager k \<noteq> 0" "active ?s \<noteq> 0" "spinlock ?s = 0" "l_addr (waitQueue ?s) \<noteq> 0" "distinct ?ds" "0 \<notin> set ?ds"
    "set ?ds \<subseteq> dom (pid_cells k)" "counter ?s = 0 \<or> ?ds = []" using ok by (auto simp: sem_ok_def Let_def)
  have fst_abs: "fst (sem_abs k i) = counter ?s" by (simp add: sem_abs_def)
  note acq = sem_ok_acquire [OF ok]
  have v1: "sched_view ?k1 = sched_view k" by simp
  have pid: "getPid ?k1 = Some (currentPid k)" using sch sched_view_D(5,8) [OF v1] by (simp add: getPid_def)
  obtain p m where al: "mm_alloc sizeof_pid (k_mm k) = (p, m)" by force
  have p: "wait_cell k = p" by (simp add: wait_cell_def al)
  show ?thesis
  proof (cases "counter ?s = 0")
    case False
    let ?k' = "release i (update_sem i (counter_update (\<lambda>c. c - 1)) ?k1)"
    have w: "sem_wait i r k = Some (0, ?k')" using i acq False by (simp add: sem_wait_def)
    show ?thesis
      by (rule passed [of ?k']) (use False w o in \<open>auto simp: sem_ok_def sem_abs_def asem_wait_def Let_def\<close>)
  next
    case zero: True
    show ?thesis
    proof (cases "p = 0")
      case True
      let ?k' = "release i (?k1\<lparr>k_mm := m\<rparr>)"
      have w: "sem_wait i r k = Some (- 1, ?k')" using i acq zero True pid al by (simp add: sem_wait_def)
      show ?thesis
        by (rule failed [of ?k']) (use zero True w o p in \<open>auto simp: sem_ok_def sem_abs_def Let_def\<close>)
    next
      case False
      obtain n q m' where ad: "seq_add p (waitQueue ?s) m = (n, q, m')" by (rule prod_cases3)
      have n: "wait_node k i = n" by (simp add: wait_node_def p al ad)
      let ?k2 = "?k1\<lparr>k_mm := m, pid_cells := (pid_cells k)(p \<mapsto> currentPid k)\<rparr>"
      let ?k3 = "release i (update_sem i (waitQueue_update (\<lambda>_. q)) (?k2\<lparr>k_mm := m'\<rparr>))"
      have w: "sem_wait i r k = map_option (\<lambda>(b, k4). (0, k4)) (blockProcess (currentPid k) r ?k3)"
        using i acq zero False pid al ad
        by (cases "blockProcess (currentPid k) r ?k3") (auto simp: sem_wait_def Let_def split: prod.splits)
      have pn: "p \<notin> set ?ds" using o(7) fresh p by auto
      have data: "l_data q = (if n = 0 then ?ds else ?ds @ [p])" "l_addr q \<noteq> 0"
        using seq_add_data [OF ad] seq_add_addr [OF ad] o(4) by simp_all
      have old: "map (\<lambda>d. the (if d = p then Some (currentPid k) else pid_cells k d)) ?ds = map (\<lambda>d. the (pid_cells k d)) ?ds"
        using pn by (intro map_cong) auto
      have abs3: "sem_abs ?k3 i = (if n = 0 then sem_abs k i else asem_wait (currentPid k) (sem_abs k i))"
        using data zero old by (simp add: sem_abs_def asem_wait_def comp_def)
      have qs: "distinct (l_data q)" "0 \<notin> set (l_data q)" "set (l_data q) \<subseteq> dom ((pid_cells k)(p \<mapsto> currentPid k))"
        unfolding data(1) using o(5-7) False pn by auto
      have ok3: "sem_ok ?k3 i"
        using o(1-4) data(2) zero qs by (simp add: sem_ok_def Let_def del: set_map)
      show ?thesis
        by (rule waits [of ?k3]) (use zero False p n w abs3 ok3 fst_abs in simp_all)
    qed
  qed
qed


section \<open>Properties\<close>

text \<open>For the witnesses: the scheduler's demo kernel with a semaphore 5 of value 0 that process 3 waits for,
  and a semaphore 6 of value 1.\<close>

definition demo_sems :: sem_kernel where
  "demo_sems = kernel.extend demo_kernel (sem_kernel.fields 500
     ((\<lambda>i. clear_sem)(5 := \<lparr>waitQueue = \<lparr>l_addr = 40, l_items = [(41, 42)]\<rparr>, counter = 0, spinlock = 0, active = 1\<rparr>,
        6 := \<lparr>waitQueue = \<lparr>l_addr = 43, l_items = []\<rparr>, counter = 1, spinlock = 0, active = 1\<rparr>))
     [42 \<mapsto> 3])"

lemma demo_sems_view: "sched_view demo_sems = sched_view demo_kernel"
  by (simp add: sched_view_def demo_sems_def demo_kernel_def sem_kernel.defs kernel.defs)

lemma demo_sems_fields:
  "semManager demo_sems = 500" "pid_cells demo_sems = [42 \<mapsto> 3]" "k_mm demo_sems = small_mm"
  "semaphores demo_sems 5 = \<lparr>waitQueue = \<lparr>l_addr = 40, l_items = [(41, 42)]\<rparr>, counter = 0, spinlock = 0, active = 1\<rparr>"
  "semaphores demo_sems 6 = \<lparr>waitQueue = \<lparr>l_addr = 43, l_items = []\<rparr>, counter = 1, spinlock = 0, active = 1\<rparr>"
  by (simp_all add: demo_sems_def demo_kernel_def sem_kernel.defs kernel.defs)

lemma demo_sems_ok: "sem_ok demo_sems 5" "sem_ok demo_sems 6" "isValidSemId 5 = 0" "isValidSemId 6 = 0"
  by (simp_all add: sem_ok_def Let_def demo_sems_fields isValidSemId_def NUM_SEMS_def)

lemma demo_sems_inv: "kernel_inv demo_sems"
  using sched_view_inv(3) [of demo_sems demo_kernel] by (simp add: demo_sems_view kernel_inv_def demo_ok demo_idle demo_lists)

text \<open>
  C12. \<open>sem_post\<close> does what the abstract post does: waiters that are gone are forgotten, the first one
  that is left gets the unit without the value changing, and without a waiter the value grows.
  The process that gets the unit leaves the blocked queue for the tail of the ready queue, unless the
  ready queue has no memory for it: then it is on neither. Nothing else of the scheduler changes.
\<close>

theorem sem_post_refines:
  assumes "sem_ok k i" and "isValidSemId i = 0" and "sched_ok k"
  shows "\<exists>k'. sem_post i k = Some (0, k') \<and> sem_ok k' i \<and> sem_abs k' i = asem_post (live_pid k) (sem_abs k i) \<and>
    (case List.filter (live_pid k) (snd (sem_abs k i)) of
       [] \<Rightarrow> sched_view k' = sched_view k
     | c # cs \<Rightarrow> \<exists>a p. findProcess c k = Some a \<and> procs k a = Some p \<and> PL k' = PL k \<and>
         (if status p = BLOCKED then BL k' = remove1 a (BL k) \<and>
            (procs k' = (procs k)(a \<mapsto> p\<lparr>status := READY\<rparr>) \<and> RL k' = RL k @ [a] \<and> sched_ok k' \<or> procs k' = procs k \<and> RL k' = RL k)
          else sched_view k' = sched_view k))"
proof (rule sem_post_lemma [OF assms])
  fix k'
  assume "List.filter (live_pid k) (snd (sem_abs k i)) = []" "sem_post i k = Some (0, k')" "sem_ok k' i"
    "sem_abs k' i = asem_post (live_pid k) (sem_abs k i)" "sched_view k' = sched_view k"
  then show ?thesis by (intro exI [of _ k']) simp
next
  fix c cs a k1 b k2 k'
  assume h: "List.filter (live_pid k) (snd (sem_abs k i)) = c # cs" "sem_post i k = Some (0, k')"
      "sem_ok k' i" "sem_abs k' i = asem_post (live_pid k) (sem_abs k i)" "findProcess c k = Some a" "a \<noteq> 0"
      "sched_view (k1 :: 'a sem_kernel_scheme) = sched_view k" "setReadyProcess c k1 = Some (b, k2)" "sched_view k' = sched_view k2"
  note v1 = sched_view_D [OF h(7)] and v' = sched_view_D [OF h(9)]
  have f1: "sched_ok k1" "findProcess c k1 = Some a"
    using assms(3) h(5) sched_view_inv(1) [OF h(7)] v1(12) by simp_all
  obtain p b' k3 where R': "procs k1 a = Some p" "setReadyProcess c k1 = Some (b', k3)" "status p \<noteq> BLOCKED \<longrightarrow> b' = 0 \<and> k3 = k1"
    "status p = BLOCKED \<and> b' = 0 \<longrightarrow> procs k3 = (procs k1)(a \<mapsto> p\<lparr>status := READY\<rparr>) \<and>
       RL k3 = RL k1 @ [a] \<and> BL k3 = remove1 a (BL k1) \<and> sched_ok k3"
    "b' \<noteq> 0 \<longrightarrow> procs k3 = procs k1 \<and> RL k3 = RL k1 \<and> BL k3 = remove1 a (BL k1)" "PL k3 = PL k1"
    by (rule setReady_result [OF f1 h(6)]) (rule that; assumption)
  have k3: "b' = b" "k3 = k2" using R'(2) h(8) by simp_all
  note R = R'(1) R'(3-6) [unfolded k3]
  have "if status p = BLOCKED then BL k' = remove1 a (BL k) \<and>
      (procs k' = (procs k)(a \<mapsto> p\<lparr>status := READY\<rparr>) \<and> RL k' = RL k @ [a] \<and> sched_ok k' \<or> procs k' = procs k \<and> RL k' = RL k)
    else sched_view k' = sched_view k"
  proof (cases "status p = BLOCKED")
    case False
    then show ?thesis using R(2) h(7,9) by simp
  next
    case True
    then show ?thesis using R(3,4) v1(1-4) v'(1-4) sched_view_inv(1) [OF h(9)] by (cases "b = 0") simp_all
  qed
  then show ?thesis using h R(1,5) v1 v' by (intro exI [of _ k']) simp
qed

theorem sem_post_refines_witness:
  "\<exists>k'. sem_post 5 demo_sems = Some (0, k') \<and> sem_abs k' 5 = (0, []) \<and> BL k' = []"
proof -
  note v = sched_view_D [OF demo_sems_view]
  have f: "findProcess 3 demo_sems = Some 400"
    unfolding v(12) by (simp add: findProcess_def demo_kernel_def deref_simps demo_pcb_def)
  then have l: "live_pid demo_sems 3" by (simp add: live_pid_def)
  have a: "sem_abs demo_sems 5 = (0, [3])" by (simp add: sem_abs_def demo_sems_fields)
  have "sched_ok demo_sems" using demo_sems_inv by (simp add: kernel_inv_def)
  from sem_post_refines [OF demo_sems_ok(1,3) this] show ?thesis
    by (auto simp: a l f v(1,4) demo_procs demo_lists asem_post_def demo_pcb_def)
qed




text \<open>A run of the kernel, counting the units of semaphore i that were granted (to waits that found one and
  to waiters a post woke) and posted. Any other step leaves the extension of the state alone.\<close>

inductive sem_run :: "int \<Rightarrow> nat \<Rightarrow> nat \<Rightarrow> 'a sem_kernel_scheme \<Rightarrow> 'a sem_kernel_scheme \<Rightarrow> bool" for i where
  start: "sem_run i 0 0 k k"
| granted: "sem_run i e n k k1 \<Longrightarrow> fst (sem_abs k1 i) \<noteq> 0 \<Longrightarrow> scheduler k1 \<noteq> 0 \<Longrightarrow> pid_cells k1 (wait_cell k1) = None \<Longrightarrow>
    sem_wait i r k1 = Some (v, k2) \<Longrightarrow> sem_run i (e + 1) n k k2"
| queued: "sem_run i e n k k1 \<Longrightarrow> fst (sem_abs k1 i) = 0 \<Longrightarrow> scheduler k1 \<noteq> 0 \<Longrightarrow> pid_cells k1 (wait_cell k1) = None \<Longrightarrow>
    sem_wait i r k1 = Some (v, k2) \<Longrightarrow> sem_run i e n k k2"
| raised: "sem_run i e n k k1 \<Longrightarrow> List.filter (live_pid k1) (snd (sem_abs k1 i)) = [] \<Longrightarrow> sched_ok k1 \<Longrightarrow>
    sem_post i k1 = Some (v, k2) \<Longrightarrow> sem_run i e (n + 1) k k2"
| handed: "sem_run i e n k k1 \<Longrightarrow> List.filter (live_pid k1) (snd (sem_abs k1 i)) \<noteq> [] \<Longrightarrow> sched_ok k1 \<Longrightarrow>
    sem_post i k1 = Some (v, k2) \<Longrightarrow> sem_run i (e + 1) (n + 1) k k2"
| other: "sem_run i e n k k1 \<Longrightarrow> kernel.more k2 = kernel.more k1 \<Longrightarrow> sem_run i e n k k2"

lemma sem_wait_step:
  assumes "sem_ok k i" and "isValidSemId i = 0" and "scheduler k \<noteq> 0" and "pid_cells k (wait_cell k) = None"
    and "sem_wait i r k = Some (v, k')"
  shows "sem_ok k' i" and "fst (sem_abs k' i) = (if fst (sem_abs k i) \<noteq> 0 then fst (sem_abs k i) - 1 else 0)"
proof -
  have "sem_ok k' i \<and> fst (sem_abs k' i) = (if fst (sem_abs k i) \<noteq> 0 then fst (sem_abs k i) - 1 else 0)"
    using assms(1-4)
  proof (cases rule: sem_wait_lemma [where r = r])
    case (passed k1)
    then show ?thesis using assms(5) by (simp add: asem_wait_def)
  next
    case (failed k1)
    then show ?thesis using assms(5) by simp
  next
    case (waits k1)
    then obtain b where b: "blockProcess (currentPid k) r k1 = Some (b, k')"
      using assms(5) by (cases "blockProcess (currentPid k) r k1") auto
    from sem_ok_frame [OF waits(4) more_blockProcess [OF b]] waits show ?thesis by (auto simp: asem_wait_def)
  qed
  then show "sem_ok k' i" and "fst (sem_abs k' i) = (if fst (sem_abs k i) \<noteq> 0 then fst (sem_abs k i) - 1 else 0)" by blast+
qed

lemma sem_post_step:
  assumes "sem_ok k i" and "isValidSemId i = 0" and "sched_ok k" and "sem_post i k = Some (v, k')"
  shows "sem_ok k' i" and "fst (sem_abs k' i) = (if List.filter (live_pid k) (snd (sem_abs k i)) = [] then fst (sem_abs k i) + 1
    else fst (sem_abs k i))"
proof -
  have "sem_ok k' i \<and> sem_abs k' i = asem_post (live_pid k) (sem_abs k i)"
    by (rule sem_post_lemma [OF assms(1-3)]) (use assms(4) in simp_all)
  then show "sem_ok k' i" and "fst (sem_abs k' i) = (if List.filter (live_pid k) (snd (sem_abs k i)) = [] then fst (sem_abs k i) + 1
    else fst (sem_abs k i))" by (simp_all add: asem_post_def split: list.splits)
qed



text \<open>
  A destroyed semaphore is not refused: a process that waits for it after \<open>sem_destroy\<close> (with
  memory for its pid) gets 0 from \<open>sem_wait\<close> and is BLOCKED in no semaphore's queue (or goes on
  without a unit when the blocked queue has no memory), and a later \<open>sem_post\<close> succeeds and wakes nobody.
\<close>

theorem destroyed_semaphore_blocks:
  assumes "sem_destroy i k0 = Some (0, k)" and "kernel_inv k" and "wait_cell k \<noteq> 0"
    and "procs k (currentProcess k) = Some p" and "status p = RUNNING" and "pid p \<noteq> IDLE_PID"
  shows "\<exists>k' k''. sem_wait i r k = Some (0, k') \<and> waitQueue (semaphores k' (nat i)) = null_list \<and>
    (procs k' = procs k \<or> st k' (currentProcess k) = Some BLOCKED \<and> BL k' = BL k @ [currentProcess k]) \<and>
    sem_post i k' = Some (0, k'') \<and> sched_view k'' = sched_view k'"
proof -
  let ?s = "semaphores k (nat i)"
  have d: "isValidSemId i = 0" "semManager k \<noteq> 0" "?s = clear_sem"
    using assms(1) isValid_cases [of i] by (auto simp: sem_destroy_def split: if_splits)
  have acq: "acquire i k = Some (update_sem i (spinlock_update (\<lambda>_. 1)) k)"
    using d by (simp add: acquire_def clear_sem_def)
  let ?k1 = "update_sem i (spinlock_update (\<lambda>_. 1)) k"
  have v1: "sched_view ?k1 = sched_view k" by simp
  have sok: "sched_ok k" using assms(2) by (simp add: kernel_inv_def)
  have cp: "currentPid k = pid p"
    using sched_okD(10) [OF sok] assms(4) sok by (auto simp: current_inv_def pd_Some sched_ok_def)
  have pid: "getPid ?k1 = Some (pid p)"
    using sched_okD(1) [OF sok] sched_view_D(5,8) [OF v1] cp by (simp add: getPid_def)
  obtain c m where al: "mm_alloc sizeof_pid (k_mm k) = (c, m)" by force
  have c: "c \<noteq> 0" using assms(3) by (simp add: wait_cell_def al)
  let ?k3 = "release i (update_sem i (waitQueue_update (\<lambda>_. null_list))
    (?k1\<lparr>k_mm := m, pid_cells := (pid_cells k)(c \<mapsto> pid p), k_mm := m\<rparr>))"
  have s3: "semaphores ?k3 (nat i) = clear_sem" "sched_view ?k3 = sched_view k" "semManager ?k3 \<noteq> 0"
    using d by (simp_all add: clear_sem_def)
  note v3 = sched_view_D [OF s3(2)]
  have run: "kernel_inv ?k3" "procs ?k3 (currentProcess ?k3) = Some p"
    using assms(2,4) sched_view_inv(3) [OF s3(2)] v3 by simp_all
  from block_running [OF run assms(5,6), of r] obtain b k' where B: "blockProcess (pid p) r ?k3 = Some (b, k')"
    "procs k' = procs ?k3 \<and> PL k' = PL ?k3 \<and> RL k' = RL ?k3 \<and> BL k' = BL ?k3 \<or>
     kernel_inv k' \<and> BL k' = BL ?k3 @ [currentProcess ?k3] \<and> st k' (currentProcess ?k3) = Some BLOCKED" by metis
  note fr = sem_more [OF more_blockProcess [OF B(1)]]
  have wait: "sem_wait i r k = Some (0, k')"
    using d acq pid al c B(1) by (simp add: sem_wait_def clear_sem_def Let_def seq_add_def)
  have s': "semaphores k' (nat i) = clear_sem" "semManager k' \<noteq> 0" using fr s3(1,3) by simp_all
  have "\<exists>k''. sem_post i k' = Some (0, k'') \<and> sched_view k'' = sched_view k'"
    using d(1) s' by (simp add: sem_post_def acquire_def clear_sem_def Let_def)
  moreover have "procs k' = procs k \<or> st k' (currentProcess k) = Some BLOCKED \<and> BL k' = BL k @ [currentProcess k]"
    using B(2) v3 by auto
  ultimately show ?thesis using wait s'(1) by (auto simp: clear_sem_def)
qed

theorem destroyed_semaphore_blocks_witness:
  "\<exists>k k' k''. sem_destroy 6 (demo_sems\<lparr>k_mm := BitmapMM small_bitmap\<rparr>) = Some (0, k) \<and> sem_wait 6 9 k = Some (0, k') \<and>
     sem_post 6 k' = Some (0, k'') \<and> sched_view k'' = sched_view k'"
proof -
  let ?old = "demo_sems\<lparr>k_mm := BitmapMM small_bitmap\<rparr>"
  let ?k = "update_sem 6 (\<lambda>_. clear_sem) ?old"
  have d: "sem_destroy 6 ?old = Some (0, ?k)"
    by (simp add: sem_destroy_def demo_sems_ok demo_sems_fields seq_free_def small_bitmap_free)
  have v: "sched_view ?k = sched_view demo_sems" by simp
  note w = sched_view_D [OF v] and w0 = sched_view_D [OF demo_sems_view]
  have inv: "kernel_inv ?k" using demo_sems_inv sched_view_inv(3) [OF v] by simp
  have p: "procs ?k (currentProcess ?k) = Some (demo_pcb 1 RUNNING null_list)"
    by (simp add: w w0 demo_lists demo_procs)
  have s: "status (demo_pcb 1 RUNNING null_list) = RUNNING" "pid (demo_pcb 1 RUNNING null_list) \<noteq> IDLE_PID"
    by (simp_all add: demo_pcb_def IDLE_PID_def)
  have c: "wait_cell ?k \<noteq> 0"
    by (simp add: wait_cell_def bitmap_alloc_def small_bitmap_def POW2_def sub64_def add64_def alloc_scan.simps
      fill_range.simps Let_def sizeof_pid_def)
  from destroyed_semaphore_blocks [OF d inv c p s, of 9] d show ?thesis by blast
qed

end
