(* ===== verification/Pipes.thy ===== *)
theory Pipes
  imports Semaphores Lib
begin

text \<open>
  \<open>Kernel/utils/pipes/pipes.c\<close>: bounded byte channels, a ring buffer with a semaphore for the bytes, one for the
  free places and a mutex. An operation that may block is a machine: its local variables and a program
  point, with one step from one \<open>sem_wait\<close> to the next. Between two steps the kernel may run
  anything, in particular steps of other readers and writers of the pipe.
\<close>

definition MAX_PIPES :: nat where "MAX_PIPES = 16"
definition PIPE_BUFFER_SIZE :: nat where "PIPE_BUFFER_SIZE = 512"

record pipe =
  buffer :: "nat \<Rightarrow> byte"
  readIdx :: nat
  writeIdx :: nat
  count :: nat
  semReaders :: int
  semWriters :: int
  mutex :: int
  readers :: int
  writers :: int
  isOpen :: int

record pipe_kernel = sem_kernel +
  pipes :: "nat \<Rightarrow> pipe"
  next_pipe_id :: int
  next_sem_id :: int

section \<open>Operations that do not block\<close>

definition update_pipe :: "nat \<Rightarrow> (pipe \<Rightarrow> pipe) \<Rightarrow> 'a pipe_kernel_scheme \<Rightarrow> 'a pipe_kernel_scheme" where
  "update_pipe i f k = k\<lparr>pipes := (pipes k)(i := f (pipes k i))\<rparr>"

definition initializePipeManager :: "'a pipe_kernel_scheme \<Rightarrow> 'a pipe_kernel_scheme" where
  "initializePipeManager k = k\<lparr>next_pipe_id := 0,
     pipes := (\<lambda>i. if i < MAX_PIPES
       then (pipes k i)\<lparr>isOpen := 0, readIdx := 0, writeIdx := 0, count := 0, readers := 0, writers := 0,
                        semReaders := - 1, semWriters := - 1, mutex := - 1\<rparr>
       else pipes k i)\<rparr>"

definition createPipe :: "'a pipe_kernel_scheme \<Rightarrow> (int \<times> 'a pipe_kernel_scheme) option" where
  "createPipe k =
     (case List.find (\<lambda>i. isOpen (pipes k i) = 0) [0..<MAX_PIPES] of
        None \<Rightarrow> Some (- 1, k)
      | Some i \<Rightarrow>
          let s = next_sem_id k;
              k1 = update_pipe i (\<lambda>p. p\<lparr>readIdx := 0, writeIdx := 0, count := 0, readers := 1, writers := 1,
                     buffer := (\<lambda>j. if j < PIPE_BUFFER_SIZE then 0 else buffer p j), isOpen := 1,
                     semReaders := s, semWriters := s + 1, mutex := s + 2\<rparr>) (k\<lparr>next_sem_id := s + 3\<rparr>) in
          do {
            (a, k2) \<leftarrow> sem_create s 0 k1;
            if a < 0 then Some (- 1, k2)
            else do {
              (b, k3) \<leftarrow> sem_create (s + 1) (of_nat PIPE_BUFFER_SIZE) k2;
              if b < 0 then Some (- 1, k3)
              else do {
                (c, k4) \<leftarrow> sem_create (s + 2) 1 k3;
                if c < 0 then Some (- 1, k4) else Some (int i + 3, k4)
              }
            }
          })"

definition validatePipeId :: "int \<Rightarrow> 'a pipe_kernel_scheme \<Rightarrow> int" where
  "validatePipeId i k =
     (if i < 3 then - 1
      else if i > int MAX_PIPES + 2 then - 1
      else if isOpen (pipes k (nat (i - 3))) = 0 then - 1
      else i - 3)"

section \<open>Reading and writing\<close>

text \<open>Program points: before the wait for a unit (the head of the loop), before the wait for the mutex, in the
  critical section, returned.\<close>

datatype pipe_pc = WaitUnit | WaitMutex | Critical | Returned int

record transfer =
  t_pipe :: nat
  t_size :: int
  t_i :: nat
  t_bytes :: nat
  t_buffer :: "nat \<Rightarrow> byte"
  t_pc :: pipe_pc

text \<open>The checks both operations begin with; \<open>null\<close> says that the caller's buffer is \<open>NULL\<close>.\<close>

definition start_transfer :: "int \<Rightarrow> bool \<Rightarrow> (nat \<Rightarrow> byte) \<Rightarrow> int \<Rightarrow> 'a pipe_kernel_scheme \<Rightarrow> transfer" where
  "start_transfer i null buf sz k =
     \<lparr>t_pipe = nat (validatePipeId i k), t_size = sz, t_i = 0, t_bytes = 0, t_buffer = buf,
      t_pc = (if validatePipeId i k = - 1 then Returned (- 1) else if null \<or> sz \<le> 0 then Returned (- 1) else WaitUnit)\<rparr>"

text \<open>The ring buffer: a byte out at \<open>readIdx\<close>, a byte in at \<open>writeIdx\<close>.\<close>

definition take_byte :: "pipe \<Rightarrow> byte \<times> pipe" where
  "take_byte p = (buffer p (readIdx p), p\<lparr>readIdx := (readIdx p + 1) mod PIPE_BUFFER_SIZE, count := count p - 1\<rparr>)"

definition put_byte :: "byte \<Rightarrow> pipe \<Rightarrow> pipe" where
  "put_byte b p = p\<lparr>buffer := (buffer p)(writeIdx p := b), writeIdx := (writeIdx p + 1) mod PIPE_BUFFER_SIZE,
     count := count p + 1\<rparr>"

definition readPipe_step :: "nat \<Rightarrow> transfer \<Rightarrow> 'a pipe_kernel_scheme \<Rightarrow> (transfer \<times> 'a pipe_kernel_scheme) option" where
  "readPipe_step r t k = (let p = pipes k (t_pipe t) in
     case t_pc t of
       WaitUnit \<Rightarrow>
         if int (t_i t) \<ge> t_size t then Some (t\<lparr>t_pc := Returned (int (t_bytes t))\<rparr>, k)
         else do { (v, k1) \<leftarrow> sem_wait (semReaders p) r k; Some (t\<lparr>t_pc := WaitMutex\<rparr>, k1) }
     | WaitMutex \<Rightarrow> do { (v, k1) \<leftarrow> sem_wait (mutex p) r k; Some (t\<lparr>t_pc := Critical\<rparr>, k1) }
     | Critical \<Rightarrow>
         if count p = 0 \<and> writers p = 0 then do {
           (v, k1) \<leftarrow> sem_post (mutex p) k;
           Some (t\<lparr>t_pc := Returned (if t_bytes t > 0 then int (t_bytes t) else - 1)\<rparr>, k1)
         }
         else if count p > 0 then do {
           let (b, p') = take_byte p;
           let t1 = t\<lparr>t_buffer := (t_buffer t)(t_i t := b), t_bytes := t_bytes t + 1\<rparr>;
           (v, k1) \<leftarrow> sem_post (mutex p) (update_pipe (t_pipe t) (\<lambda>_. p') k);
           (w, k2) \<leftarrow> sem_post (semWriters p) k1;
           if writers p' = 0 \<and> count p' = 0 then Some (t1\<lparr>t_pc := Returned (int (t_bytes t1))\<rparr>, k2)
           else Some (t1\<lparr>t_i := t_i t + 1, t_pc := WaitUnit\<rparr>, k2)
         }
         else do { (v, k1) \<leftarrow> sem_post (mutex p) k; Some (t\<lparr>t_pc := WaitUnit\<rparr>, k1) }
     | Returned v \<Rightarrow> Some (t, k))"

definition writePipe_step :: "nat \<Rightarrow> transfer \<Rightarrow> 'a pipe_kernel_scheme \<Rightarrow> (transfer \<times> 'a pipe_kernel_scheme) option" where
  "writePipe_step r t k = (let p = pipes k (t_pipe t) in
     case t_pc t of
       WaitUnit \<Rightarrow>
         if int (t_i t) \<ge> t_size t then Some (t\<lparr>t_pc := Returned (int (t_bytes t))\<rparr>, k)
         else do { (v, k1) \<leftarrow> sem_wait (semWriters p) r k; Some (t\<lparr>t_pc := WaitMutex\<rparr>, k1) }
     | WaitMutex \<Rightarrow> do { (v, k1) \<leftarrow> sem_wait (mutex p) r k; Some (t\<lparr>t_pc := Critical\<rparr>, k1) }
     | Critical \<Rightarrow> do {
         let room = (count p < PIPE_BUFFER_SIZE);
         let k0 = (if room then update_pipe (t_pipe t) (put_byte (t_buffer t (t_i t))) k else k);
         (v, k1) \<leftarrow> sem_post (mutex p) k0;
         (w, k2) \<leftarrow> sem_post (semReaders p) k1;
         Some (t\<lparr>t_bytes := (if room then t_bytes t + 1 else t_bytes t), t_i := t_i t + 1, t_pc := WaitUnit\<rparr>, k2)
       }
     | Returned v \<Rightarrow> Some (t, k))"

section \<open>Closing and clearing\<close>

text \<open>Both wait for the mutex once; the second argument is whether they hold it. The loop that posts
  \<open>PIPE_BUFFER_SIZE\<close> times:\<close>

primrec post_times :: "nat \<Rightarrow> int \<Rightarrow> 'a sem_kernel_scheme \<Rightarrow> 'a sem_kernel_scheme option" where
  "post_times 0 i k = Some k"
| "post_times (Suc n) i k = do { (v, k1) \<leftarrow> sem_post i k; post_times n i k1 }"

definition closePipe_critical :: "nat \<Rightarrow> 'a pipe_kernel_scheme \<Rightarrow> (int \<times> 'a pipe_kernel_scheme) option" where
  "closePipe_critical j k = (let p = pipes k j in
     if writers p = 0 then do { (v, k1) \<leftarrow> sem_post (mutex p) k; Some (0, k1) }
     else if writers p - 1 = 0 then do {
       let k0 = update_pipe j (writers_update (\<lambda>w. w - 1)) k;
       k1 \<leftarrow> post_times PIPE_BUFFER_SIZE (semReaders p) k0;
       (v, k2) \<leftarrow> sem_post (mutex p) k1;
       (a, k3) \<leftarrow> sem_destroy (semReaders p) k2;
       (b, k4) \<leftarrow> sem_destroy (semWriters p) k3;
       (c, k5) \<leftarrow> sem_destroy (mutex p) k4;
       Some (0, update_pipe j (\<lambda>p. p\<lparr>isOpen := 0, readIdx := 0, writeIdx := 0, count := 0, readers := 0, writers := 0,
         semReaders := - 1, semWriters := - 1\<rparr>) k5)
     }
     else do {
       (v, k1) \<leftarrow> sem_post (mutex p) (update_pipe j (writers_update (\<lambda>w. w - 1)) k);
       Some (0, update_pipe j (mutex_update (\<lambda>_. - 1)) k1)
     })"

definition clearPipe_critical :: "nat \<Rightarrow> 'a pipe_kernel_scheme \<Rightarrow> (int \<times> 'a pipe_kernel_scheme) option" where
  "clearPipe_critical j k = do {
     (v, k1) \<leftarrow> sem_post (mutex (pipes k j)) (update_pipe j (\<lambda>p. p\<lparr>readIdx := 0, writeIdx := 0, count := 0\<rparr>) k);
     Some (0, k1)
   }"

text \<open>The operation as a machine: called with a pipe id, holding the mutex of a pipe, returned.\<close>

datatype locked_op = Called int | Locked nat | Done int

definition enter_locked :: "int \<Rightarrow> nat \<Rightarrow> 'a pipe_kernel_scheme \<Rightarrow> (locked_op \<times> 'a pipe_kernel_scheme) option" where
  "enter_locked i r k = (let j = validatePipeId i k in
     if j = - 1 then Some (Done (- 1), k)
     else do { (v, k1) \<leftarrow> sem_wait (mutex (pipes k (nat j))) r k; Some (Locked (nat j), k1) })"

definition closePipe_step :: "nat \<Rightarrow> locked_op \<Rightarrow> 'a pipe_kernel_scheme \<Rightarrow> (locked_op \<times> 'a pipe_kernel_scheme) option" where
  "closePipe_step r s k = (case s of
     Called i \<Rightarrow> enter_locked i r k
   | Locked j \<Rightarrow> do { (v, k1) \<leftarrow> closePipe_critical j k; Some (Done v, k1) }
   | Done v \<Rightarrow> Some (s, k))"

definition clearPipe_step :: "nat \<Rightarrow> locked_op \<Rightarrow> 'a pipe_kernel_scheme \<Rightarrow> (locked_op \<times> 'a pipe_kernel_scheme) option" where
  "clearPipe_step r s k = (case s of
     Called i \<Rightarrow> enter_locked i r k
   | Locked j \<Rightarrow> do { (v, k1) \<leftarrow> clearPipe_critical j k; Some (Done v, k1) }
   | Done v \<Rightarrow> Some (s, k))"

section \<open>The semaphores leave the pipes alone\<close>

lemma pipe_more:
  fixes k k' :: "'a pipe_kernel_scheme"
  assumes "sem_kernel.more k' = sem_kernel.more k"
  shows "pipes k' = pipes k" and "next_sem_id k' = next_sem_id k" and "next_pipe_id k' = next_pipe_id k"
  using assms by (cases k; cases k'; simp)+

lemma sem_more_of_kernel_more:
  fixes k k' :: "'a sem_kernel_scheme"
  shows "kernel.more k' = kernel.more k \<Longrightarrow> sem_kernel.more k' = sem_kernel.more k"
  by (cases k; cases k') simp

lemma sem_more_update [simp]:
  "sem_kernel.more (update_sem i f k) = sem_kernel.more k" "sem_kernel.more (release i k) = sem_kernel.more k"
  "sem_kernel.more (free_cell d k) = sem_kernel.more k" "sem_kernel.more (drop_waiter i d k) = sem_kernel.more k"
  by (simp_all add: update_sem_def release_def free_cell_def drop_waiter_def split: prod.splits)

lemma sem_more_acquire: "acquire i k = Some k' \<Longrightarrow> sem_kernel.more k' = sem_kernel.more k"
  by (auto simp: acquire_def split: if_splits)

lemma sem_more_purge: "purge i ds k = Some k' \<Longrightarrow> sem_kernel.more k' = sem_kernel.more k"
proof (induction ds arbitrary: k)
  case (Cons d ds)
  then obtain gone where "purge i ds (if gone then free_cell d (drop_waiter i d k) else k) = Some k'"
    by (auto simp: bind_eq_Some_conv split del: if_split)
  from Cons.IH [OF this] show ?case by (simp split: if_splits)
qed simp

lemma sem_more_wait:
  assumes "sem_wait i r k = Some (v, k')"
  shows "sem_kernel.more k' = sem_kernel.more k"
proof (cases "isValidSemId i = - 1")
  case True
  then show ?thesis using assms by (simp add: sem_wait_def)
next
  case False
  with assms obtain k1 where k1: "acquire i k = Some k1" by (auto simp: sem_wait_def bind_eq_Some_conv)
  obtain p m where a: "mm_alloc sizeof_pid (k_mm k1) = (p, m)" by force
  obtain n q m' where q: "seq_add p (waitQueue (semaphores k1 (nat i))) m = (n, q, m')" by (rule prod_cases3)
  from assms False k1 a q sem_more_acquire [OF k1] show ?thesis
    by (auto simp: sem_wait_def bind_eq_Some_conv Let_def split: if_splits
        dest!: more_blockProcess [THEN sem_more_of_kernel_more])
qed

lemma sem_more_post:
  assumes "sem_post i k = Some (v, k')"
  shows "sem_kernel.more k' = sem_kernel.more k"
  using assms
  by (auto simp: sem_post_def bind_eq_Some_conv Let_def split: if_splits prod.splits
      dest!: sem_more_acquire sem_more_purge more_setReadyProcess [THEN sem_more_of_kernel_more])

lemma sem_more_create: "sem_create i c k = Some (v, k') \<Longrightarrow> sem_kernel.more k' = sem_kernel.more k"
  by (auto simp: sem_create_def Let_def split: if_splits prod.splits)

lemma sem_more_destroy: "sem_destroy i k = Some (v, k') \<Longrightarrow> sem_kernel.more k' = sem_kernel.more k"
  by (auto simp: sem_destroy_def split: if_splits)

lemmas pipes_wait = sem_more_wait [THEN pipe_more(1)]
lemmas pipes_post = sem_more_post [THEN pipe_more(1)]
lemmas pipes_create = sem_more_create [THEN pipe_more(1)] sem_more_create [THEN pipe_more(2)]

lemma update_pipe_simps [simp]:
  "pipes (update_pipe j f k) = (pipes k)(j := f (pipes k j))" "sched_view (update_pipe j f k) = sched_view k"
  "semaphores (update_pipe j f k) = semaphores k" "semManager (update_pipe j f k) = semManager k"
  "pid_cells (update_pipe j f k) = pid_cells k" "next_sem_id (update_pipe j f k) = next_sem_id k"
  "k_mm (update_pipe j f k) = k_mm k"
  by (simp_all add: update_pipe_def sched_view_def)

section \<open>The ring buffer is a queue\<close>

definition pipe_bytes :: "pipe \<Rightarrow> byte list" where
  "pipe_bytes p = ring (buffer p) (readIdx p) (count p) PIPE_BUFFER_SIZE"

definition pipe_inv :: "pipe \<Rightarrow> bool" where
  "pipe_inv p = (readIdx p < PIPE_BUFFER_SIZE \<and> count p \<le> PIPE_BUFFER_SIZE \<and>
     writeIdx p = (readIdx p + count p) mod PIPE_BUFFER_SIZE)"

definition offer_byte :: "byte \<Rightarrow> pipe \<Rightarrow> bool \<times> pipe" where
  "offer_byte b p = (if count p < PIPE_BUFFER_SIZE then (True, put_byte b p) else (False, p))"

definition poll_byte :: "pipe \<Rightarrow> (byte \<times> pipe) option" where
  "poll_byte p = (if count p > 0 then Some (take_byte p) else None)"

lemma size_pos [simp]: "0 < PIPE_BUFFER_SIZE" by (simp add: PIPE_BUFFER_SIZE_def)

lemma put_byte_ring:
  assumes "pipe_inv p" and "count p < PIPE_BUFFER_SIZE"
  shows "pipe_inv (put_byte b p)" and "pipe_bytes (put_byte b p) = pipe_bytes p @ [b]"
  using assms by (auto simp: pipe_inv_def put_byte_def pipe_bytes_def ring_put mod_simps)

lemma take_byte_ring:
  assumes "pipe_inv p" and "0 < count p" and "take_byte p = (b, p')"
  shows "pipe_inv p'" and "pipe_bytes p = b # pipe_bytes p'" and "count p' = count p - 1" and "writers p' = writers p"
proof -
  have "(readIdx p + 1) mod PIPE_BUFFER_SIZE + (count p - 1) = (readIdx p + 1) mod PIPE_BUFFER_SIZE + count p - 1"
    using assms(2) by simp
  moreover have "((readIdx p + 1) mod PIPE_BUFFER_SIZE + (count p - 1)) mod PIPE_BUFFER_SIZE = (readIdx p + count p) mod PIPE_BUFFER_SIZE"
    using assms(2) by (subst mod_add_left_eq) simp
  ultimately show "pipe_inv p'" using assms by (auto simp: pipe_inv_def take_byte_def)
  show "pipe_bytes p = b # pipe_bytes p'" "count p' = count p - 1" "writers p' = writers p"
    using assms by (auto simp: pipe_inv_def take_byte_def pipe_bytes_def ring_get)
qed

interpretation pipe_queue: fifo offer_byte poll_byte pipe_bytes pipe_inv "\<lambda>_. True"
proof unfold_locales
  show "pipe_inv p'" if "pipe_inv p" "offer_byte b p = (ok, p')" for p b ok p'
    using that put_byte_ring(1) [of p b] by (auto simp: offer_byte_def split: if_splits)
  show "pipe_bytes p' = (if ok then pipe_bytes p @ [b] else pipe_bytes p)" if "pipe_inv p" "offer_byte b p = (ok, p')" for p b ok p'
    using that put_byte_ring(2) [of p b] by (auto simp: offer_byte_def split: if_splits)
  show "poll_byte p = None \<longleftrightarrow> pipe_bytes p = []" if "pipe_inv p" for p
    by (simp add: poll_byte_def pipe_bytes_def ring_def)
  show "pipe_inv p'" if "pipe_inv p" "poll_byte p = Some (b, p')" for p b p'
    using that take_byte_ring(1) [of p b p'] by (auto simp: poll_byte_def split: if_splits)
  show "pipe_bytes p = b # pipe_bytes p'" if "pipe_inv p" "poll_byte p = Some (b, p')" for p b p'
    using that take_byte_ring(2) [of p b p'] by (auto simp: poll_byte_def split: if_splits)
qed

section \<open>What goes through a pipe\<close>

text \<open>The byte a step took out of the pipe, and the byte a step put in, judged by the operation's own count.\<close>

definition bytes_in :: "transfer \<Rightarrow> transfer \<Rightarrow> byte list" where
  "bytes_in t t' = (if t_bytes t' > t_bytes t then [t_buffer t (t_i t)] else [])"

definition bytes_out :: "transfer \<Rightarrow> transfer \<Rightarrow> byte list" where
  "bytes_out t t' = (if t_bytes t' > t_bytes t then [t_buffer t' (t_i t)] else [])"

text \<open>A run of steps of any readers and writers of pipe j, in any order, with any other steps of the kernel in
  between that do not open, clear or close the pipe.\<close>

inductive pipe_run :: "nat \<Rightarrow> byte list \<Rightarrow> byte list \<Rightarrow> 'a pipe_kernel_scheme \<Rightarrow> 'a pipe_kernel_scheme \<Rightarrow> bool" for j where
  start: "pipe_run j [] [] k k"
| wrote: "pipe_run j ws rs k k1 \<Longrightarrow> writePipe_step r t k1 = Some (t', k2) \<Longrightarrow> t_pipe t = j \<Longrightarrow>
    pipe_run j (ws @ bytes_in t t') rs k k2"
| got: "pipe_run j ws rs k k1 \<Longrightarrow> readPipe_step r t k1 = Some (t', k2) \<Longrightarrow> t_pipe t = j \<Longrightarrow>
    pipe_run j ws (rs @ bytes_out t t') k k2"
| other: "pipe_run j ws rs k k1 \<Longrightarrow> pipes k2 j = pipes k1 j \<Longrightarrow> pipe_run j ws rs k k2"

lemma writePipe_step_pipe:
  assumes "writePipe_step r t k = Some (t', k')" and "pipe_inv (pipes k (t_pipe t))"
  shows "pipe_inv (pipes k' (t_pipe t)) \<and> pipe_bytes (pipes k' (t_pipe t)) = pipe_bytes (pipes k (t_pipe t)) @ bytes_in t t'"
proof (cases "t_pc t")
  case Critical
  let ?p = "pipes k (t_pipe t)"
  let ?k = "if count ?p < PIPE_BUFFER_SIZE then update_pipe (t_pipe t) (put_byte (t_buffer t (t_i t))) k else k"
  from assms(1) Critical obtain v k1 w where s: "sem_post (mutex ?p) ?k = Some (v, k1)" "sem_post (semReaders ?p) k1 = Some (w, k')"
    and t': "t' = t\<lparr>t_bytes := (if count ?p < PIPE_BUFFER_SIZE then t_bytes t + 1 else t_bytes t), t_i := t_i t + 1, t_pc := WaitUnit\<rparr>"
    by (auto simp: writePipe_step_def Let_def bind_eq_Some_conv split del: if_split)
  have "pipes k' = pipes ?k" using pipes_post [OF s(1)] pipes_post [OF s(2)] by simp
  with t' put_byte_ring [OF assms(2), of "t_buffer t (t_i t)"] assms(2) show ?thesis by (simp add: bytes_in_def)
qed (use assms in \<open>auto simp: writePipe_step_def Let_def bind_eq_Some_conv bytes_in_def split: if_splits dest!: pipes_wait\<close>)

lemma readPipe_step_pipe:
  assumes "readPipe_step r t k = Some (t', k')" and "pipe_inv (pipes k (t_pipe t))"
  shows "pipe_inv (pipes k' (t_pipe t)) \<and> pipe_bytes (pipes k (t_pipe t)) = bytes_out t t' @ pipe_bytes (pipes k' (t_pipe t))"
proof (cases "t_pc t")
  case Critical
  let ?p = "pipes k (t_pipe t)"
  obtain b p' where tk: "take_byte ?p = (b, p')" by force
  show ?thesis
  proof (cases "count ?p > 0")
    case True
    with assms(1) Critical tk obtain v k1 w k2 where s: "sem_post (mutex ?p) (update_pipe (t_pipe t) (\<lambda>_. p') k) = Some (v, k1)"
      "sem_post (semWriters ?p) k1 = Some (w, k2)" and k': "k' = k2"
      and t': "t_bytes t' = t_bytes t + 1" "t_buffer t' (t_i t) = b"
      by (auto simp: readPipe_step_def Let_def bind_eq_Some_conv split: if_splits)
    have "pipes k' (t_pipe t) = p'" using pipes_post [OF s(1)] pipes_post [OF s(2)] k' by simp
    with t' take_byte_ring [OF assms(2) True tk] show ?thesis by (simp add: bytes_out_def)
  next
    case False
    with assms Critical show ?thesis
      by (auto simp: readPipe_step_def Let_def bind_eq_Some_conv bytes_out_def split: if_splits dest!: pipes_post)
  qed
qed (use assms in \<open>auto simp: readPipe_step_def Let_def bind_eq_Some_conv bytes_out_def split: if_splits dest!: pipes_wait\<close>)

lemma pipe_run_queue:
  assumes "pipe_run j ws rs k k'" and "pipe_inv (pipes k j)"
  shows "pipe_bytes (pipes k j) @ ws = rs @ pipe_bytes (pipes k' j) \<and> pipe_inv (pipes k' j)"
  using assms
proof (induction rule: pipe_run.induct)
  case (start k)
  then show ?case by simp
next
  case (wrote ws rs k k1 r t t' k2)
  with writePipe_step_pipe [OF wrote(2)] show ?case by (metis append.assoc)
next
  case (got ws rs k k1 r t t' k2)
  with readPipe_step_pipe [OF got(2)] show ?case by (metis append.assoc)
next
  case (other ws rs k k1 k2)
  then show ?case by simp
qed

section \<open>A pipe nobody waits for\<close>

text \<open>A semaphore of value n without waiters; a pipe with room for f bytes and u bytes in it.\<close>

definition quiet :: "'a sem_kernel_scheme \<Rightarrow> int \<Rightarrow> nat \<Rightarrow> bool" where
  "quiet k i n = (sem_ok k i \<and> isValidSemId i = 0 \<and> l_items (waitQueue (semaphores k (nat i))) = [] \<and>
     counter (semaphores k (nat i)) = of_nat n \<and> n < 2 ^ 32)"

definition channel :: "'a pipe_kernel_scheme \<Rightarrow> nat \<Rightarrow> nat \<Rightarrow> nat \<Rightarrow> bool" where
  "channel k j f u = (let p = pipes k j in pipe_inv p \<and> count p = u \<and> writers p \<noteq> 0 \<and> isOpen p \<noteq> 0 \<and> f + u \<le> PIPE_BUFFER_SIZE \<and>
     distinct [nat (semReaders p), nat (semWriters p), nat (mutex p)] \<and>
     quiet k (semWriters p) f \<and> quiet k (semReaders p) u \<and> quiet k (mutex p) 1)"

lemma quiet_other [simp]: "nat i \<noteq> nat x \<Longrightarrow> quiet (update_sem x g k) i n = quiet k i n"
  by (simp add: quiet_def sem_ok_def)

lemma quiet_pipe [simp]: "quiet (update_pipe j g k) i n = quiet k i n"
  by (simp add: quiet_def sem_ok_def)

lemma of_nat_32_zero: "n < 2 ^ 32 \<Longrightarrow> (of_nat n :: 32 word) = 0 \<longleftrightarrow> n = 0"
  using nat_dvd_not_less [of n "2 ^ 32"] by (cases "n = 0") (simp_all add: word_of_nat_eq_0_iff)

lemma quiet_wait:
  assumes "quiet k i (Suc n)"
  shows "sem_wait i r k = Some (0, update_sem i (counter_update (\<lambda>c. c - 1)) k)"
    and "quiet (update_sem i (counter_update (\<lambda>c. c - 1)) k) i n"
proof -
  let ?s = "semaphores k (nat i)"
  have q: "sem_ok k i" "isValidSemId i = 0" "l_items (waitQueue ?s) = []" "counter ?s = of_nat (Suc n)" "Suc n < 2 ^ 32"
    using assms by (auto simp: quiet_def)
  have nz: "counter ?s \<noteq> 0" unfolding q(4) using of_nat_32_zero [OF q(5)] by simp
  have s0: "spinlock ?s = 0" using q(1) by (simp add: sem_ok_def Let_def)
  have "release i (update_sem i (counter_update (\<lambda>c. c - 1)) (update_sem i (spinlock_update (\<lambda>_. 1)) k)) =
    update_sem i (counter_update (\<lambda>c. c - 1)) k"
    using s0 by (cases ?s) (simp add: release_def update_sem_def)
  then show "sem_wait i r k = Some (0, update_sem i (counter_update (\<lambda>c. c - 1)) k)"
    using q(2) nz sem_ok_acquire [OF q(1)] by (simp add: sem_wait_def)
  show "quiet (update_sem i (counter_update (\<lambda>c. c - 1)) k) i n"
    using q by (simp add: quiet_def sem_ok_def Let_def)
qed

lemma quiet_post:
  assumes "quiet k i n" and "Suc n < 2 ^ 32"
  shows "sem_post i k = Some (0, update_sem i (counter_update (\<lambda>c. c + 1)) k)"
    and "quiet (update_sem i (counter_update (\<lambda>c. c + 1)) k) i (Suc n)"
proof -
  let ?s = "semaphores k (nat i)"
  have q: "sem_ok k i" "isValidSemId i = 0" "l_items (waitQueue ?s) = []" "counter ?s = of_nat n"
    using assms by (auto simp: quiet_def)
  have s0: "spinlock ?s = 0" using q(1) by (simp add: sem_ok_def Let_def)
  have "release i (update_sem i (counter_update (\<lambda>c. c + 1)) (update_sem i (spinlock_update (\<lambda>_. 1)) k)) =
    update_sem i (counter_update (\<lambda>c. c + 1)) k"
    using s0 by (cases ?s) (simp add: release_def update_sem_def)
  then show "sem_post i k = Some (0, update_sem i (counter_update (\<lambda>c. c + 1)) k)"
    using q(2,3) sem_ok_acquire [OF q(1)] by (simp add: sem_post_def Let_def)
  show "quiet (update_sem i (counter_update (\<lambda>c. c + 1)) k) i (Suc n)"
    using q assms(2) by (simp add: quiet_def sem_ok_def Let_def)
qed

fun run_op :: "(transfer \<Rightarrow> 'a pipe_kernel_scheme \<Rightarrow> (transfer \<times> 'a pipe_kernel_scheme) option) \<Rightarrow> nat \<Rightarrow>
    transfer \<Rightarrow> 'a pipe_kernel_scheme \<Rightarrow> (transfer \<times> 'a pipe_kernel_scheme) option" where
  "run_op f 0 t k = Some (t, k)"
| "run_op f (Suc n) t k = do { (t, k) \<leftarrow> f t k; run_op f n t k }"

lemma run_op_add: "run_op f (m + n) t k = do { (t, k) \<leftarrow> run_op f m t k; run_op f n t k }"
  by (induction m arbitrary: t k) (auto simp: bind_eq_None_conv split: bind_splits)

lemma write_iter:
  assumes ch: "channel k j (Suc f) u" and t: "t_pc t = WaitUnit" "t_pipe t = j" "int (t_i t) < t_size t"
  shows "\<exists>k'. run_op (writePipe_step r) 3 t k = Some (t\<lparr>t_bytes := t_bytes t + 1, t_i := t_i t + 1\<rparr>, k') \<and>
    channel k' j f (Suc u) \<and> pipe_bytes (pipes k' j) = pipe_bytes (pipes k j) @ [t_buffer t (t_i t)]"
proof -
  let ?p = "pipes k j"
  have c: "pipe_inv ?p" "count ?p = u" "writers ?p \<noteq> 0" "isOpen ?p \<noteq> 0" "Suc f + u \<le> PIPE_BUFFER_SIZE"
    "distinct [nat (semReaders ?p), nat (semWriters ?p), nat (mutex ?p)]"
    "quiet k (semWriters ?p) (Suc f)" "quiet k (semReaders ?p) u" "quiet k (mutex ?p) 1" using ch by (auto simp: channel_def Let_def)
  have u: "u < PIPE_BUFFER_SIZE" "Suc u < 2 ^ 32" "Suc 0 < 2 ^ 32" using c(5) by (simp_all add: PIPE_BUFFER_SIZE_def)
  let ?p' = "put_byte (t_buffer t (t_i t)) ?p"
  have pf: "semReaders ?p' = semReaders ?p" "semWriters ?p' = semWriters ?p" "mutex ?p' = mutex ?p" "count ?p' = Suc (count ?p)"
    "writers ?p' = writers ?p" "isOpen ?p' = isOpen ?p"
    by (simp_all add: put_byte_def)
  let ?k1 = "update_sem (semWriters ?p) (counter_update (\<lambda>c. c - 1)) k"
  note w1 = quiet_wait [OF c(7)]
  have m1: "quiet ?k1 (mutex ?p) (Suc 0)" using c(6,9) by auto
  let ?k2 = "update_sem (mutex ?p) (counter_update (\<lambda>c. c - 1)) ?k1"
  note w2 = quiet_wait [OF m1]
  let ?k3 = "update_pipe j (put_byte (t_buffer t (t_i t))) ?k2"
  have m3: "quiet ?k3 (mutex ?p) 0" using w2(2) by simp
  let ?k4 = "update_sem (mutex ?p) (counter_update (\<lambda>c. c + 1)) ?k3"
  note w3 = quiet_post [OF m3 u(3)]
  have r4: "quiet ?k4 (semReaders ?p) u" using c(6,8) by auto
  let ?k5 = "update_sem (semReaders ?p) (counter_update (\<lambda>c. c + 1)) ?k4"
  note w4 = quiet_post [OF r4 u(2)]
  have pipes5: "pipes ?k5 = (pipes k)(j := ?p')" by (simp add: update_sem_def update_pipe_def)
  have pk: "pipes ?k1 = pipes k" "pipes ?k2 = pipes k" by (simp_all add: update_sem_def)
  let ?t1 = "t\<lparr>t_pc := WaitMutex\<rparr>" and ?t2 = "t\<lparr>t_pc := Critical\<rparr>"
  let ?t3 = "t\<lparr>t_bytes := t_bytes t + 1, t_i := t_i t + 1\<rparr>"
  have s1: "writePipe_step r t k = Some (?t1, ?k1)" using t w1(1) [of r] by (simp add: writePipe_step_def)
  have s2: "writePipe_step r ?t1 ?k1 = Some (?t2, ?k2)" using t(2) w2(1) [of r] pk(1) by (simp add: writePipe_step_def)
  have s3: "writePipe_step r ?t2 ?k2 = Some (?t3\<lparr>t_pc := WaitUnit\<rparr>, ?k5)"
    using t(2) w3(1) w4(1) pk(2) u(1) c(2) by (simp add: writePipe_step_def Let_def)
  have "?t3\<lparr>t_pc := WaitUnit\<rparr> = ?t3" using t(1) by (cases t) simp
  then have run: "run_op (writePipe_step r) 3 t k = Some (?t3, ?k5)"
    using s1 s2 s3 by (simp add: numeral_3_eq_3)
  have "channel ?k5 j f (Suc u)"
    unfolding channel_def Let_def pipes5 using c pf put_byte_ring(1) [OF c(1)] u w1(2) w3(2) w4(2) by auto
  moreover have "pipe_bytes (pipes ?k5 j) = pipe_bytes ?p @ [t_buffer t (t_i t)]"
    unfolding pipes5 using put_byte_ring(2) [OF c(1)] u(1) c(2) by simp
  ultimately show ?thesis using run by blast
qed

lemma read_iter:
  assumes ch: "channel k j f (Suc u)" and t: "t_pc t = WaitUnit" "t_pipe t = j" "int (t_i t) < t_size t"
    and b: "pipe_bytes (pipes k j) = b # bs"
  shows "\<exists>k'. run_op (readPipe_step r) 3 t k =
      Some (t\<lparr>t_buffer := (t_buffer t)(t_i t := b), t_bytes := t_bytes t + 1, t_i := t_i t + 1\<rparr>, k') \<and>
    channel k' j (Suc f) u \<and> pipe_bytes (pipes k' j) = bs"
proof -
  let ?p = "pipes k j"
  have c: "pipe_inv ?p" "count ?p = Suc u" "writers ?p \<noteq> 0" "isOpen ?p \<noteq> 0" "f + Suc u \<le> PIPE_BUFFER_SIZE"
    "distinct [nat (semReaders ?p), nat (semWriters ?p), nat (mutex ?p)]"
    "quiet k (semWriters ?p) f" "quiet k (semReaders ?p) (Suc u)" "quiet k (mutex ?p) 1" using ch by (auto simp: channel_def Let_def)
  have u: "Suc f < 2 ^ 32" "Suc 0 < 2 ^ 32" "0 < count ?p" using c(2,5) by (simp_all add: PIPE_BUFFER_SIZE_def)
  obtain b' p' where tk: "take_byte ?p = (b', p')" by force
  have bb: "b' = b" "pipe_bytes p' = bs" using take_byte_ring(2) [OF c(1) u(3) tk] b by simp_all
  have pf: "semReaders p' = semReaders ?p" "semWriters p' = semWriters ?p" "mutex p' = mutex ?p" "count p' = u"
    "writers p' = writers ?p" "isOpen p' = isOpen ?p"
    using tk c(2) by (auto simp: take_byte_def)
  let ?k1 = "update_sem (semReaders ?p) (counter_update (\<lambda>c. c - 1)) k"
  note w1 = quiet_wait [OF c(8)]
  have m1: "quiet ?k1 (mutex ?p) (Suc 0)" using c(6,9) by auto
  let ?k2 = "update_sem (mutex ?p) (counter_update (\<lambda>c. c - 1)) ?k1"
  note w2 = quiet_wait [OF m1]
  let ?k3 = "update_pipe j (\<lambda>_. p') ?k2"
  have m3: "quiet ?k3 (mutex ?p) 0" using w2(2) by simp
  let ?k4 = "update_sem (mutex ?p) (counter_update (\<lambda>c. c + 1)) ?k3"
  note w3 = quiet_post [OF m3 u(2)]
  have r4: "quiet ?k4 (semWriters ?p) f" using c(6,7) by auto
  let ?k5 = "update_sem (semWriters ?p) (counter_update (\<lambda>c. c + 1)) ?k4"
  note w4 = quiet_post [OF r4 u(1)]
  have pipes5: "pipes ?k5 = (pipes k)(j := p')" by (simp add: update_sem_def update_pipe_def)
  have pk: "pipes ?k1 = pipes k" "pipes ?k2 = pipes k" by (simp_all add: update_sem_def)
  let ?t1 = "t\<lparr>t_pc := WaitMutex\<rparr>" and ?t2 = "t\<lparr>t_pc := Critical\<rparr>"
  let ?t3 = "t\<lparr>t_buffer := (t_buffer t)(t_i t := b), t_bytes := t_bytes t + 1, t_i := t_i t + 1\<rparr>"
  have s1: "readPipe_step r t k = Some (?t1, ?k1)" using t w1(1) [of r] by (simp add: readPipe_step_def)
  have s2: "readPipe_step r ?t1 ?k1 = Some (?t2, ?k2)" using t(2) w2(1) [of r] pk(1) by (simp add: readPipe_step_def)
  have s3: "readPipe_step r ?t2 ?k2 = Some (?t3\<lparr>t_pc := WaitUnit\<rparr>, ?k5)"
    using t(2) w3(1) w4(1) pk(2) u(3) c(3) tk bb(1) pf(5) by (simp add: readPipe_step_def Let_def)
  have "?t3\<lparr>t_pc := WaitUnit\<rparr> = ?t3" using t(1) by (cases t) simp
  then have run: "run_op (readPipe_step r) 3 t k = Some (?t3, ?k5)"
    using s1 s2 s3 by (simp add: numeral_3_eq_3)
  have "channel ?k5 j (Suc f) u"
    unfolding channel_def Let_def pipes5 using c pf take_byte_ring(1) [OF c(1) u(3) tk] u w1(2) w3(2) w4(2) by auto
  then show ?thesis using run bb(2) pipes5 by auto
qed

lemma write_all:
  assumes "channel k j (f + n) u" and "t_pc t = WaitUnit" "t_pipe t = j" "t_size t = int (t_i t + n)"
  shows "\<exists>k' t'. run_op (writePipe_step r) (3 * n + 1) t k = Some (t', k') \<and> t_pc t' = Returned (int (t_bytes t + n)) \<and>
    channel k' j f (u + n) \<and> pipe_bytes (pipes k' j) = pipe_bytes (pipes k j) @ List.map (t_buffer t) [t_i t..<t_i t + n]"
  using assms
proof (induction n arbitrary: t k u)
  case 0
  then show ?case by (simp add: writePipe_step_def Let_def)
next
  case (Suc n)
  have ch: "channel k j (Suc (f + n)) u" using Suc.prems(1) by simp
  have "int (t_i t) < t_size t" using Suc.prems(4) by simp
  from write_iter [OF ch Suc.prems(2,3) this, of r] obtain k1 where k1:
    "run_op (writePipe_step r) 3 t k = Some (t\<lparr>t_bytes := t_bytes t + 1, t_i := t_i t + 1\<rparr>, k1)" "channel k1 j (f + n) (Suc u)"
    "pipe_bytes (pipes k1 j) = pipe_bytes (pipes k j) @ [t_buffer t (t_i t)]" by blast
  let ?t = "t\<lparr>t_bytes := t_bytes t + 1, t_i := t_i t + 1\<rparr>"
  have "t_pc ?t = WaitUnit" "t_pipe ?t = j" "t_size ?t = int (t_i ?t + n)" using Suc.prems by simp_all
  from Suc.IH [OF k1(2) this] obtain k' t' where K: "run_op (writePipe_step r) (3 * n + 1) ?t k1 = Some (t', k')"
    "t_pc t' = Returned (int (t_bytes ?t + n))" "channel k' j f (Suc u + n)"
    "pipe_bytes (pipes k' j) = pipe_bytes (pipes k1 j) @ List.map (t_buffer ?t) [t_i ?t..<t_i ?t + n]" by blast
  have "run_op (writePipe_step r) (3 + (3 * n + 1)) t k = Some (t', k')"
    unfolding run_op_add [of _ 3] k1(1) using K(1) by simp
  moreover have "[t_i t..<t_i t + Suc n] = t_i t # [Suc (t_i t)..<Suc (t_i t) + n]" by (simp add: upt_conv_Cons)
  ultimately show ?case using K(2,3,4) k1(3) by (intro exI [of _ k'] exI [of _ t']) simp
qed

lemma read_all:
  assumes "channel k j f (u + n)" and "t_pc t = WaitUnit" "t_pipe t = j" "t_size t = int (t_i t + n)" and "length bs = n"
    and "pipe_bytes (pipes k j) = bs @ cs"
  shows "\<exists>k' t'. run_op (readPipe_step r) (3 * n + 1) t k = Some (t', k') \<and> t_pc t' = Returned (int (t_bytes t + n)) \<and>
    channel k' j (f + n) u \<and> pipe_bytes (pipes k' j) = cs \<and> List.map (t_buffer t') [t_i t..<t_i t + n] = bs \<and>
    (\<forall>i < t_i t. t_buffer t' i = t_buffer t i)"
  using assms
proof (induction n arbitrary: t k f bs)
  case 0
  then show ?case by (simp add: readPipe_step_def Let_def)
next
  case (Suc n)
  obtain b bs' where bs: "bs = b # bs'" "length bs' = n" using Suc.prems(5) by (cases bs) auto
  have ch: "channel k j f (Suc (u + n))" using Suc.prems(1) by simp
  have lt: "int (t_i t) < t_size t" using Suc.prems(4) by simp
  have pb: "pipe_bytes (pipes k j) = b # (bs' @ cs)" using Suc.prems(6) bs by simp
  let ?t = "t\<lparr>t_buffer := (t_buffer t)(t_i t := b), t_bytes := t_bytes t + 1, t_i := t_i t + 1\<rparr>"
  from read_iter [OF ch Suc.prems(2,3) lt pb, of r] obtain k1 where k1:
    "run_op (readPipe_step r) 3 t k = Some (?t, k1)" "channel k1 j (Suc f) (u + n)" "pipe_bytes (pipes k1 j) = bs' @ cs" by blast
  have "t_pc ?t = WaitUnit" "t_pipe ?t = j" "t_size ?t = int (t_i ?t + n)" using Suc.prems by simp_all
  from Suc.IH [OF k1(2) this bs(2) k1(3)] obtain k' t' where K: "run_op (readPipe_step r) (3 * n + 1) ?t k1 = Some (t', k')"
    "t_pc t' = Returned (int (t_bytes ?t + n))" "channel k' j (Suc f + n) u" "pipe_bytes (pipes k' j) = cs"
    "List.map (t_buffer t') [t_i ?t..<t_i ?t + n] = bs'" "\<forall>i < t_i ?t. t_buffer t' i = t_buffer ?t i" by blast
  have run: "run_op (readPipe_step r) (3 + (3 * n + 1)) t k = Some (t', k')"
    unfolding run_op_add [of _ 3] k1(1) using K(1) by simp
  have "[t_i t..<t_i t + Suc n] = t_i t # [Suc (t_i t)..<Suc (t_i t) + n]" by (simp add: upt_conv_Cons)
  moreover have "t_buffer t' (t_i t) = b" using K(6) by simp
  ultimately have "List.map (t_buffer t') [t_i t..<t_i t + Suc n] = bs" using K(5) bs(1) by simp
  moreover have "\<forall>i < t_i t. t_buffer t' i = t_buffer t i" using K(6) by simp
  ultimately show ?case using K(2,3,4) run by (intro exI [of _ k'] exI [of _ t']) simp
qed

section \<open>Properties\<close>

text \<open>For the witnesses: pipe 0 open and empty over semaphores 100, 101, 102.\<close>

definition empty_pipe :: pipe where
  "empty_pipe = \<lparr>buffer = (\<lambda>_. 0), readIdx = 0, writeIdx = 0, count = 0, semReaders = 100, semWriters = 101, mutex = 102,
     readers = 1, writers = 1, isOpen = 1\<rparr>"

definition closed_pipe :: pipe where
  "closed_pipe = \<lparr>buffer = (\<lambda>_. 0), readIdx = 0, writeIdx = 0, count = 0, semReaders = - 1, semWriters = - 1, mutex = - 1,
     readers = 0, writers = 0, isOpen = 0\<rparr>"

definition demo_pipes :: "int \<Rightarrow> pipe_kernel" where
  "demo_pipes s = sem_kernel.extend (demo_sems\<lparr>semaphores :=
     (\<lambda>i. clear_sem)(100 := \<lparr>waitQueue = \<lparr>l_addr = 50, l_items = []\<rparr>, counter = 0, spinlock = 0, active = 1\<rparr>,
       101 := \<lparr>waitQueue = \<lparr>l_addr = 51, l_items = []\<rparr>, counter = 512, spinlock = 0, active = 1\<rparr>,
       102 := \<lparr>waitQueue = \<lparr>l_addr = 52, l_items = []\<rparr>, counter = 1, spinlock = 0, active = 1\<rparr>)\<rparr>)
     (pipe_kernel.fields ((\<lambda>_. closed_pipe)(0 := empty_pipe)) 0 s)"

lemma demo_pipes_fields:
  "pipes (demo_pipes s) = (\<lambda>_. closed_pipe)(0 := empty_pipe)" "next_sem_id (demo_pipes s) = s"
  "semManager (demo_pipes s) = 500" "k_mm (demo_pipes s) = small_mm"
  "semaphores (demo_pipes s) = (\<lambda>i. clear_sem)(100 := \<lparr>waitQueue = \<lparr>l_addr = 50, l_items = []\<rparr>, counter = 0, spinlock = 0, active = 1\<rparr>,
       101 := \<lparr>waitQueue = \<lparr>l_addr = 51, l_items = []\<rparr>, counter = 512, spinlock = 0, active = 1\<rparr>,
       102 := \<lparr>waitQueue = \<lparr>l_addr = 52, l_items = []\<rparr>, counter = 1, spinlock = 0, active = 1\<rparr>)"
  by (simp_all add: demo_pipes_def pipe_kernel.defs sem_kernel.defs demo_sems_def kernel.defs demo_kernel_def)

lemma demo_channel: "channel (demo_pipes s) 0 512 0"
  by (simp add: channel_def Let_def demo_pipes_fields empty_pipe_def pipe_inv_def PIPE_BUFFER_SIZE_def quiet_def sem_ok_def
      isValidSemId_def NUM_SEMS_def)

text \<open>
  C8. A pipe is a queue of bytes, whatever readers and writers run and however their steps interleave:
  what was in the pipe followed by what the writers put in is what the readers took out followed by
  what is still in the pipe. So no byte is lost, duplicated or reordered, and the ring buffer never overflows.
\<close>

theorem pipe_fifo:
  assumes "pipe_run j ws rs k k'" and "pipe_inv (pipes k j)"
  shows "pipe_bytes (pipes k j) @ ws = rs @ pipe_bytes (pipes k' j) \<and> pipe_inv (pipes k' j)"
  by (rule pipe_run_queue [OF assms])

theorem pipe_fifo_witness:
  "\<exists>k'. pipe_run 0 [65] [] (demo_pipes 103) k' \<and> pipe_bytes (pipes k' 0) = [65]"
proof -
  let ?k = "demo_pipes 103"
  let ?t = "\<lparr>t_pipe = 0, t_size = 1, t_i = 0, t_bytes = 0, t_buffer = (\<lambda>_. 65), t_pc = Critical\<rparr>"
  have q: "quiet (update_pipe 0 (put_byte 65) ?k) 102 1" "quiet ?k 100 0" "pipes ?k 0 = empty_pipe"
    using demo_channel [of 103] by (simp_all add: channel_def Let_def demo_pipes_fields empty_pipe_def)
  note p1 = quiet_post [OF q(1)]
  have q2: "quiet (update_sem 102 (counter_update (\<lambda>c. c + 1)) (update_pipe 0 (put_byte 65) ?k)) 100 0" using q(2) by simp
  note p2 = quiet_post [OF q2]
  have "\<exists>k'. writePipe_step 0 ?t ?k = Some (?t\<lparr>t_bytes := 1, t_i := 1, t_pc := WaitUnit\<rparr>, k')"
    using p1(1) p2(1) q(3) by (simp add: writePipe_step_def Let_def empty_pipe_def PIPE_BUFFER_SIZE_def)
  then obtain k' where "writePipe_step 0 ?t ?k = Some (?t\<lparr>t_bytes := 1, t_i := 1, t_pc := WaitUnit\<rparr>, k')" by blast
  from pipe_run.wrote [OF pipe_run.start this] have run: "pipe_run 0 [65] [] ?k k'" by (simp add: bytes_in_def)
  have "pipe_inv (pipes ?k 0)" by (simp add: q(3) empty_pipe_def pipe_inv_def)
  from pipe_fifo [OF run this] run show ?thesis by (auto simp: q(3) empty_pipe_def pipe_bytes_def ring_def)
qed

text \<open>
  C33. A process that writes n bytes into an open pipe nobody waits for, with room for them, and then reads n bytes
  gets exactly its bytes back, in order: neither call blocks, both return n, and the pipe and its semaphores
  are as free as before. The number of steps shows that both calls return.
\<close>

theorem pipe_roundtrip:
  assumes "channel k j f 0" and "0 < n" "n \<le> f" and "validatePipeId i k = int j"
  shows "\<exists>t k1 t' k2. run_op (writePipe_step r) (3 * n + 1) (start_transfer i False data (int n) k) k = Some (t, k1) \<and>
    t_pc t = Returned (int n) \<and>
    run_op (readPipe_step r) (3 * n + 1) (start_transfer i False buf (int n) k1) k1 = Some (t', k2) \<and>
    t_pc t' = Returned (int n) \<and> List.map (t_buffer t') [0..<n] = List.map data [0..<n] \<and> channel k2 j f 0"
proof -
  let ?t = "start_transfer i False data (int n) k"
  have t: "t_pc ?t = WaitUnit" "t_pipe ?t = j" "t_size ?t = int (t_i ?t + n)" "t_i ?t = 0" "t_bytes ?t = 0" "t_buffer ?t = data"
    using assms(2,4) by (simp_all add: start_transfer_def)
  have "channel k j ((f - n) + n) 0" using assms(1,3) by simp
  from write_all [OF this t(1-3), of r] t(4-6) obtain k1 t1 where w:
    "run_op (writePipe_step r) (3 * n + 1) ?t k = Some (t1, k1)" "t_pc t1 = Returned (int n)" "channel k1 j (f - n) n"
    "pipe_bytes (pipes k1 j) = pipe_bytes (pipes k j) @ List.map data [0..<n]" by auto
  have e: "pipe_bytes (pipes k j) = []" using assms(1) by (simp add: channel_def Let_def pipe_bytes_def ring_def)
  have jj: "j = nat (i - 3)" "3 \<le> i" "i \<le> int MAX_PIPES + 2" using assms(4) by (auto simp: validatePipeId_def split: if_splits)
  have v1: "validatePipeId i k1 = int j"
    using w(3) jj by (auto simp: validatePipeId_def channel_def Let_def)
  let ?t2 = "start_transfer i False buf (int n) k1"
  have t2: "t_pc ?t2 = WaitUnit" "t_pipe ?t2 = j" "t_size ?t2 = int (t_i ?t2 + n)" "t_i ?t2 = 0" "t_bytes ?t2 = 0"
    using assms(2) v1 by (simp_all add: start_transfer_def)
  have c1: "channel k1 j (f - n) (0 + n)" using w(3) by simp
  have pb: "pipe_bytes (pipes k1 j) = List.map data [0..<n] @ []" using w(4) e by simp
  from read_all [OF c1 t2(1-3) _ pb, of r] t2(4,5) assms(3) obtain k2 t' where
    "run_op (readPipe_step r) (3 * n + 1) ?t2 k1 = Some (t', k2)" "t_pc t' = Returned (int n)" "channel k2 j f 0"
    "List.map (t_buffer t') [0..<n] = List.map data [0..<n]" by auto
  with w(1,2) show ?thesis by blast
qed

theorem pipe_roundtrip_witness:
  "\<exists>t k1 t' k2. run_op (writePipe_step 0) 7 (start_transfer 3 False (\<lambda>i. of_nat i + 65) 2 (demo_pipes 103)) (demo_pipes 103) = Some (t, k1) \<and>
    run_op (readPipe_step 0) 7 (start_transfer 3 False (\<lambda>_. 0) 2 k1) k1 = Some (t', k2) \<and> t_buffer t' 0 = 65 \<and> t_buffer t' 1 = 66"
proof -
  have v: "validatePipeId 3 (demo_pipes 103) = int 0"
    by (simp add: validatePipeId_def demo_pipes_fields empty_pipe_def MAX_PIPES_def)
  have n: "(0 :: nat) < 2" "(2 :: nat) \<le> 512" by simp_all
  from pipe_roundtrip [OF demo_channel n v, of 0 "\<lambda>i. of_nat i + 65" "\<lambda>_. 0"] show ?thesis
    by (auto simp: upt_rec numeral_2_eq_2)
qed

lemma sem_create_success:
  assumes "sem_create i c k = Some (v, k1)" and "0 \<le> v"
  shows "isValidSemId i = 0" and "semManager k1 \<noteq> 0" and "\<exists>q. semaphores k1 =
    (semaphores k)(nat i := \<lparr>waitQueue = q, counter = c, spinlock = 0, active = 1\<rparr>) \<and> l_addr q \<noteq> 0 \<and> l_items q = []"
proof -
  obtain q m where q: "seq_create (k_mm k) = (q, m)" by force
  have l: "l_items q = []" using q by (auto simp: seq_create_def split: prod.splits)
  have e: "(semaphores k (nat i))\<lparr>counter := c, spinlock := 0, active := 1, waitQueue := q\<rparr> =
    \<lparr>waitQueue = q, counter = c, spinlock = 0, active = 1\<rparr>" by (cases "semaphores k (nat i)") simp
  have s: "isValidSemId i = 0" "semManager k1 \<noteq> 0" "l_addr q \<noteq> 0"
    "semaphores k1 = (semaphores k)(nat i := \<lparr>waitQueue = q, counter = c, spinlock = 0, active = 1\<rparr>)"
    using assms q e isValid_cases [of i] by (auto simp: sem_create_def Let_def split: if_splits)
  then show "isValidSemId i = 0" "semManager k1 \<noteq> 0" by simp_all
  show "\<exists>q. semaphores k1 = (semaphores k)(nat i := \<lparr>waitQueue = q, counter = c, spinlock = 0, active = 1\<rparr>) \<and>
    l_addr q \<noteq> 0 \<and> l_items q = []"
    using s(3,4) l by blast
qed

lemma find_upt:
  assumes "List.find P [0..<n] = Some i"
  shows "i < n" and "P i" and "\<forall>j < i. \<not> P j"
  using assms by (auto simp: find_Some_iff)

text \<open>
  When \<open>createPipe\<close> succeeds it returns 3 plus the index of the first closed pipe, which is now open,
  empty, with all its 512 places free and its three semaphores of the next free ids; no other pipe changes.
\<close>

theorem createPipe_ready:
  assumes "createPipe k = Some (v, k')" and "0 \<le> v"
  shows "\<exists>i < MAX_PIPES. v = int i + 3 \<and> isOpen (pipes k i) = 0 \<and> (\<forall>j < i. isOpen (pipes k j) \<noteq> 0) \<and>
    channel k' i PIPE_BUFFER_SIZE 0 \<and> validatePipeId v k' = int i \<and> (\<forall>j. j \<noteq> i \<longrightarrow> pipes k' j = pipes k j) \<and>
    next_sem_id k' = next_sem_id k + 3"
proof -
  let ?s = "next_sem_id k"
  from assms obtain i where f: "List.find (\<lambda>i. isOpen (pipes k i) = 0) [0..<MAX_PIPES] = Some i"
    by (cases "List.find (\<lambda>i. isOpen (pipes k i) = 0) [0..<MAX_PIPES]") (auto simp: createPipe_def)
  note F = find_upt [OF f]
  let ?k1 = "update_pipe i (\<lambda>p. p\<lparr>readIdx := 0, writeIdx := 0, count := 0, readers := 1, writers := 1,
     buffer := (\<lambda>j. if j < PIPE_BUFFER_SIZE then 0 else buffer p j), isOpen := 1,
     semReaders := ?s, semWriters := ?s + 1, mutex := ?s + 2\<rparr>) (k\<lparr>next_sem_id := ?s + 3\<rparr>)"
  define k1 where "k1 = ?k1"
  define p where "p = pipes k1 i"
  from assms(1) f have "(do {
            (a, k2) \<leftarrow> sem_create ?s 0 k1;
            if a < 0 then Some (- 1, k2)
            else do {
              (b, k3) \<leftarrow> sem_create (?s + 1) (of_nat PIPE_BUFFER_SIZE) k2;
              if b < 0 then Some (- 1, k3)
              else do {
                (c, k4) \<leftarrow> sem_create (?s + 2) 1 k3;
                if c < 0 then Some (- 1, k4) else Some (int i + 3, k4)
              }
            }
          }) = Some (v, k')" by (simp only: createPipe_def Let_def k1_def option.case)
  with assms(2) obtain a k2 b k3 c where C: "sem_create ?s 0 k1 = Some (a, k2)" "0 \<le> a"
    "sem_create (?s + 1) (of_nat PIPE_BUFFER_SIZE) k2 = Some (b, k3)" "0 \<le> b" "sem_create (?s + 2) 1 k3 = Some (c, k')" "0 \<le> c" "v = int i + 3"
    by (auto simp: bind_eq_Some_conv not_less split: if_splits)
  note s1 = sem_create_success [OF C(1,2)] and s2 = sem_create_success [OF C(3,4)] and s3 = sem_create_success [OF C(5,6)]
  obtain q1 q2 q3 where q: "semaphores k2 = (semaphores k1)(nat ?s := \<lparr>waitQueue = q1, counter = 0, spinlock = 0, active = 1\<rparr>)"
    "l_addr q1 \<noteq> 0" "l_items q1 = []"
    "semaphores k3 = (semaphores k2)(nat (?s + 1) := \<lparr>waitQueue = q2, counter = of_nat PIPE_BUFFER_SIZE, spinlock = 0, active = 1\<rparr>)"
    "l_addr q2 \<noteq> 0" "l_items q2 = []"
    "semaphores k' = (semaphores k3)(nat (?s + 2) := \<lparr>waitQueue = q3, counter = 1, spinlock = 0, active = 1\<rparr>)"
    "l_addr q3 \<noteq> 0" "l_items q3 = []"
    using s1(3) s2(3) s3(3) by blast
  have s0: "0 \<le> ?s" using s1(1) by (auto simp: isValidSemId_def split: if_splits)
  have d: "nat (?s + 1) \<noteq> nat ?s" "nat (?s + 2) \<noteq> nat ?s" "nat (?s + 2) \<noteq> nat (?s + 1)" using s0 by auto
  have quiet: "quiet k' ?s 0" "quiet k' (?s + 1) PIPE_BUFFER_SIZE" "quiet k' (?s + 2) 1"
    using q d s1(1) s2(1) s3(1,2) by (simp_all add: quiet_def sem_ok_def Let_def PIPE_BUFFER_SIZE_def)
  have pk: "pipes k' = (pipes k)(i := p)" "next_sem_id k' = ?s + 3"
    using pipes_create [OF C(1)] pipes_create [OF C(3)] pipes_create [OF C(5)] by (simp_all add: p_def k1_def)
  have pf: "semReaders p = ?s" "semWriters p = ?s + 1" "mutex p = ?s + 2" "count p = 0" "writers p = 1" "isOpen p = 1"
    "readIdx p = 0" "writeIdx p = 0" by (simp_all add: p_def k1_def)
  have "channel k' i PIPE_BUFFER_SIZE 0"
    using quiet pk pf d by (simp add: channel_def Let_def pipe_inv_def)
  moreover have "validatePipeId v k' = int i" using F(1) C(7) pk pf by (simp add: validatePipeId_def)
  ultimately show ?thesis using F C(7) pk by (intro exI [of _ i]) simp
qed

theorem createPipe_ready_witness:
  "\<exists>k'. createPipe (demo_pipes 103) = Some (4, k') \<and> channel k' 1 512 0"
proof -
  have e: "\<exists>k'. createPipe (demo_pipes 103) = Some (4, k')"
    by (simp add: createPipe_def demo_pipes_fields MAX_PIPES_def upt_rec empty_pipe_def closed_pipe_def sem_create_def
      isValidSemId_def NUM_SEMS_def clear_sem_def seq_create_def sizeof_list_def Let_def small_mm_def small_buddy_def buddy_alloc_def
      getExponent_def getExponent_from.simps POW2_def sub64_def add64_def MIN_EXP_def findFreeNode.simps splitTree.simps
      setSplitedChildren_def getNodeLevel_def)
  then obtain k' where k': "createPipe (demo_pipes 103) = Some (4, k')" ..
  from createPipe_ready [OF k'] k' show ?thesis by (auto simp: PIPE_BUFFER_SIZE_def)
qed

lemma sem_create_total: "semManager k \<noteq> 0 \<Longrightarrow> \<exists>v k'. sem_create i c k = Some (v, k') \<and> semManager k' \<noteq> 0 \<and> (isValidSemId i = - 1 \<longrightarrow> v = - 1)"
  by (simp add: sem_create_def Let_def split: prod.splits)

text \<open>
  The semaphore ids only grow: once the next one is above 125 (from 100 on, after the ninth call)
  every \<open>createPipe\<close> fails, for good, and yet marks the first closed pipe as open.
\<close>

theorem createPipe_exhausted:
  assumes "semManager k \<noteq> 0" and "next_sem_id k \<ge> int NUM_SEMS - 2"
  shows "\<exists>k'. createPipe k = Some (- 1, k') \<and> semManager k' \<noteq> 0 \<and> next_sem_id k' \<ge> int NUM_SEMS - 2 \<and>
    {i. i < MAX_PIPES \<and> isOpen (pipes k' i) = 0} =
      {i. i < MAX_PIPES \<and> isOpen (pipes k i) = 0} - {LEAST i. isOpen (pipes k i) = 0}"
proof (cases "List.find (\<lambda>i. isOpen (pipes k i) = 0) [0..<MAX_PIPES]")
  case None
  then have "{i. i < MAX_PIPES \<and> isOpen (pipes k i) = 0} = {}" by (auto simp: find_None_iff)
  with None assms show ?thesis by (intro exI [of _ k]) (simp add: createPipe_def)
next
  case (Some i)
  note F = find_upt [OF Some]
  let ?s = "next_sem_id k"
  let ?k1 = "update_pipe i (\<lambda>p. p\<lparr>readIdx := 0, writeIdx := 0, count := 0, readers := 1, writers := 1,
     buffer := (\<lambda>j. if j < PIPE_BUFFER_SIZE then 0 else buffer p j), isOpen := 1,
     semReaders := ?s, semWriters := ?s + 1, mutex := ?s + 2\<rparr>) (k\<lparr>next_sem_id := ?s + 3\<rparr>)"
  have m1: "semManager ?k1 \<noteq> 0" using assms(1) by simp
  obtain a k2 where c1: "sem_create ?s 0 ?k1 = Some (a, k2)" "semManager k2 \<noteq> 0" using sem_create_total [OF m1] by blast
  obtain b k3 where c2: "sem_create (?s + 1) (of_nat PIPE_BUFFER_SIZE) k2 = Some (b, k3)" "semManager k3 \<noteq> 0"
    using sem_create_total [OF c1(2)] by blast
  have inv: "isValidSemId (?s + 2) = - 1" using assms(2) by (simp add: isValidSemId_def NUM_SEMS_def)
  obtain k4 where c3: "sem_create (?s + 2) 1 k3 = Some (- 1, k4)" "semManager k4 \<noteq> 0"
    using sem_create_total [OF c2(2), of "?s + 2" 1] inv by blast
  let ?k' = "if a < 0 then k2 else if b < 0 then k3 else k4"
  have call: "createPipe k = Some (- 1, ?k')"
    using Some c1(1) c2(1) c3(1) by (simp add: createPipe_def Let_def)
  note p1 = pipes_create [OF c1(1)] and p2 = pipes_create [OF c2(1)] and p3 = pipes_create [OF c3(1)]
  have pk: "pipes ?k' = pipes ?k1" "next_sem_id ?k' = ?s + 3" "semManager ?k' \<noteq> 0"
    using p1 p2 p3 c1(2) c2(2) c3(2) by simp_all
  have least: "(LEAST i. isOpen (pipes k i) = 0) = i"
    using F(2,3) by (intro Least_equality) (auto simp: not_le [symmetric])
  have "{j. j < MAX_PIPES \<and> isOpen (pipes ?k' j) = 0} = {j. j < MAX_PIPES \<and> isOpen (pipes k j) = 0} - {i}"
    unfolding pk(1) by auto
  then show ?thesis using call pk(2,3) assms(2) by (intro exI [of _ ?k']) (simp only: least, simp)
qed

theorem createPipe_exhausted_witness:
  "\<exists>k'. createPipe (demo_pipes 127) = Some (- 1, k') \<and> isOpen (pipes k' 1) \<noteq> 0"
proof -
  have h: "semManager (demo_pipes 127) \<noteq> 0" "next_sem_id (demo_pipes 127) \<ge> int NUM_SEMS - 2"
    by (simp_all add: demo_pipes_fields NUM_SEMS_def)
  have "(LEAST i. isOpen (pipes (demo_pipes 127) i) = 0) = 1"
    by (rule Least_equality) (auto simp: demo_pipes_fields empty_pipe_def closed_pipe_def split: if_splits)
  with createPipe_exhausted [OF h] obtain k' where k': "createPipe (demo_pipes 127) = Some (- 1, k')"
    "{i. i < MAX_PIPES \<and> isOpen (pipes k' i) = 0} = {i. i < MAX_PIPES \<and> isOpen (pipes (demo_pipes 127) i) = 0} - {1}" by auto
  from k'(2) have "\<not> (1 < MAX_PIPES \<and> isOpen (pipes k' 1) = 0)" by blast
  with k'(1) show ?thesis by (auto simp: MAX_PIPES_def)
qed

lemma post_times_quiet:
  assumes "quiet k i n" and "n + m < 2 ^ 32"
  shows "\<exists>k'. post_times m i k = Some k' \<and> quiet k' i (n + m) \<and> (\<forall>x c. nat x \<noteq> nat i \<longrightarrow> quiet k' x c = quiet k x c) \<and>
    sem_kernel.more k' = sem_kernel.more k \<and> sched_view k' = sched_view k"
  using assms
proof (induction m arbitrary: k n)
  case 0
  then show ?case by simp
next
  case (Suc m)
  let ?k = "update_sem i (counter_update (\<lambda>c. c + 1)) k"
  have b: "Suc n < 2 ^ 32" "Suc n + m < 2 ^ 32" using Suc.prems(2) by simp_all
  note p = quiet_post [OF Suc.prems(1) b(1)]
  from Suc.IH [OF p(2) b(2)] obtain k' where "post_times m i ?k = Some k'" "quiet k' i (Suc n + m)"
    "\<forall>x c. nat x \<noteq> nat i \<longrightarrow> quiet k' x c = quiet ?k x c" "sem_kernel.more k' = sem_kernel.more ?k" "sched_view k' = sched_view ?k" by blast
  then show ?case using p(1) by (intro exI [of _ k']) simp
qed

lemma sem_destroy_quiet:
  assumes "quiet k i n"
  shows "\<exists>k'. sem_destroy i k = Some (0, k') \<and> semaphores k' (nat i) = clear_sem \<and>
    (\<forall>x. x \<noteq> nat i \<longrightarrow> semaphores k' x = semaphores k x) \<and> semManager k' = semManager k \<and> pid_cells k' = pid_cells k \<and>
    sem_kernel.more k' = sem_kernel.more k \<and> sched_view k' = sched_view k"
proof -
  let ?k = "update_sem i (\<lambda>_. clear_sem) (k\<lparr>k_mm := seq_free (waitQueue (semaphores k (nat i))) (k_mm k)\<rparr>)"
  have "sem_destroy i k = Some (0, ?k)" using assms by (simp add: sem_destroy_def quiet_def sem_ok_def Let_def)
  then show ?thesis by (intro exI [of _ ?k]) (simp add: update_sem_def)
qed

lemma quiet_cong:
  assumes "semaphores k' (nat i) = semaphores k (nat i)" "semManager k' = semManager k" "pid_cells k' = pid_cells k"
  shows "quiet k' i n = quiet k i n"
  using assms by (simp add: quiet_def sem_ok_def)

text \<open>
  The last writer that closes a pipe nobody waits for (it holds the mutex) gets 0: the pipe's id is no longer valid,
  its three semaphores are inactive and what was still in the pipe is gone, so it cannot be read any more.
\<close>

theorem closePipe_closes:
  assumes "pipe_inv (pipes k j)" and "writers (pipes k j) = 1" and "j < MAX_PIPES"
    and "distinct [nat (semReaders (pipes k j)), nat (semWriters (pipes k j)), nat (mutex (pipes k j))]"
    and "quiet k (semWriters (pipes k j)) f" "quiet k (semReaders (pipes k j)) u" "quiet k (mutex (pipes k j)) 0"
    and "u \<le> PIPE_BUFFER_SIZE"
  shows "\<exists>k'. closePipe_step r (Locked j) k = Some (Done 0, k') \<and> validatePipeId (int j + 3) k' = - 1 \<and>
    pipe_bytes (pipes k' j) = [] \<and> sched_view k' = sched_view k \<and>
    (\<forall>i \<in> {semReaders (pipes k j), semWriters (pipes k j), mutex (pipes k j)}. semaphores k' (nat i) = clear_sem) \<and>
    readPipe_step r (start_transfer (int j + 3) False b n k') k' = Some (start_transfer (int j + 3) False b n k', k') \<and>
    t_pc (start_transfer (int j + 3) False b n k') = Returned (- 1)"
proof -
  let ?p = "pipes k j"
  let ?k1 = "update_pipe j (writers_update (\<lambda>w. w - 1)) k"
  have u: "u + PIPE_BUFFER_SIZE < 2 ^ 32" using assms(8) by (simp add: PIPE_BUFFER_SIZE_def)
  have "quiet ?k1 (semReaders ?p) u" using assms(6) by simp
  from post_times_quiet [OF this u] obtain k2 where K2: "post_times PIPE_BUFFER_SIZE (semReaders ?p) ?k1 = Some k2"
    "quiet k2 (semReaders ?p) (u + PIPE_BUFFER_SIZE)" "\<And>x c. nat x \<noteq> nat (semReaders ?p) \<Longrightarrow> quiet k2 x c = quiet ?k1 x c"
    "sem_kernel.more k2 = sem_kernel.more ?k1" "sched_view k2 = sched_view k" by auto
  have m2: "quiet k2 (mutex ?p) 0" "quiet k2 (semWriters ?p) f" using K2(3) assms(4,5,7) by auto
  note p3 = quiet_post [OF m2(1)]
  let ?k3 = "update_sem (mutex ?p) (counter_update (\<lambda>c. c + 1)) k2"
  have m3: "quiet ?k3 (mutex ?p) 1" "quiet ?k3 (semWriters ?p) f" "quiet ?k3 (semReaders ?p) (u + PIPE_BUFFER_SIZE)"
    using p3(2) m2(2) K2(2) assms(4) by auto
  from sem_destroy_quiet [OF m3(3)] obtain k4 where K4: "sem_destroy (semReaders ?p) ?k3 = Some (0, k4)"
    "semaphores k4 (nat (semReaders ?p)) = clear_sem" "\<forall>x. x \<noteq> nat (semReaders ?p) \<longrightarrow> semaphores k4 x = semaphores ?k3 x"
    "semManager k4 = semManager ?k3" "pid_cells k4 = pid_cells ?k3" "sem_kernel.more k4 = sem_kernel.more ?k3" "sched_view k4 = sched_view ?k3" by blast
  have m4: "quiet k4 (mutex ?p) 1" "quiet k4 (semWriters ?p) f"
    using quiet_cong [OF _ K4(4,5)] K4(3) m3(1,2) assms(4) by (metis distinct_length_2_or_more)+
  from sem_destroy_quiet [OF m4(2)] obtain k5 where K5: "sem_destroy (semWriters ?p) k4 = Some (0, k5)"
    "semaphores k5 (nat (semWriters ?p)) = clear_sem" "\<forall>x. x \<noteq> nat (semWriters ?p) \<longrightarrow> semaphores k5 x = semaphores k4 x"
    "semManager k5 = semManager k4" "pid_cells k5 = pid_cells k4" "sem_kernel.more k5 = sem_kernel.more k4" "sched_view k5 = sched_view k4" by blast
  have m5: "quiet k5 (mutex ?p) 1"
    using quiet_cong [OF _ K5(4,5)] K5(3) m4(1) assms(4) by (metis distinct_length_2_or_more)
  from sem_destroy_quiet [OF m5] obtain k6 where K6: "sem_destroy (mutex ?p) k5 = Some (0, k6)"
    "semaphores k6 (nat (mutex ?p)) = clear_sem" "\<forall>x. x \<noteq> nat (mutex ?p) \<longrightarrow> semaphores k6 x = semaphores k5 x"
    "sem_kernel.more k6 = sem_kernel.more k5" "sched_view k6 = sched_view k5" by blast
  let ?k = "update_pipe j (\<lambda>p. p\<lparr>isOpen := 0, readIdx := 0, writeIdx := 0, count := 0, readers := 0, writers := 0,
         semReaders := - 1, semWriters := - 1\<rparr>) k6"
  have post: "sem_post (mutex ?p) k2 = Some (0, ?k3)" using p3(1) by simp
  have call: "closePipe_step r (Locked j) k = Some (Done 0, ?k)"
    using assms(2) K2(1) post K4(1) K5(1) K6(1) by (simp add: closePipe_step_def closePipe_critical_def Let_def)
  have closed: "validatePipeId (int j + 3) ?k = - 1" using assms(3) by (simp add: validatePipeId_def)
  have sems: "semaphores ?k (nat i) = clear_sem" if "i \<in> {semReaders ?p, semWriters ?p, mutex ?p}" for i
    using that K4(2) K5(2,3) K6(2,3) assms(4) by auto
  have t: "t_pc (start_transfer (int j + 3) False b n ?k) = Returned (- 1)" using closed by (simp add: start_transfer_def)
  then have "readPipe_step r (start_transfer (int j + 3) False b n ?k) ?k = Some (start_transfer (int j + 3) False b n ?k, ?k)"
    by (simp add: readPipe_step_def Let_def)
  with call closed sems t K2(5) K4(7) K5(7) K6(5) show ?thesis
    by (intro exI [of _ ?k]) (simp add: pipe_bytes_def ring_def)
qed

theorem closePipe_closes_witness:
  "\<exists>k'. closePipe_step 0 (Locked 0) (update_sem 102 (counter_update (\<lambda>_. 0)) (demo_pipes 103)) = Some (Done 0, k') \<and>
     validatePipeId 3 k' = - 1"
proof -
  let ?k = "update_sem 102 (counter_update (\<lambda>_. 0)) (demo_pipes 103)"
  have p: "pipes ?k 0 = empty_pipe" by (simp add: update_sem_def demo_pipes_fields)
  have h: "pipe_inv (pipes ?k 0)" "writers (pipes ?k 0) = 1" "(0 :: nat) < MAX_PIPES"
    "distinct [nat (semReaders (pipes ?k 0)), nat (semWriters (pipes ?k 0)), nat (mutex (pipes ?k 0))]"
    "quiet ?k (semWriters (pipes ?k 0)) 512" "quiet ?k (semReaders (pipes ?k 0)) 0" "quiet ?k (mutex (pipes ?k 0)) 0"
    "(0 :: nat) \<le> PIPE_BUFFER_SIZE"
    unfolding p by (simp_all add: empty_pipe_def pipe_inv_def MAX_PIPES_def quiet_def sem_ok_def Let_def demo_pipes_fields
      isValidSemId_def NUM_SEMS_def)
  from closePipe_closes [OF h, of 0 "\<lambda>_. 0" 1] show ?thesis by auto
qed

text \<open>
  \<open>clearPipe\<close> empties the ring buffer and leaves the semaphores as they are: the pipe is empty, but its u bytes
  are still counted by the readers' semaphore, and the writers never get their u places back.
\<close>

theorem clearPipe_loses_room:
  assumes "channel k j f u" and "validatePipeId i k = int j"
  shows "\<exists>k1 k2. clearPipe_step r (Called i) k = Some (Locked j, k1) \<and> clearPipe_step r (Locked j) k1 = Some (Done 0, k2) \<and>
    pipe_bytes (pipes k2 j) = [] \<and> quiet k2 (semWriters (pipes k2 j)) f \<and> quiet k2 (semReaders (pipes k2 j)) u \<and>
    quiet k2 (mutex (pipes k2 j)) 1"
proof -
  let ?p = "pipes k j"
  have c: "distinct [nat (semReaders ?p), nat (semWriters ?p), nat (mutex ?p)]"
    "quiet k (semWriters ?p) f" "quiet k (semReaders ?p) u" "quiet k (mutex ?p) (Suc 0)" using assms(1) by (auto simp: channel_def Let_def)
  note w = quiet_wait [OF c(4)]
  let ?k1 = "update_sem (mutex ?p) (counter_update (\<lambda>c. c - 1)) k"
  have p1: "pipes ?k1 = pipes k" by (simp add: update_sem_def)
  have s1: "clearPipe_step r (Called i) k = Some (Locked j, ?k1)"
    using assms(2) w(1) [of r] by (simp add: clearPipe_step_def enter_locked_def Let_def)
  let ?k2 = "update_pipe j (\<lambda>p. p\<lparr>readIdx := 0, writeIdx := 0, count := 0\<rparr>) ?k1"
  have q2: "quiet ?k2 (mutex ?p) 0" using w(2) by simp
  note p = quiet_post [OF q2]
  let ?k3 = "update_sem (mutex ?p) (counter_update (\<lambda>c. c + 1)) ?k2"
  have s2: "clearPipe_step r (Locked j) ?k1 = Some (Done 0, ?k3)"
    using p(1) p1 by (simp add: clearPipe_step_def clearPipe_critical_def)
  have p3: "pipes ?k3 j = ?p\<lparr>readIdx := 0, writeIdx := 0, count := 0\<rparr>" by (simp add: update_sem_def update_pipe_def)
  have "quiet ?k3 (semWriters ?p) f" "quiet ?k3 (semReaders ?p) u" "quiet ?k3 (mutex ?p) 1" using c p(2) by auto
  then have "pipe_bytes (pipes ?k3 j) = [] \<and> quiet ?k3 (semWriters (pipes ?k3 j)) f \<and>
    quiet ?k3 (semReaders (pipes ?k3 j)) u \<and> quiet ?k3 (mutex (pipes ?k3 j)) 1"
    unfolding p3 by (simp add: pipe_bytes_def ring_def)
  with s1 s2 show ?thesis by blast
qed

theorem clearPipe_loses_room_witness:
  "\<exists>k1 k2. clearPipe_step 0 (Called 3) (demo_pipes 103) = Some (Locked 0, k1) \<and> clearPipe_step 0 (Locked 0) k1 = Some (Done 0, k2)"
proof -
  have v: "validatePipeId 3 (demo_pipes 103) = int 0"
    by (simp add: validatePipeId_def demo_pipes_fields empty_pipe_def MAX_PIPES_def)
  from clearPipe_loses_room [OF demo_channel v, of 0] show ?thesis by blast
qed

end
