(* ===== verification/Keyboard.thy ===== *)
theory Keyboard
  imports Pipes
begin

text \<open>
  \<open>Kernel/utils/drivers/keyboard.c\<close>: the interrupt handler that turns scancodes into a ring buffer of keys, with the state of the
  control and shift keys, and the consumer \<open>getAscii\<close>, that waits for a key on a semaphore. The scancode
  \<open>getKeyPressed\<close> reads from the controller is an argument; the echo of Ctrl+D is output and has no model.
\<close>

definition BUFFER_CAPACITY :: nat where "BUFFER_CAPACITY = 10"
definition LCTRL :: byte where "LCTRL = 29"
definition LSHIFT :: byte where "LSHIFT = 42"
definition C_KEY :: byte where "C_KEY = 0x2E"
definition D_KEY :: byte where "D_KEY = 0x20"
definition RELEASED :: byte where "RELEASED = 0x80"
definition SHIFTED :: byte where "SHIFTED = 0x80"
definition EOF :: int where "EOF = - 1"
definition KEYBOARD_SEM_ID :: int where "KEYBOARD_SEM_ID = 0"

text \<open>The two tables, as bytes. The first has 256 entries, the second only those written.\<close>

definition charHexMap :: "byte list" where
  "charHexMap = [0, 0, 49, 50, 51, 52, 53, 54, 55, 56, 57, 48, 45, 61, 8, 32, 113, 119, 101, 114, 116, 121,
     117, 105, 111, 112, 91, 93, 10, 0, 97, 115, 100, 102, 103, 104, 106, 107, 108, 59, 39, 0, 0, 92,
     122, 120, 99, 118, 98, 110, 109, 44, 46, 47, 0, 42, 0, 32, 0, 0, 0, 0, 0, 0] @ replicate 192 0"

definition charHexMapShift :: "byte list" where
  "charHexMapShift = [0, 0, 33, 64, 35, 36, 37, 94, 38, 42, 40, 41, 95, 43, 8, 32, 81, 87, 69, 82, 84, 89,
     85, 73, 79, 80, 123, 125, 10, 0, 65, 83, 68, 70, 71, 72, 74, 75, 76, 58, 34, 0, 0, 124,
     90, 88, 67, 86, 66, 78, 77, 60, 62, 63, 0, 42, 0, 32, 0, 0, 0, 0, 0, 0]"

record kb_kernel = pipe_kernel +
  bufferStart :: nat
  bufferSize :: nat
  key_buffer :: "nat \<Rightarrow> byte"
  ctrl :: byte
  shift :: byte

definition getBufferIndex :: "nat \<Rightarrow> 'a kb_kernel_scheme \<Rightarrow> nat" where
  "getBufferIndex offset k = (bufferStart k + offset) mod BUFFER_CAPACITY"

definition initializeKeyboardDriver :: "'a sem_kernel_scheme \<Rightarrow> (int \<times> 'a sem_kernel_scheme) option" where
  "initializeKeyboardDriver k = sem_create KEYBOARD_SEM_ID 0 k"

text \<open>The test of \<open>writeKey\<close>: a key of the table, or \<open>EOF\<close> as a char.\<close>

definition key_accepted :: "byte \<Rightarrow> bool" where
  "key_accepted key = (charHexMap ! unat (key AND 0x7F) \<noteq> 0 \<or> sint key = EOF)"

definition writeKey :: "byte \<Rightarrow> 'a kb_kernel_scheme \<Rightarrow> 'a kb_kernel_scheme option" where
  "writeKey key k =
     (if key_accepted key then do {
        let k1 = k\<lparr>key_buffer := (key_buffer k)(getBufferIndex (bufferSize k) k := key), bufferSize := bufferSize k + 1\<rparr>;
        (v, k2) \<leftarrow> sem_post KEYBOARD_SEM_ID k1;
        Some k2
      }
      else Some k)"

definition keyboardHandler :: "byte \<Rightarrow> 'a kb_kernel_scheme \<Rightarrow> 'a kb_kernel_scheme option" where
  "keyboardHandler key k =
     (if key AND RELEASED = 0 then
        if key = LCTRL then Some (k\<lparr>ctrl := 1\<rparr>)
        else if key = LSHIFT then Some (k\<lparr>shift := 1\<rparr>)
        else if ctrl k \<noteq> 0 then
          if key = C_KEY then do {
            (v, k1) \<leftarrow> killForegroundProcess (k\<lparr>bufferStart := 0, bufferSize := 0\<rparr>);
            Some k1
          }
          else if key = D_KEY \<and> bufferSize k < BUFFER_CAPACITY - 1 then writeKey (word_of_int EOF) k
          else Some k
        else if bufferSize k < BUFFER_CAPACITY - 1 then
          writeKey (if shift k \<noteq> 0 then SHIFTED OR key else key) k
        else Some k
      else if key = LCTRL OR RELEASED then Some (k\<lparr>ctrl := 0\<rparr>)
      else if key = LSHIFT OR RELEASED then Some (k\<lparr>shift := 0\<rparr>)
      else Some k)"

text \<open>\<open>getScancode\<close> returns a \<open>char\<close>.\<close>

definition getScancode :: "'a kb_kernel_scheme \<Rightarrow> byte \<times> 'a kb_kernel_scheme" where
  "getScancode k =
     (if bufferSize k > 0 then
        (key_buffer k (getBufferIndex 0 k), k\<lparr>bufferStart := getBufferIndex 1 k, bufferSize := bufferSize k - 1\<rparr>)
      else (0, k))"

text \<open>Lines 109-116; the char is widened to an \<open>int\<close>.\<close>

definition ascii_of :: "byte \<Rightarrow> int" where
  "ascii_of c = (let scanCode = (scast c :: 32 word) in
     if sint scanCode = EOF then EOF
     else if ucast SHIFTED AND scanCode \<noteq> 0 then sint (charHexMapShift ! unat (scanCode AND 0x7F))
     else sint (charHexMap ! unat scanCode))"

text \<open>\<open>getAscii\<close> waits once: the machine is before the wait, after it, or has the result.\<close>

datatype ascii_pc = AskKey | TakeKey | GotKey int

definition getAscii_step :: "nat \<Rightarrow> ascii_pc \<Rightarrow> 'a kb_kernel_scheme \<Rightarrow> (ascii_pc \<times> 'a kb_kernel_scheme) option" where
  "getAscii_step r pc k = (case pc of
     AskKey \<Rightarrow> do { (v, k1) \<leftarrow> sem_wait KEYBOARD_SEM_ID r k; Some (TakeKey, k1) }
   | TakeKey \<Rightarrow> (let (c, k1) = getScancode k in Some (GotKey (ascii_of c), k1))
   | GotKey v \<Rightarrow> Some (pc, k))"

section \<open>The keyboard as a bounded queue of keys\<close>

definition kb_keys :: "'a kb_kernel_scheme \<Rightarrow> byte list" where
  "kb_keys k = ring (key_buffer k) (bufferStart k) (bufferSize k) BUFFER_CAPACITY"

text \<open>The ring buffer never holds more than nine keys, and only keys \<open>writeKey\<close> accepts.\<close>

definition kb_ok :: "'a kb_kernel_scheme \<Rightarrow> bool" where
  "kb_ok k = (bufferStart k < BUFFER_CAPACITY \<and> bufferSize k < BUFFER_CAPACITY \<and> (\<forall>c \<in> set (kb_keys k). key_accepted c))"

text \<open>What a scancode does to the control key, the shift key and the keys that wait.\<close>

definition press :: "byte \<Rightarrow> bool \<times> bool \<times> byte list \<Rightarrow> bool \<times> bool \<times> byte list" where
  "press key s = (case s of (c, sh, ks) \<Rightarrow>
     let push = (\<lambda>x. if length ks < 9 \<and> key_accepted x then (c, sh, ks @ [x]) else (c, sh, ks)) in
     if key AND RELEASED = 0 then
       if key = LCTRL then (True, sh, ks)
       else if key = LSHIFT then (c, True, ks)
       else if c then (if key = C_KEY then (c, sh, []) else if key = D_KEY then push (- 1) else (c, sh, ks))
       else push (if sh then SHIFTED OR key else key)
     else if key = LCTRL OR RELEASED then (False, sh, ks)
     else if key = LSHIFT OR RELEASED then (c, False, ks)
     else (c, sh, ks))"

definition kb_abs :: "'a kb_kernel_scheme \<Rightarrow> bool \<times> bool \<times> byte list" where
  "kb_abs k = (ctrl k \<noteq> 0, shift k \<noteq> 0, kb_keys k)"

lemma kb_more:
  fixes k k' :: "'a kb_kernel_scheme"
  assumes "sem_kernel.more k' = sem_kernel.more k"
  shows "bufferStart k' = bufferStart k" and "bufferSize k' = bufferSize k" and "key_buffer k' = key_buffer k"
    and "ctrl k' = ctrl k" and "shift k' = shift k"
  using assms by (cases k; cases k'; simp)+

lemma kb_more_abs:
  fixes k k' :: "'a kb_kernel_scheme"
  assumes "sem_kernel.more k' = sem_kernel.more k"
  shows "kb_abs k' = kb_abs k" and "kb_keys k' = kb_keys k" and "kb_ok k' = kb_ok k"
  using kb_more [OF assms] by (simp_all add: kb_abs_def kb_keys_def kb_ok_def)

lemma kb_length: "length (kb_keys k) = bufferSize k"
  by (simp add: kb_keys_def ring_def)

lemma writeKey_lemma:
  assumes "kb_ok k" and "bufferSize k < BUFFER_CAPACITY - 1" and "writeKey key k = Some k'"
  shows "kb_ok k' \<and> kb_abs k' = (ctrl k \<noteq> 0, shift k \<noteq> 0, if key_accepted key then kb_keys k @ [key] else kb_keys k)"
proof (cases "key_accepted key")
  case False
  with assms show ?thesis by (simp add: writeKey_def kb_abs_def)
next
  case True
  let ?k = "k\<lparr>key_buffer := (key_buffer k)(getBufferIndex (bufferSize k) k := key), bufferSize := bufferSize k + 1\<rparr>"
  from True assms(3) obtain v where "sem_post KEYBOARD_SEM_ID ?k = Some (v, k')" by (auto simp: writeKey_def bind_eq_Some_conv)
  note m = kb_more_abs [OF sem_more_post [OF this]]
  have lt: "bufferSize k < BUFFER_CAPACITY" using assms(2) by (simp add: BUFFER_CAPACITY_def)
  have keys: "kb_keys ?k = kb_keys k @ [key]"
    using ring_put [OF lt, of "key_buffer k" "bufferStart k" key] by (simp add: kb_keys_def getBufferIndex_def)
  have "kb_ok ?k" using assms(1,2) True keys by (auto simp: kb_ok_def BUFFER_CAPACITY_def)
  with m keys True show ?thesis by (simp add: kb_abs_def)
qed

lemma getScancode_lemma:
  assumes "kb_ok k" and "getScancode k = (c, k')"
  shows "kb_ok k'" and "case kb_keys k of [] \<Rightarrow> c = 0 \<and> k' = k | x # xs \<Rightarrow> c = x \<and> kb_keys k' = xs"
    and "ctrl k' = ctrl k" and "shift k' = shift k"
proof -
  have "kb_ok k' \<and> (case kb_keys k of [] \<Rightarrow> c = 0 \<and> k' = k | x # xs \<Rightarrow> c = x \<and> kb_keys k' = xs)"
  proof (cases "bufferSize k = 0")
    case True
    then have "kb_keys k = []" by (simp add: kb_keys_def ring_def)
    with True assms show ?thesis by (simp add: getScancode_def)
  next
    case False
    have r: "bufferStart k < BUFFER_CAPACITY" using assms(1) by (simp add: kb_ok_def)
    have keys: "kb_keys k = key_buffer k (bufferStart k) #
        ring (key_buffer k) ((bufferStart k + 1) mod BUFFER_CAPACITY) (bufferSize k - 1) BUFFER_CAPACITY"
      unfolding kb_keys_def using False r by (intro ring_get) auto
    from False assms(2) r have k': "c = key_buffer k (bufferStart k)"
      "k' = k\<lparr>bufferStart := (bufferStart k + 1) mod BUFFER_CAPACITY, bufferSize := bufferSize k - 1\<rparr>"
      by (auto simp: getScancode_def getBufferIndex_def)
    have keys': "kb_keys k' = ring (key_buffer k) ((bufferStart k + 1) mod BUFFER_CAPACITY) (bufferSize k - 1) BUFFER_CAPACITY"
      by (simp add: k'(2) kb_keys_def)
    have "kb_ok k'" using assms(1) keys keys' by (auto simp: kb_ok_def k'(2) BUFFER_CAPACITY_def)
    then show ?thesis using keys keys' k'(1) by simp
  qed
  then show "kb_ok k'" "case kb_keys k of [] \<Rightarrow> c = 0 \<and> k' = k | x # xs \<Rightarrow> c = x \<and> kb_keys k' = xs" by simp_all
  show "ctrl k' = ctrl k" "shift k' = shift k" using assms(2) by (auto simp: getScancode_def split: if_splits)
qed

text \<open>An index of a key that is not 0 in the first table is in the second.\<close>

lemma charHexMap_index:
  assumes "i < 256" and "charHexMap ! i \<noteq> 0"
  shows "i < length charHexMapShift"
proof (rule ccontr)
  assume "\<not> i < length charHexMapShift"
  then have "64 \<le> i" by (simp add: charHexMapShift_def)
  then have "charHexMap ! i = 0" using assms(1) by (simp add: charHexMap_def nth_append)
  with assms(2) show False by simp
qed

lemma and_7F_less: "unat ((w :: byte) AND 0x7F) < 128"
proof -
  have "w AND 0x7F \<le> 0x7F" by (rule word_and_le1)
  then have "unat (w AND 0x7F) \<le> unat (0x7F :: byte)" by (simp add: word_le_nat_alt)
  then show ?thesis by simp
qed

lemma writeKey_code:
  "kb_ok k \<Longrightarrow> bufferSize k < BUFFER_CAPACITY - 1 \<Longrightarrow> writeKey key k = Some k' \<Longrightarrow> kb_ok k'"
  using writeKey_lemma [of k key k'] by blast

lemma keyboardHandler_lemma:
  assumes ok: "kb_ok k" and h: "keyboardHandler key k = Some k'"
  shows "kb_ok k' \<and> kb_abs k' = press key (kb_abs k)"
proof -
  let ?x = "if shift k \<noteq> 0 then SHIFTED OR key else key"
  have room: "bufferSize k < BUFFER_CAPACITY - 1 \<longleftrightarrow> length (kb_keys k) < 9" by (simp add: kb_length BUFFER_CAPACITY_def)
  consider (ctrl) "key AND RELEASED = 0" "key = LCTRL" | (shift) "key AND RELEASED = 0" "key \<noteq> LCTRL" "key = LSHIFT"
    | (c) "key AND RELEASED = 0" "key \<noteq> LCTRL" "key \<noteq> LSHIFT" "ctrl k \<noteq> 0" "key = C_KEY"
    | (d) "key AND RELEASED = 0" "key \<noteq> LCTRL" "key \<noteq> LSHIFT" "ctrl k \<noteq> 0" "key \<noteq> C_KEY" "key = D_KEY"
    | (other) "key AND RELEASED = 0" "key \<noteq> LCTRL" "key \<noteq> LSHIFT" "ctrl k \<noteq> 0" "key \<noteq> C_KEY" "key \<noteq> D_KEY"
    | (plain) "key AND RELEASED = 0" "key \<noteq> LCTRL" "key \<noteq> LSHIFT" "ctrl k = 0"
    | (released) "key AND RELEASED \<noteq> 0" by blast
  then show ?thesis
  proof cases
    case c
    have "C_KEY \<noteq> LCTRL" "C_KEY \<noteq> LSHIFT" by (simp_all add: C_KEY_def LCTRL_def LSHIFT_def)
    with h c obtain v where "killForegroundProcess (k\<lparr>bufferStart := 0, bufferSize := 0\<rparr>) = Some (v, k')"
      by (auto simp: keyboardHandler_def bind_eq_Some_conv)
    note m = kb_more_abs [OF sem_more_of_kernel_more [OF more_killForegroundProcess [OF this]]]
    have "kb_keys (k\<lparr>bufferStart := 0, bufferSize := 0\<rparr>) = []" by (simp add: kb_keys_def ring_def)
    then show ?thesis using m c by (simp add: kb_ok_def kb_abs_def press_def Let_def BUFFER_CAPACITY_def)
  next
    case d
    show ?thesis
    proof (cases "bufferSize k < BUFFER_CAPACITY - 1")
      case True
      then have "writeKey (word_of_int EOF) k = Some k'" using h d by (simp add: keyboardHandler_def D_KEY_def C_KEY_def)
      from writeKey_lemma [OF ok True this] show ?thesis
        using d True [unfolded room] by (simp add: press_def kb_abs_def EOF_def Let_def)
    next
      case False
      then show ?thesis using False [unfolded room] h d ok by (simp add: keyboardHandler_def press_def kb_abs_def Let_def)
    qed
  next
    case plain
    show ?thesis
    proof (cases "bufferSize k < BUFFER_CAPACITY - 1")
      case True
      then have "writeKey ?x k = Some k'" using h plain by (simp add: keyboardHandler_def split del: if_split)
      from writeKey_lemma [OF ok True this] show ?thesis
        using plain True [unfolded room]
        by (cases "key_accepted ?x") (simp_all add: press_def kb_abs_def Let_def split del: if_split)
    next
      case False
      then show ?thesis using False [unfolded room] h plain ok
        by (simp add: keyboardHandler_def press_def kb_abs_def Let_def split del: if_split)
    qed
  qed (use h ok in \<open>auto simp: keyboardHandler_def press_def kb_abs_def kb_ok_def kb_keys_def Let_def split: if_splits\<close>)
qed

section \<open>Properties\<close>

text \<open>For the witnesses: the keyboard of a kernel with the demo pipes, where semaphore 0 has value n.\<close>

definition demo_keys :: "nat \<Rightarrow> byte list \<Rightarrow> byte \<Rightarrow> kb_kernel" where
  "demo_keys n ks c = pipe_kernel.extend ((demo_pipes 103)\<lparr>semaphores :=
     (\<lambda>i. clear_sem)(0 := \<lparr>waitQueue = \<lparr>l_addr = 60, l_items = []\<rparr>, counter = of_nat n, spinlock = 0, active = 1\<rparr>)\<rparr>)
     (kb_kernel.fields 0 (length ks) (\<lambda>i. if i < length ks then ks ! i else 0) c 0)"

lemma demo_keys_fields:
  "bufferStart (demo_keys n ks c) = 0" "bufferSize (demo_keys n ks c) = length ks" "ctrl (demo_keys n ks c) = c" "shift (demo_keys n ks c) = 0"
  "key_buffer (demo_keys n ks c) = (\<lambda>i. if i < length ks then ks ! i else 0)"
  "semManager (demo_keys n ks c) = 500" "semaphores (demo_keys n ks c) 0 =
     \<lparr>waitQueue = \<lparr>l_addr = 60, l_items = []\<rparr>, counter = of_nat n, spinlock = 0, active = 1\<rparr>"
  by (simp_all add: demo_keys_def kb_kernel.defs demo_pipes_def pipe_kernel.defs sem_kernel.defs demo_sems_def kernel.defs demo_kernel_def)

lemma demo_keys_view: "sched_view (demo_keys n ks c) = sched_view demo_kernel"
  by (simp add: sched_view_def demo_keys_def kb_kernel.defs demo_pipes_def pipe_kernel.defs sem_kernel.defs demo_sems_def
      kernel.defs demo_kernel_def)

lemma demo_keys_quiet: "n < 2 ^ 32 \<Longrightarrow> quiet (demo_keys n ks c) KEYBOARD_SEM_ID n"
  by (simp add: quiet_def sem_ok_def demo_keys_fields KEYBOARD_SEM_ID_def isValidSemId_def NUM_SEMS_def)

lemma demo_keys_ok: "kb_ok (demo_keys n [] c)"
  by (simp add: kb_ok_def kb_keys_def ring_def demo_keys_fields BUFFER_CAPACITY_def)

text \<open>
  C14. The interrupt handler refines a bounded queue of keys: a plain key is appended, with its shift bit, when fewer
  than nine keys wait and the table knows it; Ctrl+D appends the end-of-file key, Ctrl+C empties the
  queue, the modifier keys only change their flags. \<open>getScancode\<close> takes the first key, or 0 when there is none.
\<close>

theorem keyboard_refines:
  assumes "kb_ok k"
  shows "(\<forall>key k'. keyboardHandler key k = Some k' \<longrightarrow> kb_ok k' \<and> kb_abs k' = press key (kb_abs k)) \<and>
    (\<forall>c k'. getScancode k = (c, k') \<longrightarrow> kb_ok k' \<and> (case kb_keys k of [] \<Rightarrow> c = 0 \<and> k' = k | x # xs \<Rightarrow> c = x \<and> kb_keys k' = xs))"
  using keyboardHandler_lemma [OF assms] getScancode_lemma [OF assms] by blast

theorem keyboard_refines_witness:
  "kb_abs (the (keyboardHandler LSHIFT (demo_keys 0 [] 0))) = (False, True, [])"
proof -
  have h: "keyboardHandler LSHIFT (demo_keys 0 [] 0) = Some (demo_keys 0 [] 0\<lparr>shift := 1\<rparr>)"
    by (simp add: keyboardHandler_def LSHIFT_def LCTRL_def RELEASED_def)
  from keyboard_refines [OF demo_keys_ok, of 0] h show ?thesis
    by (simp add: press_def kb_abs_def demo_keys_fields LSHIFT_def LCTRL_def RELEASED_def kb_keys_def ring_def)
qed

text \<open>The bit arithmetic on the codes of the table, by computation.\<close>

lemma key_codes:
  "\<forall>i < 64. (let key = word_of_nat i :: byte; sc = scast key :: 32 word; sh = scast (SHIFTED OR key) :: 32 word in
     key AND RELEASED = 0 \<and> key AND 0x7F = key \<and> (SHIFTED OR key) AND 0x7F = key \<and>
     sint sc \<noteq> EOF \<and> sint sh \<noteq> EOF \<and> ucast SHIFTED AND sc = 0 \<and> ucast SHIFTED AND sh \<noteq> 0 \<and> unat sc = i \<and> unat (sh AND 0x7F) = i)"
  by code_simp

lemma key_code:
  fixes key :: byte
  assumes "unat key < 64"
  shows "key AND RELEASED = 0" and "key AND 0x7F = key" and "(SHIFTED OR key) AND 0x7F = key"
    and "ascii_of key = sint (charHexMap ! unat key)" and "ascii_of (SHIFTED OR key) = sint (charHexMapShift ! unat key)"
  using key_codes [rule_format, OF assms] by (auto simp: Let_def ascii_of_def)

text \<open>
  A key that is pressed is the key that is read: with no key waiting and nobody blocked on the keyboard, the
  handler's key passes through the semaphore and the ring buffer to \<open>getAscii\<close>, which does not block and returns the
  entry of the table that the shift key selects. Afterwards the keyboard is as before.
\<close>

theorem key_press_read:
  assumes "kb_ok k" and "kb_keys k = []" and "ctrl k = 0" and "quiet k KEYBOARD_SEM_ID 0"
    and "key \<noteq> LCTRL" "key \<noteq> LSHIFT" "charHexMap ! unat key \<noteq> 0"
  shows "\<exists>k1 k2 k3. keyboardHandler key k = Some k1 \<and> getAscii_step r AskKey k1 = Some (TakeKey, k2) \<and>
    getAscii_step r TakeKey k2 = Some (GotKey (sint ((if shift k \<noteq> 0 then charHexMapShift else charHexMap) ! unat key)), k3) \<and>
    kb_keys k3 = [] \<and> quiet k3 KEYBOARD_SEM_ID 0 \<and> sched_view k3 = sched_view k"
proof -
  let ?x = "if shift k \<noteq> 0 then SHIFTED OR key else key"
  let ?i = KEYBOARD_SEM_ID
  have "unat key < 256" using unsigned_less [of key] by simp
  then have "unat key < 64" using charHexMap_index [OF _ assms(7)] by (simp add: charHexMapShift_def)
  note code = key_code [OF this]
  have b: "bufferSize k = 0" "bufferStart k < BUFFER_CAPACITY" using assms(1,2) kb_length [of k] by (simp_all add: kb_ok_def)
  have acc: "key_accepted ?x" using assms(7) code(2,3) by (simp add: key_accepted_def)
  let ?k = "k\<lparr>key_buffer := (key_buffer k)(getBufferIndex (bufferSize k) k := ?x), bufferSize := bufferSize k + 1\<rparr>"
  have q: "quiet ?k ?i 0" using assms(4) by (simp add: quiet_def sem_ok_def)
  let ?k1 = "update_sem ?i (counter_update (\<lambda>c. c + 1)) ?k"
  note p = quiet_post [OF q]
  have h: "keyboardHandler key k = Some ?k1"
    using assms(3,5,6) code(1) b(1) acc p(1)
    by (simp add: keyboardHandler_def writeKey_def BUFFER_CAPACITY_def split del: if_split)
  have q1: "quiet ?k1 ?i (Suc 0)" using p(2) by simp
  let ?k2 = "update_sem ?i (counter_update (\<lambda>c. c - 1)) ?k1"
  note w = quiet_wait [OF q1]
  have ask: "getAscii_step r AskKey ?k1 = Some (TakeKey, ?k2)" using w(1) [of r] by (simp add: getAscii_step_def)
  have keys2: "kb_keys ?k2 = [?x]"
    using b by (simp add: kb_keys_def ring_def update_sem_def getBufferIndex_def split del: if_split)
  have ok2: "kb_ok ?k2" using keys2 acc b by (simp add: kb_ok_def update_sem_def BUFFER_CAPACITY_def split del: if_split)
  obtain c k3 where g: "getScancode ?k2 = (c, k3)" by force
  from getScancode_lemma(2) [OF ok2 g] keys2 have g3: "c = ?x" "kb_keys k3 = []" by simp_all
  have take: "getAscii_step r TakeKey ?k2 = Some (GotKey (ascii_of ?x), k3)" using g g3(1) by (simp add: getAscii_step_def)
  have asc: "ascii_of ?x = sint ((if shift k \<noteq> 0 then charHexMapShift else charHexMap) ! unat key)" using code(4,5) by simp
  have k3: "k3 = ?k2\<lparr>bufferStart := getBufferIndex 1 ?k2, bufferSize := bufferSize ?k2 - 1\<rparr>"
    using g b by (simp add: getScancode_def update_sem_def split del: if_split)
  have "quiet k3 ?i 0" unfolding k3 using w(2) by (simp add: quiet_def sem_ok_def)
  moreover have "sched_view k3 = sched_view k" unfolding k3 by (simp add: sched_view_def update_sem_def)
  ultimately show ?thesis using h ask take asc g3(2) by metis
qed

theorem key_press_read_witness:
  "\<exists>k1 k2 k3. keyboardHandler 30 (demo_keys 0 [] 0) = Some k1 \<and> getAscii_step 0 AskKey k1 = Some (TakeKey, k2) \<and>
     getAscii_step 0 TakeKey k2 = Some (GotKey 97, k3)"
proof -
  have e: "kb_keys (demo_keys 0 [] 0) = []" "ctrl (demo_keys 0 [] 0) = 0" "(30 :: byte) \<noteq> LCTRL" "(30 :: byte) \<noteq> LSHIFT"
    "charHexMap ! unat (30 :: byte) \<noteq> 0" "charHexMap ! unat (30 :: byte) = 97" "shift (demo_keys 0 [] 0) = 0"
    by (simp_all add: kb_keys_def ring_def demo_keys_fields LCTRL_def LSHIFT_def charHexMap_def nth_append)
  have q: "quiet (demo_keys 0 [] 0) KEYBOARD_SEM_ID 0" by (rule demo_keys_quiet) simp
  from key_press_read [OF demo_keys_ok e(1,2) q e(3,4,5), of 0] e(6,7) show ?thesis by auto
qed

text \<open>
  \<open>getAscii\<close> never reads outside its tables: every key the ring buffer can hold is the end-of-file
  key or has an index within the table its shift bit selects (the second one is shorter).
\<close>

theorem getAscii_in_bounds:
  assumes "kb_ok k" and "c \<in> set (kb_keys k)" and "sint c \<noteq> EOF"
  shows "unat (c AND 0x7F) < length charHexMapShift \<and> unat (c AND 0x7F) < length charHexMap"
proof -
  have "charHexMap ! unat (c AND 0x7F) \<noteq> 0" using assms by (auto simp: kb_ok_def key_accepted_def)
  moreover have "unat (c AND 0x7F) < 256" using and_7F_less [of c] by simp
  ultimately have "unat (c AND 0x7F) < length charHexMapShift" using charHexMap_index by blast
  moreover have "length charHexMapShift \<le> length charHexMap" by (simp add: charHexMapShift_def charHexMap_def)
  ultimately show ?thesis by simp
qed

theorem getAscii_in_bounds_witness:
  "unat ((0x9E :: byte) AND 0x7F) < length charHexMapShift"
proof -
  have "key_accepted 0x9E" by (simp add: key_accepted_def charHexMap_def nth_append)
  then have "kb_ok (demo_keys 1 [0x9E] 0)" "0x9E \<in> set (kb_keys (demo_keys 1 [0x9E] 0))"
    by (simp_all add: kb_ok_def kb_keys_def ring_def demo_keys_fields BUFFER_CAPACITY_def)
  from getAscii_in_bounds [OF this] show ?thesis by (simp add: EOF_def)
qed

text \<open>
  Ctrl+C forgets the keys that wait but not their units in the semaphore: afterwards the queue is
  empty with n units left, so the next \<open>getAscii\<close> does not wait for a key and returns 0.
\<close>

theorem ctrlC_stale_units:
  assumes "quiet k KEYBOARD_SEM_ID (Suc n)" and "ctrl k \<noteq> 0" and "keyboardHandler C_KEY k = Some k1"
  shows "kb_keys k1 = [] \<and> (\<exists>k2 k3. getAscii_step r AskKey k1 = Some (TakeKey, k2) \<and> quiet k2 KEYBOARD_SEM_ID n \<and>
    getAscii_step r TakeKey k2 = Some (GotKey 0, k3))"
proof -
  let ?k = "k\<lparr>bufferStart := 0, bufferSize := 0\<rparr>"
  from assms(2,3) obtain v where kf: "killForegroundProcess ?k = Some (v, k1)"
    by (auto simp: keyboardHandler_def C_KEY_def LCTRL_def LSHIFT_def RELEASED_def bind_eq_Some_conv)
  note m = more_killForegroundProcess [OF kf]
  note e = kb_more [OF sem_more_of_kernel_more [OF m]]
  have keys: "kb_keys k1 = []" using e by (simp add: kb_keys_def ring_def)
  have "quiet ?k KEYBOARD_SEM_ID (Suc n)" using assms(1) by (simp add: quiet_def sem_ok_def)
  then have q: "quiet k1 KEYBOARD_SEM_ID (Suc n)" using sem_more [OF m] by (simp add: quiet_def sem_ok_def)
  note w = quiet_wait [OF q]
  let ?k2 = "update_sem KEYBOARD_SEM_ID (counter_update (\<lambda>c. c - 1)) k1"
  have "bufferSize ?k2 = 0" using e(2) by (simp add: update_sem_def)
  then have "getScancode ?k2 = (0, ?k2)" by (simp add: getScancode_def)
  moreover have "ascii_of 0 = 0" by (simp add: ascii_of_def EOF_def charHexMap_def)
  ultimately have "getAscii_step r TakeKey ?k2 = Some (GotKey 0, ?k2)" by (simp add: getAscii_step_def)
  moreover have "getAscii_step r AskKey k1 = Some (TakeKey, ?k2)" using w(1) [of r] by (simp add: getAscii_step_def)
  ultimately show ?thesis using keys w(2) by blast
qed

theorem ctrlC_stale_units_witness:
  "\<exists>k1 k2 k3. keyboardHandler C_KEY (demo_keys 1 [30] 1\<lparr>currentProcess := 0\<rparr>) = Some k1 \<and>
     getAscii_step 0 AskKey k1 = Some (TakeKey, k2) \<and> getAscii_step 0 TakeKey k2 = Some (GotKey 0, k3)"
proof -
  let ?k = "demo_keys 1 [30] 1\<lparr>currentProcess := 0\<rparr>"
  have q: "quiet ?k KEYBOARD_SEM_ID (Suc 0)" using demo_keys_quiet [of 1 "[30]" 1] by (simp add: quiet_def sem_ok_def)
  have c: "ctrl ?k \<noteq> 0" by (simp add: demo_keys_fields)
  have "scheduler (demo_keys 1 [30] 1) \<noteq> 0" using sched_view_D(5) [OF demo_keys_view] demo_lists(7) by simp
  then have "\<exists>k1. keyboardHandler C_KEY ?k = Some k1"
    by (simp add: keyboardHandler_def C_KEY_def LCTRL_def LSHIFT_def RELEASED_def demo_keys_fields killForegroundProcess_def)
  then obtain k1 where k1: "keyboardHandler C_KEY ?k = Some k1" ..
  from ctrlC_stale_units [OF q c k1, of 0] k1 show ?thesis by blast
qed

end
