(* ===== verification/Video.thy ===== *)
theory Video
  imports Lib
begin

text \<open>
  \<open>Kernel/utils/drivers/video.c\<close>: text on a linear frame buffer of three bytes a pixel. The state holds what the driver
  keeps (position, colour, font, the characters printed since the screen was cleared) and the memory, of which the
  screen is a part. The mode the boot loader left at 0x5C00 is the record \<open>vbe\<close>, of which the driver reads three fields;
  the glyph tables of \<open>include/font.h\<close> are data: a field of the state, so that what is proved holds for any of them.
\<close>

unbundle bit_operations_syntax

definition RGB_SIZE :: nat where "RGB_SIZE = 3"
definition MAX_RESOLUTION :: nat where "MAX_RESOLUTION = 64 * 128"
definition FIRST_CHAR :: int where "FIRST_CHAR = 33"
definition LAST_CHAR :: int where "LAST_CHAR = 126"
definition charWidths :: "nat list" where "charWidths = [8, 16, 24]"
definition charHeights :: "nat list" where "charHeights = [16, 32, 48]"

record vbe =
  framebuffer :: nat
  width :: nat
  height :: nat

record color =
  c_b :: byte
  c_g :: byte
  c_r :: byte

definition BLACK :: color where "BLACK = \<lparr>c_b = 0, c_g = 0, c_r = 0\<rparr>"
definition ERROR_COLOR :: color where "ERROR_COLOR = \<lparr>c_b = 0, c_g = 0, c_r = 255\<rparr>"
definition DEFAULT_COLOR :: color where "DEFAULT_COLOR = \<lparr>c_b = 255, c_g = 255, c_r = 255\<rparr>"

record video =
  screenData :: vbe
  vmem :: bytes
  fonts :: "nat \<Rightarrow> nat \<Rightarrow> byte"
  posX :: "16 word"
  posY :: "16 word"
  fontColor :: color
  charWidth :: nat
  charHeight :: nat
  font :: "nat \<Rightarrow> byte"
  charBuffer :: "nat \<Rightarrow> byte"
  bufferIdx :: "16 word"

abbreviation scr_width :: "video \<Rightarrow> nat" where "scr_width v \<equiv> width (screenData v)"
abbreviation scr_height :: "video \<Rightarrow> nat" where "scr_height v \<equiv> height (screenData v)"

section \<open>Pixels\<close>

definition getPtrToPixel :: "video \<Rightarrow> nat \<Rightarrow> nat \<Rightarrow> addr" where
  "getPtrToPixel v x y = framebuffer (screenData v) + RGB_SIZE * (x + y * scr_width v)"

definition put_pixel :: "bytes \<Rightarrow> addr \<Rightarrow> color \<Rightarrow> bytes" where
  "put_pixel m a c = m(a := c_b c, a + 1 := c_g c, a + 2 := c_r c)"

definition videoClear :: "video \<Rightarrow> video" where
  "videoClear v = v\<lparr>vmem := memset (vmem v) (getPtrToPixel v 0 0) 0 (RGB_SIZE * scr_width v * scr_height v),
     posX := 0, posY := 0, bufferIdx := 0\<rparr>"

definition coordinatesValid :: "video \<Rightarrow> nat \<Rightarrow> nat \<Rightarrow> bool" where
  "coordinatesValid v x y = (x < scr_width v \<and> y < scr_height v)"

text \<open>The loops of \<open>drawRect\<close>: n pixels from a pointer on, and n lines of w pixels.\<close>

fun rect_line :: "nat \<Rightarrow> color \<Rightarrow> addr \<Rightarrow> bytes \<Rightarrow> addr \<times> bytes" where
  "rect_line 0 c p m = (p, m)"
| "rect_line (Suc n) c p m = rect_line n c (p + RGB_SIZE) (put_pixel m p c)"

fun rect_lines :: "nat \<Rightarrow> nat \<Rightarrow> nat \<Rightarrow> color \<Rightarrow> addr \<Rightarrow> bytes \<Rightarrow> bytes" where
  "rect_lines 0 w lineDiff c p m = m"
| "rect_lines (Suc n) w lineDiff c p m =
     (let (p', m') = rect_line w c p m in rect_lines n w lineDiff c (p' + RGB_SIZE * lineDiff) m')"

definition drawRect :: "nat \<Rightarrow> nat \<Rightarrow> nat \<Rightarrow> nat \<Rightarrow> color \<Rightarrow> video \<Rightarrow> video" where
  "drawRect x y w h c v =
     (if \<not> coordinatesValid v x y then v
      else
        let w1 = min w (scr_width v - x); h1 = min h (scr_height v - y) in
        v\<lparr>vmem := rect_lines h1 w1 (scr_width v - w1) c (getPtrToPixel v x y) (vmem v)\<rparr>)"

definition setPosition :: "16 word \<Rightarrow> 16 word \<Rightarrow> video \<Rightarrow> video" where
  "setPosition x y v =
     (let maxX = of_nat (scr_width v) - of_nat (charWidth v); maxY = of_nat (scr_height v) - of_nat (charHeight v) in
      v\<lparr>posX := (if x < maxX then x else maxX), posY := (if y < maxY then y else maxY)\<rparr>)"

definition setFontColor :: "color \<Rightarrow> video \<Rightarrow> video" where
  "setFontColor c v = v\<lparr>fontColor := c\<rparr>"

definition getFontColor :: "video \<Rightarrow> color" where
  "getFontColor v = fontColor v"

section \<open>Characters\<close>

definition printNewline :: "video \<Rightarrow> video" where
  "printNewline v0 =
     (let v = v0\<lparr>posX := 0\<rparr> in
      if unat (posY v) + 2 * charHeight v \<le> scr_height v then v\<lparr>posY := posY v + of_nat (charHeight v)\<rparr>
      else
        let len = RGB_SIZE * (scr_width v * (scr_height v - charHeight v));
            m = memcpy (vmem v) (getPtrToPixel v 0 0) (getPtrToPixel v 0 (charHeight v)) len in
        v\<lparr>vmem := memset m (getPtrToPixel v 0 (scr_height v - charHeight v)) 0 (RGB_SIZE * scr_width v * charHeight v)\<rparr>)"

text \<open>The two loops that draw a glyph: a line of n pixels from pixel i on, with the byte of the bitmap, the
  mask of its bit, and the memory; and n lines, each with the mask at the first bit.\<close>

fun glyph_line :: "nat \<Rightarrow> nat \<Rightarrow> (nat \<Rightarrow> byte) \<Rightarrow> color \<Rightarrow> addr \<Rightarrow> nat \<Rightarrow> byte \<Rightarrow> bytes \<Rightarrow> nat \<times> bytes" where
  "glyph_line 0 i fnt c ptr data msk m = (data, m)"
| "glyph_line (Suc n) i fnt c ptr data msk m =
     (let m' = (if fnt data AND msk \<noteq> 0 then put_pixel m (ptr + RGB_SIZE * i) c else m) in
      if msk AND 0x80 \<noteq> 0 then glyph_line n (i + 1) fnt c ptr (data + 1) 1 m'
      else glyph_line n (i + 1) fnt c ptr data (push_bit 1 msk) m')"

fun glyph_lines :: "nat \<Rightarrow> nat \<Rightarrow> video \<Rightarrow> nat \<Rightarrow> bytes \<Rightarrow> bytes" where
  "glyph_lines 0 h v data m = m"
| "glyph_lines (Suc n) h v data m =
     (let (data', m') = glyph_line (charWidth v) 0 (font v) (fontColor v)
            (getPtrToPixel v (unat (posX v)) (unat (of_nat (unat (posY v) + h) :: 16 word))) data 1 m in
      glyph_lines n (h + 1) v data' m')"

definition draw_glyph :: "byte \<Rightarrow> video \<Rightarrow> video" where
  "draw_glyph c v =
     v\<lparr>vmem := glyph_lines (charHeight v) 0 v
        (charHeight v * charWidth v * nat (sint c - FIRST_CHAR) div 8) (vmem v)\<rparr>"

text \<open>The last column a character can begin in, as the \<open>int\<close> the code computes.\<close>

definition last_column :: "video \<Rightarrow> int" where
  "last_column v = int (scr_width v div charWidth v * charWidth v) - int (charWidth v)"

text \<open>Lines 162-173: the character before the position is overwritten.\<close>

definition backspace :: "video \<Rightarrow> video" where
  "backspace v =
     (let v1 = (if unat (posX v) < charWidth v \<and> posY v > 0
                then v\<lparr>posY := posY v - of_nat (charHeight v), posX := word_of_int (last_column v)\<rparr>
                else v\<lparr>posX := posX v - of_nat (charWidth v)\<rparr>);
          v2 = drawRect (unat (posX v1)) (unat (posY v1)) (charWidth v1) (charHeight v1) BLACK v1
      in v2\<lparr>bufferIdx := bufferIdx v2 - 1\<rparr>)"

text \<open>Lines 180-209: a character goes into the buffer and on the screen.\<close>

definition put_char :: "byte \<Rightarrow> video \<Rightarrow> video" where
  "put_char c v0 =
     (let v = v0\<lparr>charBuffer := (charBuffer v0)(unat (bufferIdx v0) := c), bufferIdx := bufferIdx v0 + 1\<rparr> in
      if c = 10 then printNewline v
      else
        let v1 = (if FIRST_CHAR \<le> sint c \<and> sint c \<le> LAST_CHAR then draw_glyph c v else v);
            v2 = v1\<lparr>posX := posX v1 + of_nat (charWidth v1)\<rparr> in
        if int (unat (posX v2)) > last_column v2 then printNewline v2 else v2)"

text \<open>\<open>MSG_BUFFER_EXCEEDED\<close>: "Buffer de video excedido, la pantalla ha sido limpiada" and a newline. \<open>print\<close> of it runs
  on an empty buffer, so its own calls of \<open>printChar\<close> never exceed it again; it has no backspace.\<close>

definition MSG_BUFFER_EXCEEDED :: "byte list" where
  "MSG_BUFFER_EXCEEDED = [66, 117, 102, 102, 101, 114, 32, 100, 101, 32, 118, 105, 100, 101, 111, 32, 101, 120, 99, 101, 100, 105,
     100, 111, 44, 32, 108, 97, 32, 112, 97, 110, 116, 97, 108, 108, 97, 32, 104, 97, 32, 115, 105, 100, 111, 32, 108, 105,
     109, 112, 105, 97, 100, 97, 10]"

definition printChar :: "byte \<Rightarrow> video \<Rightarrow> video" where
  "printChar c v =
     (if c = 8 then backspace v
      else if unat (bufferIdx v) = MAX_RESOLUTION then put_char c (fold put_char MSG_BUFFER_EXCEEDED (videoClear v))
      else put_char c v)"

text \<open>\<open>print\<close> reads the string as it prints it; printed literals of the kernel are \<open>print_text\<close>, the same loop
  over their characters (lemma \<open>print_is_text\<close>).\<close>

partial_function (option) print :: "addr \<Rightarrow> video \<Rightarrow> video option" where
  "print s v = (if vmem v s = 0 then Some v else print (s + 1) (printChar (vmem v s) v))"

definition print_text :: "byte list \<Rightarrow> video \<Rightarrow> video" where
  "print_text xs v = fold printChar xs v"

text \<open>\<open>printN\<close> of the driver's own buffer, which is how it is called: the characters are read as they are printed.\<close>

fun printN :: "nat \<Rightarrow> nat \<Rightarrow> video \<Rightarrow> video" where
  "printN 0 i v = v"
| "printN (Suc n) i v = (if charBuffer v i = 0 then v else printN n (i + 1) (printChar (charBuffer v i) v))"

definition renderFonts :: "video \<Rightarrow> video" where
  "renderFonts v = printN (unat (bufferIdx v)) 0 (videoClear v)"

definition setFontSize :: "nat \<Rightarrow> video \<Rightarrow> video" where
  "setFontSize f v =
     (if f \<le> 2 then renderFonts (v\<lparr>font := fonts v f, charWidth := charWidths ! f, charHeight := charHeights ! f\<rparr>)
      else v)"

definition printNChars :: "byte \<Rightarrow> int \<Rightarrow> video \<Rightarrow> video" where
  "printNChars c n v = (printChar c ^^ nat n) v"

text \<open>\<open>printf\<close>: the variadic arguments are a list of words (none left is the undefined \<open>va_arg\<close>), \<open>buf\<close> is the address of
  the local \<open>buffer\<close>. \<open>conversion\<close> is the switch on the letter after the width \<open>dx\<close>.\<close>

definition print_number :: "64 word \<Rightarrow> nat \<Rightarrow> int \<Rightarrow> addr \<Rightarrow> video \<Rightarrow> video option" where
  "print_number w base dx buf v = do {
     (m, len) \<leftarrow> itoa (vmem v) (unat w) buf base;
     print buf (printNChars 48 (dx - int len) (v\<lparr>vmem := m\<rparr>)) }"

definition conversion :: "byte \<Rightarrow> int \<Rightarrow> 64 word list \<Rightarrow> addr \<Rightarrow> video \<Rightarrow> (64 word list \<times> video) option" where
  "conversion f dx args buf v =
     (if f \<in> {99, 100, 120, 115} then
        case args of
          [] \<Rightarrow> None
        | w # rest \<Rightarrow>
            map_option (Pair rest)
              (if f = 99 then Some (printChar (ucast w) v)
               else if f = 100 then print_number w 10 dx buf v
               else if f = 120 then print_number w 16 dx buf v
               else print (unat w) (printNChars 32 dx v))
      else Some (args, v))"

partial_function (option) printf_from :: "addr \<Rightarrow> addr \<Rightarrow> 64 word list \<Rightarrow> video \<Rightarrow> video option" where
  "printf_from buf fmt args v =
     (if vmem v fmt = 0 then Some v
      else if vmem v fmt = 37 then
        do { (dx, p) \<leftarrow> strtoi (vmem v) (fmt + 1);
             (args', v') \<leftarrow> conversion (vmem v p) dx args buf v;
             printf_from buf (p + 1) args' v' }
      else printf_from buf (fmt + 1) args (printChar (vmem v fmt) v))"

text \<open>The local buffer begins as 256 zeros.\<close>

definition printf :: "addr \<Rightarrow> addr \<Rightarrow> 64 word list \<Rightarrow> video \<Rightarrow> video option" where
  "printf buf fmt args v = printf_from buf fmt args (v\<lparr>vmem := memset (vmem v) buf 0 256\<rparr>)"

definition getScreenResolution :: "video \<Rightarrow> 32 word" where
  "getScreenResolution v = of_nat (scr_width v) OR push_bit 16 (of_nat (scr_height v))"

section \<open>What the loops draw\<close>

definition color_byte :: "color \<Rightarrow> nat \<Rightarrow> byte" where
  "color_byte c k = (if k = 0 then c_b c else if k = 1 then c_g c else c_r c)"

lemma put_pixel_eq:
  "put_pixel m p c = (\<lambda>a. if p \<le> a \<and> a < p + 3 then color_byte c ((a - p) mod 3) else m a)"
proof (rule ext)
  fix a
  consider "a = p" | "a = p + 1" | "a = p + 2" | "a < p \<or> p + 3 \<le> a" by linarith
  then show "put_pixel m p c a = (if p \<le> a \<and> a < p + 3 then color_byte c ((a - p) mod 3) else m a)"
    by cases (auto simp: put_pixel_def color_byte_def)
qed

lemma put_pixel_other: "a < p \<or> p + 3 \<le> a \<Longrightarrow> put_pixel m p c a = m a"
  by (auto simp: put_pixel_def)

lemma rect_line_eq:
  "rect_line n c p m =
     (p + 3 * n, \<lambda>a. if p \<le> a \<and> a < p + 3 * n then color_byte c ((a - p) mod 3) else m a)"
proof (induction n arbitrary: p m)
  case (Suc n)
  have "(if p + 3 \<le> a \<and> a < p + 3 + 3 * n then color_byte c ((a - (p + 3)) mod 3) else put_pixel m p c a) =
      (if p \<le> a \<and> a < p + 3 * Suc n then color_byte c ((a - p) mod 3) else m a)" for a
  proof (cases "p + 3 \<le> a")
    case True
    then have "a - p = a - (p + 3) + 3" by simp
    then have "(a - p) mod 3 = (a - (p + 3)) mod 3" by (simp only: mod_add_self2)
    with True show ?thesis by (auto simp: put_pixel_other)
  qed (auto simp: put_pixel_eq)
  then show ?case by (simp add: Suc RGB_SIZE_def fun_eq_iff)
qed (auto simp: fun_eq_iff)

lemma rect_lines_eq:
  "rect_lines n w d c p m =
     (\<lambda>a. if \<exists>i < n. p + 3 * (w + d) * i \<le> a \<and> a < p + 3 * (w + d) * i + 3 * w then color_byte c ((a - p) mod 3) else m a)"
proof (induction n arbitrary: p m)
  case (Suc n)
  let ?W = "3 * (w + d)"
  have "(if \<exists>i < n. (p + ?W) + ?W * i \<le> a \<and> a < (p + ?W) + ?W * i + 3 * w then color_byte c ((a - (p + ?W)) mod 3)
      else if p \<le> a \<and> a < p + 3 * w then color_byte c ((a - p) mod 3) else m a) =
    (if \<exists>i < Suc n. p + ?W * i \<le> a \<and> a < p + ?W * i + 3 * w then color_byte c ((a - p) mod 3) else m a)" for a
  proof -
    have split: "(\<exists>i < Suc n. p + ?W * i \<le> a \<and> a < p + ?W * i + 3 * w) \<longleftrightarrow>
        (p \<le> a \<and> a < p + 3 * w) \<or> (\<exists>i < n. (p + ?W) + ?W * i \<le> a \<and> a < (p + ?W) + ?W * i + 3 * w)"
      by (simp only: Ex_less_Suc2) (simp add: add.assoc)
    have "(a - (p + ?W)) mod 3 = (a - p) mod 3" if "p + ?W \<le> a"
    proof -
      have "a - p = a - (p + ?W) + 3 * (w + d)" using that by simp
      then show ?thesis by (simp only: mod_mult_self2)
    qed
    then show ?thesis unfolding split by auto
  qed
  then have "(\<lambda>a. if \<exists>i < n. (p + ?W) + ?W * i \<le> a \<and> a < (p + ?W) + ?W * i + 3 * w then color_byte c ((a - (p + ?W)) mod 3)
      else if p \<le> a \<and> a < p + 3 * w then color_byte c ((a - p) mod 3) else m a) =
    (\<lambda>a. if \<exists>i < Suc n. p + ?W * i \<le> a \<and> a < p + ?W * i + 3 * w then color_byte c ((a - p) mod 3) else m a)" by (rule ext)
  moreover have "p + 3 * w + RGB_SIZE * d = p + ?W" by (simp add: RGB_SIZE_def)
  ultimately show ?case by (simp only: rect_lines.simps rect_line_eq Let_def prod.case Suc)
qed (simp add: fun_eq_iff)

text \<open>Pixels are numbered by their position in the frame buffer: what lies between two pixels of a line lies on it.\<close>

lemma on_line:
  fixes x px w W r py :: nat
  assumes "x + w \<le> W" and "px < W"
  shows "x + r * W \<le> px + py * W \<and> px + py * W < x + r * W + w \<longleftrightarrow> py = r \<and> x \<le> px \<and> px < x + w"
proof -
  consider "py = r" | "py < r" | "r < py" by linarith
  then show ?thesis
  proof cases
    case 2
    then have "Suc py * W \<le> r * W" by (intro mult_le_mono1) simp
    with 2 assms show ?thesis by simp
  next
    case 3
    then have "Suc r * W \<le> py * W" by (intro mult_le_mono1) simp
    with 3 assms show ?thesis by simp
  qed auto
qed

lemma on_line_ptr:
  assumes "x + w \<le> scr_width v" and "px < scr_width v" and "k < 3"
  shows "getPtrToPixel v x r \<le> getPtrToPixel v px py + k \<and> getPtrToPixel v px py + k < getPtrToPixel v x r + 3 * w
    \<longleftrightarrow> py = r \<and> x \<le> px \<and> px < x + w"
proof -
  have between: "f + 3 * a \<le> f + 3 * b + k \<and> f + 3 * b + k < f + 3 * a + 3 * w \<longleftrightarrow> a \<le> b \<and> b < a + w" for f a b
    using assms(3) by auto
  have "getPtrToPixel v x r \<le> getPtrToPixel v px py + k \<and> getPtrToPixel v px py + k < getPtrToPixel v x r + 3 * w
    \<longleftrightarrow> x + r * scr_width v \<le> px + py * scr_width v \<and> px + py * scr_width v < x + r * scr_width v + w"
    unfolding getPtrToPixel_def RGB_SIZE_def by (rule between)
  then show ?thesis by (simp only: on_line [OF assms(1,2)])
qed

lemma ptr_mod:
  "framebuffer (screenData v) \<le> a \<Longrightarrow> getPtrToPixel v x y \<le> a \<Longrightarrow>
   (a - getPtrToPixel v x y) mod 3 = (a - framebuffer (screenData v)) mod 3"
proof -
  assume "getPtrToPixel v x y \<le> a"
  then have "a - framebuffer (screenData v) = a - getPtrToPixel v x y + 3 * (x + y * scr_width v)"
    by (simp add: getPtrToPixel_def RGB_SIZE_def)
  then show ?thesis by (simp only: mod_mult_self2)
qed

definition on_screen :: "video \<Rightarrow> addr set" where
  "on_screen v = {a. framebuffer (screenData v) \<le> a \<and> a < framebuffer (screenData v) + 3 * (scr_width v * scr_height v)}"

lemma line_on_screen:
  assumes "x + w \<le> scr_width v" and "r < scr_height v" and "getPtrToPixel v x r \<le> a" and "a < getPtrToPixel v x r + 3 * w"
  shows "a \<in> on_screen v"
proof -
  have "Suc r * scr_width v \<le> scr_height v * scr_width v" using assms(2) by (intro mult_le_mono1) simp
  then have "x + r * scr_width v + w \<le> scr_width v * scr_height v" using assms(1) by (simp add: mult.commute)
  then show ?thesis using assms(3,4) by (simp add: on_screen_def getPtrToPixel_def RGB_SIZE_def)
qed

lemma drawRect_vmem:
  assumes "coordinatesValid v x y"
  shows "vmem (drawRect x y w h c v) a =
    (if \<exists>i < min h (scr_height v - y). getPtrToPixel v x (y + i) \<le> a \<and>
          a < getPtrToPixel v x (y + i) + 3 * min w (scr_width v - x)
     then color_byte c ((a - getPtrToPixel v x y) mod 3) else vmem v a)"
proof -
  define w1 where "w1 = min w (scr_width v - x)"
  have W: "w1 + (scr_width v - w1) = scr_width v" using assms by (auto simp: w1_def coordinatesValid_def min_def)
  have row: "getPtrToPixel v x y + 3 * (w1 + (scr_width v - w1)) * i = getPtrToPixel v x (y + i)" for i
    by (simp only: W) (simp add: getPtrToPixel_def RGB_SIZE_def algebra_simps)
  have "drawRect x y w h c v =
      v\<lparr>vmem := rect_lines (min h (scr_height v - y)) w1 (scr_width v - w1) c (getPtrToPixel v x y) (vmem v)\<rparr>"
    using assms by (simp add: drawRect_def w1_def Let_def)
  then show ?thesis by (simp only: rect_lines_eq row w1_def [symmetric]) simp
qed

lemma drawRect_pixel:
  assumes "px < scr_width v" and "py < scr_height v" and "k < 3"
  shows "vmem (drawRect x y w h c v) (getPtrToPixel v px py + k) =
    (if x \<le> px \<and> px < x + w \<and> y \<le> py \<and> py < y + h then color_byte c k else vmem v (getPtrToPixel v px py + k))"
proof (cases "coordinatesValid v x y")
  case False
  then show ?thesis using assms by (auto simp: drawRect_def coordinatesValid_def)
next
  case True
  define w1 where "w1 = min w (scr_width v - x)"
  define h1 where "h1 = min h (scr_height v - y)"
  let ?a = "getPtrToPixel v px py + k" and ?p = "getPtrToPixel v x y"
  have w1: "x + w1 \<le> scr_width v" using True by (auto simp: w1_def coordinatesValid_def min_def)
  have "(\<exists>i < h1. getPtrToPixel v x (y + i) \<le> ?a \<and> ?a < getPtrToPixel v x (y + i) + 3 * w1)
      \<longleftrightarrow> (\<exists>i < h1. py = y + i) \<and> x \<le> px \<and> px < x + w1"
    by (simp only: on_line_ptr [OF w1 assms(1,3)]) blast
  also have "(\<exists>i < h1. py = y + i) \<longleftrightarrow> y \<le> py \<and> py < y + h1" by (auto simp: le_iff_add)
  also have "(y \<le> py \<and> py < y + h1) \<and> x \<le> px \<and> px < x + w1 \<longleftrightarrow> x \<le> px \<and> px < x + w \<and> y \<le> py \<and> py < y + h"
    using assms True by (auto simp: w1_def h1_def coordinatesValid_def)
  finally have cond: "(\<exists>i < h1. getPtrToPixel v x (y + i) \<le> ?a \<and> ?a < getPtrToPixel v x (y + i) + 3 * w1) \<longleftrightarrow>
      x \<le> px \<and> px < x + w \<and> y \<le> py \<and> py < y + h" .
  have "(?a - ?p) mod 3 = k" if "x \<le> px" and "y \<le> py"
  proof -
    have "y * scr_width v \<le> py * scr_width v" using that by (intro mult_le_mono1)
    then have "3 * (x + y * scr_width v) \<le> 3 * (px + py * scr_width v)" using that by (intro mult_le_mono2) linarith
    then have "?p \<le> ?a" unfolding getPtrToPixel_def RGB_SIZE_def by linarith
    moreover have "?a - framebuffer (screenData v) = k + 3 * (px + py * scr_width v)"
      by (simp add: getPtrToPixel_def RGB_SIZE_def)
    moreover have "framebuffer (screenData v) \<le> ?a" by (simp add: getPtrToPixel_def)
    ultimately show ?thesis using ptr_mod [of v ?a x y] assms(3) by (simp only: mod_mult_self2) simp
  qed
  then show ?thesis
    by (simp only: drawRect_vmem [OF True] w1_def [symmetric] h1_def [symmetric] cond cong: if_cong)
qed

lemma drawRect_outside:
  assumes "a \<notin> on_screen v"
  shows "vmem (drawRect x y w h c v) a = vmem v a"
proof (cases "coordinatesValid v x y")
  case True
  define w1 where "w1 = min w (scr_width v - x)"
  define h1 where "h1 = min h (scr_height v - y)"
  have w1: "x + w1 \<le> scr_width v" using True by (auto simp: w1_def coordinatesValid_def min_def)
  have "y + i < scr_height v" if "i < h1" for i using True that by (auto simp: h1_def coordinatesValid_def)
  then have none: "\<not> (\<exists>i < h1. getPtrToPixel v x (y + i) \<le> a \<and> a < getPtrToPixel v x (y + i) + 3 * w1)"
    using line_on_screen [OF w1] assms by blast
  show ?thesis
    by (simp only: drawRect_vmem [OF True] w1_def [symmetric] h1_def [symmetric] if_not_P [OF none])
qed (simp add: drawRect_def)

lemma drawRect_simps [simp]:
  "screenData (drawRect x y w h c v) = screenData v" "fonts (drawRect x y w h c v) = fonts v"
  "posX (drawRect x y w h c v) = posX v" "posY (drawRect x y w h c v) = posY v"
  "fontColor (drawRect x y w h c v) = fontColor v" "charWidth (drawRect x y w h c v) = charWidth v"
  "charHeight (drawRect x y w h c v) = charHeight v" "font (drawRect x y w h c v) = font v"
  "charBuffer (drawRect x y w h c v) = charBuffer v" "bufferIdx (drawRect x y w h c v) = bufferIdx v"
  by (simp_all add: drawRect_def Let_def)

section \<open>What a glyph draws\<close>

lemma glyph_line_eq:
  "glyph_line n i f c ptr (base + i div 8) (push_bit (i mod 8) 1) m =
     (base + (i + n) div 8,
      \<lambda>a. if ptr + 3 * i \<le> a \<and> a < ptr + 3 * (i + n) \<and> bit (f (base + (a - ptr) div 3 div 8)) ((a - ptr) div 3 mod 8)
          then color_byte c ((a - ptr) mod 3) else m a)"
proof (induction n arbitrary: i m)
  case (Suc n)
  let ?lit = "\<lambda>a. bit (f (base + (a - ptr) div 3 div 8)) ((a - ptr) div 3 mod 8)"
  let ?m1 = "if f (base + i div 8) AND push_bit (i mod 8) 1 \<noteq> 0 then put_pixel m (ptr + 3 * i) c else m"
  have lit: "f (base + i div 8) AND push_bit (i mod 8) 1 \<noteq> 0 \<longleftrightarrow> bit (f (base + i div 8)) (i mod 8)"
    by (simp add: push_bit_of_1 and_exp_eq_0_iff_not_bit)
  have m1: "?m1 a = (if ptr + 3 * i \<le> a \<and> a < ptr + 3 * (i + 1) \<and> ?lit a then color_byte c ((a - ptr) mod 3) else m a)" for a
  proof (cases "ptr + 3 * i \<le> a \<and> a < ptr + 3 * (i + 1)")
    case True
    then obtain k where k: "a = ptr + 3 * i + k" using le_Suc_ex by blast
    with True have k: "a = ptr + 3 * i + k" "k < 3" by simp_all
    then have "(a - ptr) div 3 = i" and "(a - ptr) mod 3 = k" by simp_all
    then show ?thesis unfolding lit using k by (simp add: put_pixel_eq)
  qed (auto simp: put_pixel_eq)
  have step: "(push_bit (i mod 8) 1 :: byte) AND 0x80 \<noteq> 0 \<longleftrightarrow> i mod 8 = 7"
  proof -
    have "i mod 8 \<in> {0,1,2,3,4,5,6,7}" using mod_less_divisor [of 8 i] by auto
    then show ?thesis by (auto simp: push_bit_of_1)
  qed
  have join: "(\<lambda>a. if ptr + 3 * (i + 1) \<le> a \<and> a < ptr + 3 * (i + 1 + n) \<and> ?lit a then color_byte c ((a - ptr) mod 3) else ?m1 a) =
      (\<lambda>a. if ptr + 3 * i \<le> a \<and> a < ptr + 3 * (i + Suc n) \<and> ?lit a then color_byte c ((a - ptr) mod 3) else m a)"
    unfolding m1 by (rule ext) auto
  have next_msk: "(if i mod 8 = 7 then glyph_line n (i + 1) f c ptr (base + i div 8 + 1) 1 ?m1
      else glyph_line n (i + 1) f c ptr (base + i div 8) (push_bit 1 (push_bit (i mod 8) 1)) ?m1) =
      glyph_line n (i + 1) f c ptr (base + (i + 1) div 8) (push_bit ((i + 1) mod 8) 1) ?m1"
  proof (cases "i mod 8 = 7")
    case True
    then have "(i + 1) mod 8 = 0" and "(i + 1) div 8 = i div 8 + 1" by (simp_all add: mod_Suc div_Suc)
    with True show ?thesis by (simp add: add.assoc)
  next
    case False
    then have "(i + 1) mod 8 = i mod 8 + 1" and "(i + 1) div 8 = i div 8" by (simp_all add: mod_Suc div_Suc)
    with False show ?thesis by (simp only: push_bit_push_bit add.commute [of 1]) simp
  qed
  show ?case
    by (simp only: glyph_line.simps Let_def RGB_SIZE_def step next_msk Suc join) simp
qed (auto simp: fun_eq_iff)

text \<open>All lines of a glyph whose pixels begin at column X of row Y; a line of the bitmap is a whole number of bytes.\<close>

definition glyph_bit :: "video \<Rightarrow> nat \<Rightarrow> nat \<Rightarrow> nat \<Rightarrow> bool" where
  "glyph_bit v data i h = bit (font v (data + h * (charWidth v div 8) + i div 8)) (i mod 8)"

lemma ex_range:
  "(\<exists>r :: nat. h \<le> r \<and> r < h + Suc n \<and> P r) \<longleftrightarrow> (\<exists>r. Suc h \<le> r \<and> r < Suc h + n \<and> P r) \<or> P h"
proof -
  have "h \<le> r \<and> r < h + Suc n \<longleftrightarrow> r = h \<or> (Suc h \<le> r \<and> r < Suc h + n)" for r by auto
  then have "(\<exists>r. (h \<le> r \<and> r < h + Suc n) \<and> P r) \<longleftrightarrow> (\<exists>r. (r = h \<or> (Suc h \<le> r \<and> r < Suc h + n)) \<and> P r)"
    by (simp only:)
  then show ?thesis by (simp only: conj_disj_distribR ex_disj_distrib conj_assoc simp_thms disj_commute)
qed

lemma glyph_lines_eq:
  assumes "charWidth v mod 8 = 0" and "unat (posY v) + h + n \<le> 2 ^ 16"
  shows "glyph_lines n h v (data + h * (charWidth v div 8)) m =
    (\<lambda>a. if \<exists>r. h \<le> r \<and> r < h + n \<and> getPtrToPixel v (unat (posX v)) (unat (posY v) + r) \<le> a \<and>
              a < getPtrToPixel v (unat (posX v)) (unat (posY v) + r) + 3 * charWidth v \<and>
              glyph_bit v data ((a - getPtrToPixel v (unat (posX v)) (unat (posY v) + r)) div 3) r
         then color_byte (fontColor v) ((a - framebuffer (screenData v)) mod 3) else m a)"
  using assms(2)
proof (induction n arbitrary: h m)
  case (Suc n)
  let ?p = "\<lambda>r. getPtrToPixel v (unat (posX v)) (unat (posY v) + r)"
  let ?in = "\<lambda>r a. ?p r \<le> a \<and> a < ?p r + 3 * charWidth v \<and> glyph_bit v data ((a - ?p r) div 3) r"
  have y: "unat (of_nat (unat (posY v) + h) :: 16 word) = unat (posY v) + h"
    using Suc.prems by (simp only: unat_of_nat) simp
  have line: "glyph_line (charWidth v) 0 (font v) (fontColor v) (?p h) (data + h * (charWidth v div 8)) 1 m =
      (data + (h + 1) * (charWidth v div 8), \<lambda>a. if ?in h a then color_byte (fontColor v) ((a - framebuffer (screenData v)) mod 3) else m a)"
  proof -
    have "(a - ?p h) mod 3 = (a - framebuffer (screenData v)) mod 3" if "?p h \<le> a" for a
      using that by (intro ptr_mod) (auto simp: getPtrToPixel_def)
    then show ?thesis
      using glyph_line_eq [of "charWidth v" 0 "font v" "fontColor v" "?p h" "data + h * (charWidth v div 8)" m]
      by (auto simp: fun_eq_iff glyph_bit_def)
  qed
  have merge: "(if P then t else if Q then t else e) = (if P \<or> Q then t else e)" for P Q and t e :: byte by simp
  then have join: "(\<lambda>a. if \<exists>r. Suc h \<le> r \<and> r < Suc h + n \<and> ?in r a
        then color_byte (fontColor v) ((a - framebuffer (screenData v)) mod 3)
        else if ?in h a then color_byte (fontColor v) ((a - framebuffer (screenData v)) mod 3) else m a) =
      (\<lambda>a. if \<exists>r. h \<le> r \<and> r < h + Suc n \<and> ?in r a then color_byte (fontColor v) ((a - framebuffer (screenData v)) mod 3) else m a)"
    by (simp only: merge ex_range)
  have "unat (posY v) + Suc h + n \<le> 2 ^ 16" using Suc.prems by simp
  then show ?case
    by (simp only: glyph_lines.simps y line Let_def prod.case Suc_eq_plus1 [symmetric] Suc.IH join)
qed (auto simp: fun_eq_iff)

lemma draw_glyph_eq:
  assumes "charWidth v mod 8 = 0" and "unat (posY v) + charHeight v \<le> 2 ^ 16"
  shows "vmem (draw_glyph c v) = (\<lambda>a. if \<exists>r. r < charHeight v \<and> getPtrToPixel v (unat (posX v)) (unat (posY v) + r) \<le> a \<and>
              a < getPtrToPixel v (unat (posX v)) (unat (posY v) + r) + 3 * charWidth v \<and>
              glyph_bit v (charHeight v * charWidth v * nat (sint c - FIRST_CHAR) div 8)
                ((a - getPtrToPixel v (unat (posX v)) (unat (posY v) + r)) div 3) r
         then color_byte (fontColor v) ((a - framebuffer (screenData v)) mod 3) else vmem v a)"
  using glyph_lines_eq [of v 0 "charHeight v" "charHeight v * charWidth v * nat (sint c - FIRST_CHAR) div 8" "vmem v"] assms
  by (simp add: draw_glyph_def)

lemma draw_glyph_simps [simp]:
  "screenData (draw_glyph c v) = screenData v" "fonts (draw_glyph c v) = fonts v"
  "posX (draw_glyph c v) = posX v" "posY (draw_glyph c v) = posY v"
  "fontColor (draw_glyph c v) = fontColor v" "charWidth (draw_glyph c v) = charWidth v"
  "charHeight (draw_glyph c v) = charHeight v" "font (draw_glyph c v) = font v"
  "charBuffer (draw_glyph c v) = charBuffer v" "bufferIdx (draw_glyph c v) = bufferIdx v"
  by (simp_all add: draw_glyph_def)

lemma draw_glyph_pixel:
  assumes "charWidth v mod 8 = 0" and "unat (posX v) + charWidth v \<le> scr_width v"
    and "unat (posY v) + charHeight v \<le> 2 ^ 16" and "px < scr_width v" and "k < 3"
  shows "vmem (draw_glyph c v) (getPtrToPixel v px py + k) =
    (if unat (posX v) \<le> px \<and> px < unat (posX v) + charWidth v \<and> unat (posY v) \<le> py \<and> py < unat (posY v) + charHeight v \<and>
        glyph_bit v (charHeight v * charWidth v * nat (sint c - FIRST_CHAR) div 8) (px - unat (posX v)) (py - unat (posY v))
     then color_byte (fontColor v) k else vmem v (getPtrToPixel v px py + k))"
proof -
  let ?x = "unat (posX v)" and ?y = "unat (posY v)" and ?a = "getPtrToPixel v px py + k"
  let ?d = "charHeight v * charWidth v * nat (sint c - FIRST_CHAR) div 8"
  have col: "(?a - getPtrToPixel v ?x py) div 3 = px - ?x" if "?x \<le> px"
  proof -
    have "?a - getPtrToPixel v ?x py = k + 3 * (px - ?x)" using that by (simp add: getPtrToPixel_def RGB_SIZE_def)
    then show ?thesis using assms(5) by simp
  qed
  have "(\<exists>r. r < charHeight v \<and> (getPtrToPixel v ?x (?y + r) \<le> ?a \<and> ?a < getPtrToPixel v ?x (?y + r) + 3 * charWidth v) \<and>
        glyph_bit v ?d ((?a - getPtrToPixel v ?x (?y + r)) div 3) r) \<longleftrightarrow>
      (\<exists>r. r < charHeight v \<and> py = ?y + r \<and> ?x \<le> px \<and> px < ?x + charWidth v \<and> glyph_bit v ?d (px - ?x) r)"
    unfolding on_line_ptr [OF assms(2,4,5)] using col by auto
  also have "\<dots> \<longleftrightarrow> ?x \<le> px \<and> px < ?x + charWidth v \<and> ?y \<le> py \<and> py < ?y + charHeight v \<and> glyph_bit v ?d (px - ?x) (py - ?y)"
    by (auto simp: le_iff_add)
  finally have cond: "(\<exists>r. r < charHeight v \<and> getPtrToPixel v ?x (?y + r) \<le> ?a \<and> ?a < getPtrToPixel v ?x (?y + r) + 3 * charWidth v \<and>
        glyph_bit v ?d ((?a - getPtrToPixel v ?x (?y + r)) div 3) r) \<longleftrightarrow>
      ?x \<le> px \<and> px < ?x + charWidth v \<and> ?y \<le> py \<and> py < ?y + charHeight v \<and> glyph_bit v ?d (px - ?x) (py - ?y)"
    by (simp only: conj_assoc)
  have "?a - framebuffer (screenData v) = k + 3 * (px + py * scr_width v)" by (simp add: getPtrToPixel_def RGB_SIZE_def)
  then have "(?a - framebuffer (screenData v)) mod 3 = k" using assms(5) by (simp only: mod_mult_self2) simp
  then show ?thesis by (simp only: draw_glyph_eq [OF assms(1,3)] cond)
qed

lemma draw_glyph_outside:
  assumes "charWidth v mod 8 = 0" and "unat (posX v) + charWidth v \<le> scr_width v"
    and "unat (posY v) + charHeight v \<le> scr_height v" and "scr_height v < 2 ^ 16" and "a \<notin> on_screen v"
  shows "vmem (draw_glyph c v) a = vmem v a"
proof -
  have none: "\<not> (\<exists>r. r < charHeight v \<and> getPtrToPixel v (unat (posX v)) (unat (posY v) + r) \<le> a \<and>
              a < getPtrToPixel v (unat (posX v)) (unat (posY v) + r) + 3 * charWidth v \<and>
              glyph_bit v (charHeight v * charWidth v * nat (sint c - FIRST_CHAR) div 8)
                ((a - getPtrToPixel v (unat (posX v)) (unat (posY v) + r)) div 3) r)"
  proof (rule notI)
    assume "\<exists>r. r < charHeight v \<and> getPtrToPixel v (unat (posX v)) (unat (posY v) + r) \<le> a \<and>
              a < getPtrToPixel v (unat (posX v)) (unat (posY v) + r) + 3 * charWidth v \<and>
              glyph_bit v (charHeight v * charWidth v * nat (sint c - FIRST_CHAR) div 8)
                ((a - getPtrToPixel v (unat (posX v)) (unat (posY v) + r)) div 3) r"
    then obtain r where "r < charHeight v" and "getPtrToPixel v (unat (posX v)) (unat (posY v) + r) \<le> a"
      and "a < getPtrToPixel v (unat (posX v)) (unat (posY v) + r) + 3 * charWidth v" by blast
    with line_on_screen [OF assms(2), of "unat (posY v) + r" a] assms(3,5) show False by simp
  qed
  have "unat (posY v) + charHeight v \<le> 2 ^ 16" using assms(3,4) by linarith
  then show ?thesis by (simp only: draw_glyph_eq [OF assms(1)] if_not_P [OF none])
qed

section \<open>The character grid\<close>

lemma unat_add_of_nat: "unat x + n < 2 ^ LENGTH('a) \<Longrightarrow> unat (x + of_nat n) = unat x + n" for x :: "'a :: len word"
  by (simp add: unat_word_ariths(1) unat_of_nat mod_add_right_eq)

lemma unat_diff_of_nat: "n \<le> unat x \<Longrightarrow> unat (x - of_nat n) = unat x - n" for x :: "'a :: len word"
proof -
  assume n: "n \<le> unat x"
  have "unat x < 2 ^ LENGTH('a)" by (rule unsigned_less)
  with n have "n < 2 ^ LENGTH('a)" by linarith
  then have u: "unat (of_nat n :: 'a word) = n" by (simp add: unat_of_nat)
  with n have "(of_nat n :: 'a word) \<le> x" by (simp add: word_le_nat_alt)
  then show ?thesis by (simp add: unat_sub u)
qed

text \<open>\<open>screen_ok\<close>: a mode and a font that fit each other, and a position on a line of the grid; \<open>column_ok\<close>: at a
  column of the grid. \<open>draws v v'\<close>: nothing but the screen's memory and the driver's own position and buffer change.\<close>

definition screen_ok :: "video \<Rightarrow> bool" where
  "screen_ok v = (0 < charWidth v \<and> 0 < charHeight v \<and> charWidth v mod 8 = 0 \<and> charWidth v \<le> scr_width v \<and>
     charHeight v \<le> scr_height v \<and> scr_width v < 2 ^ 16 \<and> scr_height v < 2 ^ 16 \<and>
     unat (posY v) + charHeight v \<le> scr_height v \<and> unat (posY v) mod charHeight v = 0)"

definition column_ok :: "video \<Rightarrow> bool" where
  "column_ok v = (unat (posX v) + charWidth v \<le> scr_width v \<and> unat (posX v) mod charWidth v = 0)"

definition video_ok :: "video \<Rightarrow> bool" where
  "video_ok v = (screen_ok v \<and> column_ok v \<and> unat (bufferIdx v) \<le> MAX_RESOLUTION)"

definition draws :: "video \<Rightarrow> video \<Rightarrow> bool" where
  "draws v v' = (screenData v' = screenData v \<and> fonts v' = fonts v \<and> font v' = font v \<and> fontColor v' = fontColor v \<and>
     charWidth v' = charWidth v \<and> charHeight v' = charHeight v \<and> (\<forall>a. a \<notin> on_screen v \<longrightarrow> vmem v' a = vmem v a))"

lemma draws_refl: "draws v v"
  by (simp add: draws_def)

lemma draws_trans: "draws u v \<Longrightarrow> draws v w \<Longrightarrow> draws u w"
  by (simp add: draws_def on_screen_def)

lemma last_column_fits:
  assumes "0 < charWidth v" and "charWidth v \<le> scr_width v"
  shows "last_column v = int (scr_width v div charWidth v * charWidth v - charWidth v)"
    and "charWidth v \<le> scr_width v div charWidth v * charWidth v"
proof -
  have "1 \<le> scr_width v div charWidth v" using assms by (simp add: div_greater_zero_iff Suc_le_eq)
  then show fits: "charWidth v \<le> scr_width v div charWidth v * charWidth v" by simp
  show "last_column v = int (scr_width v div charWidth v * charWidth v - charWidth v)"
    unfolding last_column_def using fits by (simp only: of_nat_diff)
qed

lemma printNewline_simps [simp]:
  "screenData (printNewline v) = screenData v" "fonts (printNewline v) = fonts v"
  "posX (printNewline v) = 0" "fontColor (printNewline v) = fontColor v" "charWidth (printNewline v) = charWidth v"
  "charHeight (printNewline v) = charHeight v" "font (printNewline v) = font v"
  "charBuffer (printNewline v) = charBuffer v" "bufferIdx (printNewline v) = bufferIdx v"
  by (simp_all add: printNewline_def Let_def)

lemma printNewline_posY:
  "unat (posY v) + 2 * charHeight v \<le> scr_height v \<Longrightarrow> scr_height v < 2 ^ 16 \<Longrightarrow>
     unat (posY (printNewline v)) = unat (posY v) + charHeight v"
  "\<not> unat (posY v) + 2 * charHeight v \<le> scr_height v \<Longrightarrow> posY (printNewline v) = posY v"
proof -
  assume fit: "unat (posY v) + 2 * charHeight v \<le> scr_height v" "scr_height v < 2 ^ 16"
  have "unat (posY v + of_nat (charHeight v)) = unat (posY v) + charHeight v"
    using fit by (intro unat_add_of_nat) simp_all
  with fit show "unat (posY (printNewline v)) = unat (posY v) + charHeight v" by (simp add: printNewline_def Let_def)
qed (simp add: printNewline_def Let_def)

lemma printNewline_draws:
  assumes "screen_ok v"
  shows "draws v (printNewline v)"
proof (cases "unat (posY v) + 2 * charHeight v \<le> scr_height v")
  case True
  then show ?thesis by (simp add: draws_def printNewline_def Let_def)
next
  case False
  let ?W = "scr_width v" and ?H = "scr_height v" and ?ch = "charHeight v"
  have ch: "?ch \<le> ?H" using assms by (simp add: screen_ok_def)
  have rows: "?W * (?H - ?ch) + ?W * ?ch = ?W * ?H" using ch by (simp add: diff_mult_distrib2)
  let ?m = "memcpy (vmem v) (getPtrToPixel v 0 0) (getPtrToPixel v 0 ?ch) (RGB_SIZE * (?W * (?H - ?ch)))"
  have up: "getPtrToPixel v 0 0 \<le> getPtrToPixel v 0 ?ch" by (simp add: getPtrToPixel_def)
  have v': "vmem (printNewline v) = memset ?m (getPtrToPixel v 0 (?H - ?ch)) 0 (RGB_SIZE * ?W * ?ch)"
    using False by (simp add: printNewline_def Let_def getPtrToPixel_def)
  have "vmem (printNewline v) a = vmem v a" if a: "a \<notin> on_screen v" for a
  proof -
    have "\<not> (getPtrToPixel v 0 (?H - ?ch) \<le> a \<and> a < getPtrToPixel v 0 (?H - ?ch) + RGB_SIZE * ?W * ?ch)"
      using a rows by (auto simp: on_screen_def getPtrToPixel_def RGB_SIZE_def algebra_simps)
    moreover have "\<not> (getPtrToPixel v 0 0 \<le> a \<and> a < getPtrToPixel v 0 0 + RGB_SIZE * (?W * (?H - ?ch)))"
    proof -
      have "?W * (?H - ?ch) \<le> ?W * ?H" by (intro mult_le_mono2) simp
      moreover have "b \<notin> {a. f \<le> a \<and> a < f + 3 * B} \<Longrightarrow> A \<le> B \<Longrightarrow> \<not> (f + 3 * (0 + 0 * w) \<le> b \<and> b < f + 3 * (0 + 0 * w) + 3 * A)"
        for f b w A B :: nat by auto
      ultimately show ?thesis using a unfolding on_screen_def getPtrToPixel_def RGB_SIZE_def by blast
    qed
    ultimately show ?thesis by (simp only: v' memset_def memset_down_eq memcpy_eq [OF disjI1 [OF up]] if_False)
  qed
  then show ?thesis by (simp add: draws_def)
qed

lemma printNewline_ok:
  assumes "screen_ok v"
  shows "screen_ok (printNewline v) \<and> column_ok (printNewline v)"
proof (cases "unat (posY v) + 2 * charHeight v \<le> scr_height v")
  case True
  then have "unat (posY (printNewline v)) = unat (posY v) + charHeight v"
    using assms by (intro printNewline_posY(1)) (simp_all add: screen_ok_def)
  with True assms show ?thesis by (simp add: screen_ok_def column_ok_def mod_add_self2)
next
  case False
  with assms show ?thesis by (simp add: screen_ok_def column_ok_def printNewline_posY(2))
qed

text \<open>A character leaves a screen that is fine as it is, and the next one has a place.\<close>

lemma put_char_ok:
  assumes "video_ok v" and "unat (bufferIdx v) < MAX_RESOLUTION"
  shows "video_ok (put_char c v) \<and> draws v (put_char c v) \<and> unat (bufferIdx (put_char c v)) = unat (bufferIdx v) + 1 \<and>
    charBuffer (put_char c v) = (charBuffer v)(unat (bufferIdx v) := c)"
proof -
  define v1 where "v1 = v\<lparr>charBuffer := (charBuffer v)(unat (bufferIdx v) := c), bufferIdx := bufferIdx v + 1\<rparr>"
  define v2 where "v2 = (if FIRST_CHAR \<le> sint c \<and> sint c \<le> LAST_CHAR then draw_glyph c v1 else v1)"
  define v3 where "v3 = v2\<lparr>posX := posX v2 + of_nat (charWidth v2)\<rparr>"
  have s: "screen_ok v" and col: "column_ok v" using assms(1) by (simp_all add: video_ok_def)
  have idx: "unat (bufferIdx v + 1) = unat (bufferIdx v) + 1"
    using unat_add_of_nat [of "bufferIdx v" 1] assms(2) by (simp add: MAX_RESOLUTION_def)
  have on1: "on_screen v1 = on_screen v" by (simp add: v1_def on_screen_def)
  have s1: "screen_ok v1" using s by (simp add: v1_def screen_ok_def)
  have d2: "draws v v2"
  proof -
    have "vmem v2 a = vmem v a" if "a \<notin> on_screen v" for a
      using draw_glyph_outside [of v1 a c] s col that
      by (simp add: v2_def on1) (simp add: v1_def screen_ok_def column_ok_def)
    then show ?thesis by (simp add: draws_def v2_def v1_def)
  qed
  have same: "posX v2 = posX v" "posY v2 = posY v" "bufferIdx v2 = bufferIdx v + 1"
      "charBuffer v2 = (charBuffer v)(unat (bufferIdx v) := c)" "charWidth v2 = charWidth v" "charHeight v2 = charHeight v"
      "screenData v2 = screenData v"
    by (simp_all add: v2_def v1_def)
  have d3: "draws v v3" using d2 by (simp add: v3_def draws_def)
  have s3: "screen_ok v3" using s by (simp add: v3_def screen_ok_def same)
  have x3: "unat (posX v3) = unat (posX v) + charWidth v"
    unfolding v3_def using s col by (simp add: same) (rule unat_add_of_nat; simp add: screen_ok_def column_ok_def)
  show ?thesis
  proof (cases "c = 10 \<or> int (unat (posX v3)) > last_column v3")
    case True
    define u where "u = (if c = 10 then v1 else v3)"
    have "put_char c v = printNewline u"
      using True by (auto simp: put_char_def Let_def u_def v1_def v2_def v3_def)
    moreover have "screen_ok u" using s1 s3 by (simp add: u_def)
    moreover have "draws v u" using d3 by (simp add: u_def) (simp add: v1_def draws_def)
    moreover have "charBuffer u = (charBuffer v)(unat (bufferIdx v) := c)" "bufferIdx u = bufferIdx v + 1"
      by (simp_all add: u_def v3_def same) (simp_all add: v1_def)
    ultimately show ?thesis
      using printNewline_ok [of u] printNewline_draws [of u] draws_trans [of v u "printNewline u"] assms(2)
      by (simp add: video_ok_def idx)
  next
    case False
    then have "put_char c v = v3" by (auto simp: put_char_def Let_def v1_def v2_def v3_def)
    moreover have "column_ok v3"
    proof -
      have same3: "charWidth v3 = charWidth v" "screenData v3 = screenData v" by (simp_all add: v3_def same)
      have lc: "last_column v3 = int (scr_width v div charWidth v * charWidth v - charWidth v)"
        "charWidth v \<le> scr_width v div charWidth v * charWidth v"
        using last_column_fits [of v3] s by (simp_all only: same3 screen_ok_def)
      have "unat (posX v3) \<le> scr_width v div charWidth v * charWidth v - charWidth v"
        using False unfolding lc(1) by (simp only: de_Morgan_disj not_less of_nat_le_iff)
      with lc(2) have "unat (posX v3) + charWidth v \<le> scr_width v div charWidth v * charWidth v" by linarith
      also have "\<dots> \<le> scr_width v" by simp
      finally show ?thesis using col by (simp only: column_ok_def same3) (simp add: x3)
    qed
    ultimately show ?thesis using s3 d3 assms(2) by (simp add: video_ok_def v3_def same idx)
  qed
qed

section \<open>Texts\<close>

lemma draws_on_screen: "draws v v' \<Longrightarrow> on_screen v' = on_screen v"
  by (simp add: draws_def on_screen_def)

lemma put_chars_ok:
  assumes "video_ok v" and "unat (bufferIdx v) + length xs \<le> MAX_RESOLUTION"
  shows "video_ok (fold put_char xs v) \<and> draws v (fold put_char xs v) \<and>
    unat (bufferIdx (fold put_char xs v)) = unat (bufferIdx v) + length xs \<and>
    (\<forall>i \<ge> MAX_RESOLUTION. charBuffer (fold put_char xs v) i = charBuffer v i)"
  using assms
proof (induction xs arbitrary: v)
  case (Cons c xs)
  have "unat (bufferIdx v) < MAX_RESOLUTION" using Cons.prems(2) by simp
  note one = put_char_ok [OF Cons.prems(1) this, of c]
  have "unat (bufferIdx (put_char c v)) + length xs \<le> MAX_RESOLUTION" using one Cons.prems(2) by simp
  note rest = Cons.IH [OF conjunct1 [OF one] this]
  have "charBuffer (put_char c v) i = charBuffer v i" if "MAX_RESOLUTION \<le> i" for i
    using one Cons.prems(2) that by simp
  with one rest draws_trans [of v "put_char c v" "fold put_char xs (put_char c v)"] show ?case by simp
qed (simp add: draws_refl)

lemma videoClear_ok:
  assumes "screen_ok v"
  shows "video_ok (videoClear v) \<and> draws v (videoClear v) \<and> charBuffer (videoClear v) = charBuffer v \<and> bufferIdx (videoClear v) = 0"
proof -
  have "vmem (videoClear v) a = vmem v a" if "a \<notin> on_screen v" for a
    using that by (auto simp: videoClear_def memset_def memset_down_eq on_screen_def getPtrToPixel_def RGB_SIZE_def mult.assoc)
  then show ?thesis
    using assms by (simp add: draws_def) (simp add: videoClear_def video_ok_def screen_ok_def column_ok_def)
qed

lemma message_fits: "length MSG_BUFFER_EXCEEDED = 55" and message_plain: "8 \<notin> set MSG_BUFFER_EXCEEDED"
  by (simp_all add: MSG_BUFFER_EXCEEDED_def)

text \<open>Printed on an empty buffer, the message goes through \<open>printChar\<close> as through \<open>put_char\<close>.\<close>

lemma put_chars_printed:
  assumes "video_ok v" and "8 \<notin> set xs" and "unat (bufferIdx v) + length xs \<le> MAX_RESOLUTION"
  shows "print_text xs v = fold put_char xs v"
  using assms
proof (induction xs arbitrary: v)
  case (Cons c xs)
  then have "unat (bufferIdx v) < MAX_RESOLUTION" by simp
  with Cons put_char_ok [OF Cons.prems(1) this, of c] show ?case by (simp add: print_text_def printChar_def)
qed (simp add: print_text_def)

lemma printChar_ok:
  assumes "video_ok v" and "c \<noteq> 8"
  shows "video_ok (printChar c v) \<and> draws v (printChar c v) \<and> (\<forall>i \<ge> MAX_RESOLUTION. charBuffer (printChar c v) i = charBuffer v i)"
proof (cases "unat (bufferIdx v) = MAX_RESOLUTION")
  case True
  have "screen_ok v" using assms(1) by (simp add: video_ok_def)
  note clear = videoClear_ok [OF this]
  define w where "w = fold put_char MSG_BUFFER_EXCEEDED (videoClear v)"
  have w: "video_ok w \<and> draws (videoClear v) w \<and> unat (bufferIdx w) = 55 \<and> (\<forall>i \<ge> MAX_RESOLUTION. charBuffer w i = charBuffer v i)"
    using put_chars_ok [of "videoClear v" MSG_BUFFER_EXCEEDED] clear
    by (simp add: w_def message_fits MAX_RESOLUTION_def)
  moreover have "unat (bufferIdx w) < MAX_RESOLUTION" using w by (simp add: MAX_RESOLUTION_def)
  note last = put_char_ok [OF conjunct1 [OF w] this, of c]
  have "draws v (put_char c w)" using clear w last draws_trans by blast
  moreover have "charBuffer (put_char c w) i = charBuffer v i" if "MAX_RESOLUTION \<le> i" for i
    using last w that by (simp add: MAX_RESOLUTION_def)
  moreover have "printChar c v = put_char c w" using True assms(2) by (simp add: printChar_def w_def)
  ultimately show ?thesis using last by simp
next
  case False
  then have lt: "unat (bufferIdx v) < MAX_RESOLUTION" using assms(1) by (simp add: video_ok_def)
  have "charBuffer (put_char c v) i = charBuffer v i" if "MAX_RESOLUTION \<le> i" for i
    using put_char_ok [OF assms(1) lt, of c] that lt by simp
  then show ?thesis using put_char_ok [OF assms(1) lt, of c] False assms(2) by (simp add: printChar_def)
qed

lemma print_text_ok:
  assumes "video_ok v" and "8 \<notin> set xs"
  shows "video_ok (print_text xs v) \<and> draws v (print_text xs v) \<and> (\<forall>i \<ge> MAX_RESOLUTION. charBuffer (print_text xs v) i = charBuffer v i)"
  using assms
proof (induction xs arbitrary: v)
  case (Cons c xs)
  have c: "c \<noteq> 8" and xs: "8 \<notin> set xs" using Cons.prems(2) by auto
  note one = printChar_ok [OF Cons.prems(1) c]
  note rest = Cons.IH [OF conjunct1 [OF one] xs]
  show ?case
    using one rest draws_trans [of v "printChar c v" "print_text xs (printChar c v)"] by (simp add: print_text_def)
qed (simp add: draws_refl print_text_def)

lemma print_is_text:
  assumes "video_ok v" and "is_str (vmem v) s xs" and "8 \<notin> set xs" and "\<And>a. s \<le> a \<Longrightarrow> a \<le> s + length xs \<Longrightarrow> a \<notin> on_screen v"
  shows "print s v = Some (print_text xs v)"
  using assms
proof (induction xs arbitrary: v s)
  case Nil
  then show ?case by (simp add: print.simps print_text_def)
next
  case (Cons c xs)
  then have c: "vmem v s = c" "c \<noteq> 0" "c \<noteq> 8" "is_str (vmem v) (s + 1) xs" by auto
  note one = printChar_ok [OF Cons.prems(1) c(3)]
  have off: "a \<notin> on_screen v" if "s \<le> a" "a \<le> s + length (c # xs)" for a by (rule Cons.prems(4) [OF that])
  have "is_str (vmem (printChar c v)) (s + 1) xs"
    using c(4) by (rule is_str_frame) (use one off in \<open>simp add: draws_def\<close>)
  moreover have "a \<notin> on_screen (printChar c v)" if "s + 1 \<le> a" "a \<le> s + 1 + length xs" for a
    using off [of a] that draws_on_screen [of v "printChar c v"] one by simp
  ultimately have "print (s + 1) (printChar c v) = Some (print_text xs (printChar c v))"
    using Cons.IH [of "printChar c v" "s + 1"] one Cons.prems(3) by simp
  then show ?case using c by (subst print.simps) (simp add: print_text_def)
qed

lemma printNChars_text: "printNChars c n v = print_text (replicate (nat n) c) v"
proof -
  have "(printChar c ^^ k) v = fold printChar (replicate k c) v" for k
    by (induction k arbitrary: v) (simp_all add: funpow_swap1)
  then show ?thesis by (simp add: printNChars_def print_text_def)
qed

lemma print_text_append: "print_text (xs @ ys) v = print_text ys (print_text xs v)"
  by (simp add: print_text_def)

section \<open>Backspace and font size\<close>

lemma backspace_simps [simp]:
  "screenData (backspace v) = screenData v" "charWidth (backspace v) = charWidth v" "charHeight (backspace v) = charHeight v"
  "charBuffer (backspace v) = charBuffer v" "bufferIdx (backspace v) = bufferIdx v - 1"
  by (simp_all add: backspace_def Let_def)

text \<open>Where a backspace goes back to: the place before, or the last one of the line above.\<close>

lemma backspace_place:
  assumes "screen_ok v"
  shows "charWidth v \<le> unat (posX v) \<Longrightarrow> unat (posX (backspace v)) = unat (posX v) - charWidth v \<and> posY (backspace v) = posY v"
    and "unat (posX v) < charWidth v \<Longrightarrow> 0 < posY v \<Longrightarrow>
      unat (posX (backspace v)) = scr_width v div charWidth v * charWidth v - charWidth v \<and>
      unat (posY (backspace v)) = unat (posY v) - charHeight v"
proof -
  show "charWidth v \<le> unat (posX v) \<Longrightarrow> unat (posX (backspace v)) = unat (posX v) - charWidth v \<and> posY (backspace v) = posY v"
    by (simp add: backspace_def Let_def unat_diff_of_nat)
next
  assume x: "unat (posX v) < charWidth v" and y: "0 < posY v"
  let ?l = "scr_width v div charWidth v * charWidth v - charWidth v"
  have "scr_width v div charWidth v * charWidth v \<le> scr_width v" by (rule div_times_less_eq_dividend)
  moreover have "scr_width v < 2 ^ 16" using assms by (simp only: screen_ok_def)
  ultimately have "?l < 2 ^ 16" by linarith
  moreover have "last_column v = int ?l"
    using last_column_fits(1) [of v] assms by (simp only: screen_ok_def)
  ultimately have "unat (word_of_int (last_column v) :: 16 word) = ?l" by (simp only: of_int_of_nat_eq unat_of_nat) simp
  moreover have "charHeight v \<le> unat (posY v)"
  proof (rule ccontr)
    assume "\<not> charHeight v \<le> unat (posY v)"
    then have "unat (posY v) = 0" using assms by (simp add: screen_ok_def)
    with y show False by (simp add: word_less_nat_alt)
  qed
  then have "unat (posY v - of_nat (charHeight v)) = unat (posY v) - charHeight v" by (rule unat_diff_of_nat)
  ultimately show "unat (posX (backspace v)) = ?l \<and> unat (posY (backspace v)) = unat (posY v) - charHeight v"
    using x y by (simp add: backspace_def Let_def last_column_def)
qed

text \<open>A character that did not scroll the screen is taken back by a backspace.\<close>

lemma backspace_put_char:
  assumes "video_ok v" and "unat (bufferIdx v) < MAX_RESOLUTION" and "c \<noteq> 10"
    and "unat (posX v) + 2 * charWidth v \<le> scr_width v \<or> unat (posY v) + 2 * charHeight v \<le> scr_height v"
  shows "posX (backspace (put_char c v)) = posX v \<and> posY (backspace (put_char c v)) = posY v \<and>
    bufferIdx (backspace (put_char c v)) = bufferIdx v"
proof -
  define v3 where "v3 = (let v1 = v\<lparr>charBuffer := (charBuffer v)(unat (bufferIdx v) := c), bufferIdx := bufferIdx v + 1\<rparr>;
      v2 = (if FIRST_CHAR \<le> sint c \<and> sint c \<le> LAST_CHAR then draw_glyph c v1 else v1) in v2\<lparr>posX := posX v2 + of_nat (charWidth v2)\<rparr>)"
  let ?cw = "charWidth v" and ?cols = "scr_width v div charWidth v * charWidth v"
  have s: "screen_ok v" and col: "column_ok v" using assms(1) by (simp_all add: video_ok_def)
  have f: "screenData v3 = screenData v" "charWidth v3 = ?cw" "charHeight v3 = charHeight v" "posY v3 = posY v"
      "bufferIdx v3 = bufferIdx v + 1" and x: "posX v3 = posX v + of_nat ?cw"
    by (simp_all add: v3_def Let_def)
  have x3: "unat (posX v3) = unat (posX v) + ?cw"
    unfolding x using s col by (intro unat_add_of_nat) (simp add: screen_ok_def column_ok_def)
  have p: "put_char c v = (if int (unat (posX v3)) > last_column v3 then printNewline v3 else v3)"
    using assms(3) by (simp add: put_char_def v3_def Let_def)
  have s3: "screen_ok v3" using s by (simp add: screen_ok_def f)
  have lc: "last_column v3 = int (?cols - ?cw)" "?cw \<le> ?cols"
    using last_column_fits [of v3] s by (simp_all only: f screen_ok_def)
  show ?thesis
  proof (cases "unat (posX v3) > ?cols - ?cw")
    case False
    then have "put_char c v = v3" by (simp only: p lc of_nat_less_iff if_False)
    moreover have "unat (posX (backspace v3)) = unat (posX v) \<and> posY (backspace v3) = posY v"
      using backspace_place(1) [OF s3] x3 by (simp add: f)
    ultimately show ?thesis by (simp add: f word_unat_eq_iff)
  next
    case True
    then have pn: "put_char c v = printNewline v3" by (simp only: p lc of_nat_less_iff if_True)
    obtain q where q: "unat (posX v) = ?cw * q" using col by (auto simp: column_ok_def)
    have "?cw * (q + 1) \<le> scr_width v" using col q by (simp add: column_ok_def)
    then have "q + 1 \<le> scr_width v div ?cw" using s by (simp add: screen_ok_def less_eq_div_iff_mult_less_eq mult.commute)
    moreover have "?cols - ?cw < ?cw * (q + 1)" using True x3 q by simp
    then have "scr_width v div ?cw < q + 2"
    proof -
      assume "?cols - ?cw < ?cw * (q + 1)"
      then have "?cw * (scr_width v div ?cw) < ?cw * (q + 2)" using lc(2) by (simp add: mult.commute algebra_simps)
      then show ?thesis by (simp only: nat_mult_less_cancel_disj)
    qed
    ultimately have cols: "scr_width v div ?cw = q + 1" by simp
    have "\<not> unat (posX v) + 2 * ?cw \<le> scr_width v"
    proof
      assume "unat (posX v) + 2 * ?cw \<le> scr_width v"
      then have "(q + 2) * ?cw \<le> scr_width v" using q by (simp add: algebra_simps)
      then have "q + 2 \<le> scr_width v div ?cw" using s by (simp add: screen_ok_def less_eq_div_iff_mult_less_eq)
      with cols show False by simp
    qed
    then have room: "unat (posY v) + 2 * charHeight v \<le> scr_height v" using assms(4) by simp
    have y: "unat (posY (printNewline v3)) = unat (posY v) + charHeight v"
      using printNewline_posY(1) [of v3] room s by (simp add: f screen_ok_def)
    have "0 < posY (printNewline v3)" using y s by (simp add: word_less_nat_alt screen_ok_def)
    then have "unat (posX (backspace (printNewline v3))) = ?cols - ?cw \<and> unat (posY (backspace (printNewline v3))) = unat (posY v)"
      using backspace_place(2) [OF conjunct1 [OF printNewline_ok [OF s3]]] s y by (simp add: f screen_ok_def)
    then show ?thesis using cols q by (simp add: pn f word_unat_eq_iff)
  qed
qed

text \<open>Reprinting the buffer leaves it as it is, character by character.\<close>

lemma printN_keeps:
  assumes "video_ok v" and "unat (bufferIdx v) = i" and "i + n \<le> MAX_RESOLUTION"
    and "\<And>j. i \<le> j \<Longrightarrow> j < i + n \<Longrightarrow> charBuffer v j \<noteq> 0 \<and> charBuffer v j \<noteq> 8"
  shows "video_ok (printN n i v) \<and> draws v (printN n i v) \<and> charBuffer (printN n i v) = charBuffer v \<and>
    unat (bufferIdx (printN n i v)) = i + n"
  using assms
proof (induction n arbitrary: v i)
  case (Suc n)
  let ?w = "put_char (charBuffer v i) v"
  have lt: "unat (bufferIdx v) < MAX_RESOLUTION" using Suc.prems by simp
  note one = put_char_ok [OF Suc.prems(1) lt, of "charBuffer v i"]
  have c: "charBuffer v i \<noteq> 0" "charBuffer v i \<noteq> 8" using Suc.prems(4) [of i] by simp_all
  have p: "printChar (charBuffer v i) v = ?w" using c lt by (simp add: printChar_def)
  have buf: "charBuffer ?w = charBuffer v" using one Suc.prems(2) by simp
  have "video_ok (printN n (i + 1) ?w) \<and> draws ?w (printN n (i + 1) ?w) \<and> charBuffer (printN n (i + 1) ?w) = charBuffer ?w \<and>
      unat (bufferIdx (printN n (i + 1) ?w)) = i + 1 + n"
    using one Suc.prems by (intro Suc.IH) (simp_all add: buf)
  with one c p buf draws_trans [of v ?w "printN n (i + 1) ?w"] show ?case by simp
qed (simp add: draws_refl)

lemma fold_put_char_glyph: "sint (c :: byte) < 33 \<or> 126 < sint c \<or> (33 \<le> sint c \<and> sint c \<le> 126)"
  by linarith

section \<open>Properties\<close>


definition demo_video :: video where
  "demo_video = \<lparr>screenData = \<lparr>framebuffer = 1000, width = 20, height = 33\<rparr>, vmem = (\<lambda>_. 7), fonts = (\<lambda>_ _. 5),
     posX = 0, posY = 0, fontColor = DEFAULT_COLOR, charWidth = 8, charHeight = 16, font = (\<lambda>_. 5),
     charBuffer = (\<lambda>i. if i < 3 then 65 else 0), bufferIdx = 3\<rparr>"

lemma demo_video_ok: "video_ok demo_video"
  by (simp add: demo_video_def video_ok_def screen_ok_def column_ok_def MAX_RESOLUTION_def)


text \<open>
  \<open>drawRect\<close> colours exactly the pixels of the rectangle that are on the screen: of
  every pixel its three bytes are those of the colour inside and untouched outside, and no byte outside the frame
  buffer changes.
\<close>

theorem drawRect_clips:
  assumes "px < scr_width v" and "py < scr_height v" and "k < 3" and "a \<notin> on_screen v"
  shows "vmem (drawRect x y w h c v) (getPtrToPixel v px py + k) =
      (if x \<le> px \<and> px < x + w \<and> y \<le> py \<and> py < y + h then color_byte c k else vmem v (getPtrToPixel v px py + k)) \<and>
    vmem (drawRect x y w h c v) a = vmem v a"
  using drawRect_pixel [OF assms(1-3)] drawRect_outside [OF assms(4)] by simp

theorem drawRect_clips_witness:
  "vmem (drawRect 10 10 100 2 ERROR_COLOR demo_video) (getPtrToPixel demo_video 19 11 + 2) = 255"
  using drawRect_clips [of 19 demo_video 11 2 0 10 10 100 2 ERROR_COLOR]
  by (simp add: demo_video_def on_screen_def color_byte_def ERROR_COLOR_def)

text \<open>
  C20. A visible character that does not fill its line is painted as its bitmap says: a
  pixel of the cell has the font's colour where the bitmap of the character has a one (lines of a whole number of
  bytes, least significant bit leftmost) and every other pixel of the screen keeps its colour; the character is in the
  buffer and the position one cell further.
\<close>

theorem printChar_paints:
  assumes "video_ok v" and "unat (bufferIdx v) < MAX_RESOLUTION" and "33 \<le> sint c" and "sint c \<le> 126"
    and "unat (posX v) + 2 * charWidth v \<le> scr_width v div charWidth v * charWidth v"
    and "px < scr_width v" and "k < 3"
  shows "vmem (printChar c v) (getPtrToPixel v px py + k) =
      (if unat (posX v) \<le> px \<and> px < unat (posX v) + charWidth v \<and> unat (posY v) \<le> py \<and> py < unat (posY v) + charHeight v \<and>
          glyph_bit v (charHeight v * charWidth v * nat (sint c - 33) div 8) (px - unat (posX v)) (py - unat (posY v))
       then color_byte (fontColor v) k else vmem v (getPtrToPixel v px py + k)) \<and>
    charBuffer (printChar c v) (unat (bufferIdx v)) = c \<and> unat (posX (printChar c v)) = unat (posX v) + charWidth v"
proof -
  define v1 where "v1 = v\<lparr>charBuffer := (charBuffer v)(unat (bufferIdx v) := c), bufferIdx := bufferIdx v + 1\<rparr>"
  define v3 where "v3 = (draw_glyph c v1)\<lparr>posX := posX v1 + of_nat (charWidth v1)\<rparr>"
  have s: "screen_ok v" and col: "column_ok v" using assms(1) by (simp_all add: video_ok_def)
  have ne: "c \<noteq> 8" "c \<noteq> 10" using assms(3) by auto
  have f: "screenData v3 = screenData v" "charWidth v3 = charWidth v" "posX v3 = posX v + of_nat (charWidth v)"
      "charBuffer v3 = (charBuffer v)(unat (bufferIdx v) := c)"
    by (simp_all add: v3_def v1_def)
  have x3: "unat (posX v3) = unat (posX v) + charWidth v"
    unfolding f using s col by (intro unat_add_of_nat) (simp add: screen_ok_def column_ok_def)
  have lc: "last_column v3 = int (scr_width v div charWidth v * charWidth v - charWidth v)"
    using last_column_fits(1) [of v3] s by (simp only: f screen_ok_def)
  have "\<not> int (unat (posX v3)) > last_column v3" unfolding lc x3 of_nat_less_iff using assms(5) by linarith
  then have p: "printChar c v = v3"
    using assms(2-4) ne by (simp add: printChar_def put_char_def FIRST_CHAR_def LAST_CHAR_def Let_def v3_def v1_def)
  have "vmem (draw_glyph c v1) (getPtrToPixel v1 px py + k) =
    (if unat (posX v1) \<le> px \<and> px < unat (posX v1) + charWidth v1 \<and> unat (posY v1) \<le> py \<and> py < unat (posY v1) + charHeight v1 \<and>
        glyph_bit v1 (charHeight v1 * charWidth v1 * nat (sint c - FIRST_CHAR) div 8) (px - unat (posX v1)) (py - unat (posY v1))
     then color_byte (fontColor v1) k else vmem v1 (getPtrToPixel v1 px py + k))"
    using s col assms(6,7) by (intro draw_glyph_pixel) (simp_all add: v1_def screen_ok_def column_ok_def)
  then have "vmem v3 (getPtrToPixel v px py + k) =
    (if unat (posX v) \<le> px \<and> px < unat (posX v) + charWidth v \<and> unat (posY v) \<le> py \<and> py < unat (posY v) + charHeight v \<and>
        glyph_bit v (charHeight v * charWidth v * nat (sint c - 33) div 8) (px - unat (posX v)) (py - unat (posY v))
     then color_byte (fontColor v) k else vmem v (getPtrToPixel v px py + k))"
    by (simp add: v3_def v1_def getPtrToPixel_def glyph_bit_def FIRST_CHAR_def)
  then show ?thesis unfolding p using x3 f(4) by simp
qed

theorem printChar_paints_witness:
  "vmem (printChar 65 demo_video) (getPtrToPixel demo_video 2 1) = 255 \<and> vmem (printChar 65 demo_video) (getPtrToPixel demo_video 1 1) = 7"
  using printChar_paints [OF demo_video_ok, of 65 2 0 1] printChar_paints [OF demo_video_ok, of 65 1 0 1]
  by (simp add: demo_video_def MAX_RESOLUTION_def glyph_bit_def color_byte_def DEFAULT_COLOR_def)

text \<open>
  A backspace takes back the character before it: after a character that did not
  scroll the screen (at the end of a line too, where the position moved on to the next one), position and buffer are
  as before it.
\<close>

theorem backspace_undoes:
  assumes "video_ok v" and "unat (bufferIdx v) < MAX_RESOLUTION" and "c \<noteq> 8" and "c \<noteq> 10"
    and "unat (posX v) + 2 * charWidth v \<le> scr_width v \<or> unat (posY v) + 2 * charHeight v \<le> scr_height v"
  shows "posX (printChar 8 (printChar c v)) = posX v \<and> posY (printChar 8 (printChar c v)) = posY v \<and>
    bufferIdx (printChar 8 (printChar c v)) = bufferIdx v"
  using backspace_put_char [OF assms(1,2,4,5)] assms(2,3) by (simp add: printChar_def)

theorem backspace_undoes_witness: "bufferIdx (printChar 8 (printChar 65 demo_video)) = 3"
  using backspace_undoes [OF demo_video_ok, of 65] by (simp add: demo_video_def MAX_RESOLUTION_def)

text \<open>
  Nothing keeps a backspace from an empty buffer: the 16 bit index becomes 65535,
  which is neither the end the driver tests for nor inside the buffer, and the next character is written there, past
  the 8192 characters of \<open>_charBuffer\<close>.
\<close>

theorem backspace_underflows:
  assumes "bufferIdx v = 0" and "c \<noteq> 8"
  shows "MAX_RESOLUTION \<le> 65535 \<and> unat (bufferIdx (printChar 8 v)) = 65535 \<and> charBuffer (printChar c (printChar 8 v)) 65535 = c"
proof -
  have i: "unat (bufferIdx (backspace v)) = 65535" using assms(1) by (simp add: unsigned_minus_1_eq_mask mask_eq_exp_minus_1)
  have "charBuffer (put_char c w) (unat (bufferIdx w)) = c" for w
    by (simp add: put_char_def Let_def)
  from this [of "backspace v"] i assms(2) show ?thesis by (simp add: printChar_def MAX_RESOLUTION_def)
qed

theorem backspace_underflows_witness: "charBuffer (printChar 66 (printChar 8 (videoClear demo_video))) 65535 = 66"
  using backspace_underflows [of "videoClear demo_video" 66] by (simp add: videoClear_def)



text \<open>
  The \<open>%d\<close> and \<open>%x\<close> of \<open>printf\<close> print the argument's digits in base 10 or 16, read as an
  unsigned 64 bit number, after the zeros that fill the width: exactly \<open>dx\<close> characters where the number has no more,
  and all of its digits where it has.
\<close>

theorem printf_number:
  assumes "video_ok v" and "f = 100 \<and> base = 10 \<or> f = 120 \<and> base = 16"
    and "\<And>a. buf \<le> a \<Longrightarrow> a \<le> buf + 64 \<Longrightarrow> a \<notin> on_screen v"
  shows "\<exists>m. conversion f dx (w # rest) buf v =
    Some (rest, print_text (replicate (nat (dx - int (length (digits base (unat w))))) 48 @ map digit_char (digits base (unat w)))
      (v\<lparr>vmem := m\<rparr>))"
proof -
  have b: "2 \<le> base" "base \<le> 36" using assms(2) by auto
  have "unat w < 2 ^ 64" using unsigned_less [of w] by simp
  from itoa_digits [OF b this, of "vmem v" buf] obtain m where
    m: "itoa (vmem v) (unat w) buf base = Some (m, length (digits base (unat w)))"
    and str: "is_str m buf (map digit_char (digits base (unat w)))" and len: "length (digits base (unat w)) \<le> 64" by blast
  let ?ds = "digits base (unat w)" and ?v = "v\<lparr>vmem := m\<rparr>"
  have vok: "video_ok ?v" using assms(1) by (simp add: video_ok_def screen_ok_def column_ok_def)
  have plain: "8 \<notin> set (map digit_char ?ds)"
  proof
    assume "8 \<in> set (map digit_char ?ds)"
    then obtain d where d: "d \<in> set ?ds" "digit_char d = 8" by auto
    have "d < 36" using digits_less [OF b(1) d(1)] b(2) by simp
    then have "d \<in> set [0 ..< 36]" by simp
    then show False using d(2) by (auto simp: digit_char_def upt_rec)
  qed
  let ?pad = "replicate (nat (dx - int (length ?ds))) (48 :: byte)"
  have zeros: "8 \<notin> set ?pad" by auto
  note p = print_text_ok [OF vok zeros]
  have off: "a \<notin> on_screen ?v" if "buf \<le> a" "a \<le> buf + 64" for a using assms(3) [OF that] by (simp add: on_screen_def)
  have "print buf (print_text ?pad ?v) = Some (print_text (map digit_char ?ds) (print_text ?pad ?v))"
  proof (rule print_is_text [OF conjunct1 [OF p]])
    show "is_str (vmem (print_text ?pad ?v)) buf (map digit_char ?ds)"
      using str by (rule is_str_frame) (use p off len in \<open>simp add: draws_def\<close>)
    show "a \<notin> on_screen (print_text ?pad ?v)" if "buf \<le> a" "a \<le> buf + length (map digit_char ?ds)" for a
      using off [of a] that len draws_on_screen [of ?v "print_text ?pad ?v"] p by simp
  qed (rule plain)
  then have "print_number w base dx buf v = Some (print_text (?pad @ map digit_char ?ds) ?v)"
    by (simp add: print_number_def m printNChars_text print_text_append)
  then show ?thesis using assms(2) by (auto simp: conversion_def)
qed

theorem printf_number_witness:
  "\<exists>m. conversion 120 4 [255] 5000 demo_video = Some ([], print_text [48, 48, 70, 70] (demo_video\<lparr>vmem := m\<rparr>))"
proof -
  have d: "digits 16 (unat (255 :: 64 word)) = [15, 15]" by (simp add: digits.simps)
  have off: "a \<notin> on_screen demo_video" if "5000 \<le> a" for a using that by (simp add: demo_video_def on_screen_def)
  have pad: "replicate (nat (4 - int (length [15, 15 :: nat]))) (48 :: byte) = [48, 48]" by (simp add: numeral_2_eq_2)
  have "map digit_char [15, 15] = [70, 70]" by (simp add: digit_char_def)
  with printf_number [OF demo_video_ok, of 120 16 5000 4 255 "[]", OF _ off] show ?thesis
    unfolding d pad by simp
qed

end
