(* ===== verification/Interrupts.thy ===== *)
theory Interrupts
  imports Keyboard Video
begin

text \<open>
  What the interrupts reach: the descriptor table of \<open>idtLoader.c\<close> (with \<open>include/defs.h\<close>), \<open>time.c\<close>,
  \<open>irqDispatcher.c\<close>, the registers of \<open>memory.c\<close> and the report of \<open>exceptions.c\<close>. The state of the kernel with its
  devices is the record \<open>machine\<close>: the bytes of the memory are those of the screen driver's state.
\<close>

unbundle bit_operations_syntax

section \<open>The descriptor table\<close>

definition ACS_PRESENT :: byte where "ACS_PRESENT = 0x80"
definition ACS_INT_386 :: byte where "ACS_INT_386 = 0x0E"
definition ACS_INT :: byte where "ACS_INT = ACS_PRESENT OR ACS_INT_386"

record descr_int =
  offset_l :: "16 word"
  selector :: "16 word"
  cero :: byte
  access :: byte
  offset_m :: "16 word"
  offset_h :: "32 word"
  other_cero :: "32 word"

text \<open>The structure is packed: its bytes in memory, least significant first.\<close>

definition descr_bytes :: "descr_int \<Rightarrow> byte list" where
  "descr_bytes d = [ucast (offset_l d), ucast (drop_bit 8 (offset_l d)), ucast (selector d), ucast (drop_bit 8 (selector d)),
     cero d, access d, ucast (offset_m d), ucast (drop_bit 8 (offset_m d)),
     ucast (offset_h d), ucast (drop_bit 8 (offset_h d)), ucast (drop_bit 16 (offset_h d)), ucast (drop_bit 24 (offset_h d)),
     ucast (other_cero d), ucast (drop_bit 8 (other_cero d)), ucast (drop_bit 16 (other_cero d)), ucast (drop_bit 24 (other_cero d))]"

type_synonym idt = "nat \<Rightarrow> descr_int"

definition setup_IDT_entry :: "nat \<Rightarrow> 64 word \<Rightarrow> idt \<Rightarrow> idt" where
  "setup_IDT_entry index offset t = t(index := (t index)\<lparr>
     selector := 0x08,
     offset_l := ucast (offset AND 0xFFFF),
     offset_m := ucast (drop_bit 16 offset AND 0xFFFF),
     offset_h := ucast (drop_bit 32 offset AND 0xFFFFFFFF),
     access := ACS_INT,
     cero := 0,
     other_cero := 0\<rparr>)"

text \<open>The addresses of the handlers, which the linker places.\<close>

record handlers =
  ex00Handler :: "64 word"
  ex06Handler :: "64 word"
  ex0DHandler :: "64 word"
  ex0EHandler :: "64 word"
  irq00Handler :: "64 word"
  irq01Handler :: "64 word"
  syscallHandler :: "64 word"

text \<open>The table, the masks of the two interrupt controllers and the interrupt flag.\<close>

record interrupt_unit =
  idt_table :: idt
  pic_master :: byte
  pic_slave :: byte
  if_flag :: bool

definition load_idt :: "handlers \<Rightarrow> interrupt_unit \<Rightarrow> interrupt_unit" where
  "load_idt h u = u\<lparr>
     idt_table :=
       (setup_IDT_entry 0x80 (syscallHandler h) \<circ>
        setup_IDT_entry 0x21 (irq01Handler h) \<circ>
        setup_IDT_entry 0x20 (irq00Handler h) \<circ>
        setup_IDT_entry 0x0E (ex0EHandler h) \<circ>
        setup_IDT_entry 0x0D (ex0DHandler h) \<circ>
        setup_IDT_entry 0x06 (ex06Handler h) \<circ>
        setup_IDT_entry 0x00 (ex00Handler h)) (idt_table u),
     pic_master := 0xFC, pic_slave := 0xFF, if_flag := True\<rparr>"

text \<open>What the processor reads in the 16 bytes of a gate: where it goes on, in which segment, the privilege the
  caller needs, whether the gate is present and whether it is an interrupt gate (type 14).\<close>

definition gate_target :: "byte list \<Rightarrow> 64 word" where
  "gate_target bs = ucast (bs ! 0) OR push_bit 8 (ucast (bs ! 1)) OR push_bit 16 (ucast (bs ! 6)) OR push_bit 24 (ucast (bs ! 7)) OR
     push_bit 32 (ucast (bs ! 8)) OR push_bit 40 (ucast (bs ! 9)) OR push_bit 48 (ucast (bs ! 10)) OR push_bit 56 (ucast (bs ! 11))"

definition gate_selector :: "byte list \<Rightarrow> 16 word" where
  "gate_selector bs = ucast (bs ! 2) OR push_bit 8 (ucast (bs ! 3))"

definition gate_present :: "byte list \<Rightarrow> bool" where "gate_present bs = bit (bs ! 5) 7"
definition gate_privilege :: "byte list \<Rightarrow> byte" where "gate_privilege bs = drop_bit 5 (bs ! 5) AND 3"
definition gate_type :: "byte list \<Rightarrow> byte" where "gate_type bs = (bs ! 5) AND 0x1F"

section \<open>The machine\<close>

text \<open>\<open>regSnapshot\<close> is \<open>_regSnapshot\<close> (17 entries), \<open>infos\<close> the arrays of process information that \<open>ps\<close> handed out.\<close>

record machine = kb_kernel +
  vid :: video
  ticks :: "64 word"
  regSnapshot :: "nat \<Rightarrow> 64 word"
  infos :: "addr \<rightharpoonup> process_info list"

abbreviation mem :: "'a machine_scheme \<Rightarrow> bytes" where "mem m \<equiv> vmem (vid m)"

definition update_mem :: "(bytes \<Rightarrow> bytes) \<Rightarrow> 'a machine_scheme \<Rightarrow> 'a machine_scheme" where
  "update_mem f m = m\<lparr>vid := (vid m)\<lparr>vmem := f (mem m)\<rparr>\<rparr>"

definition read64 :: "bytes \<Rightarrow> addr \<Rightarrow> 64 word" where
  "read64 b a = ucast (read32 b a) OR push_bit 32 (ucast (read32 b (a + 4)))"

definition write64 :: "bytes \<Rightarrow> addr \<Rightarrow> 64 word \<Rightarrow> bytes" where
  "write64 b a w = write32 (write32 b a (ucast w)) (a + 4) (ucast (drop_bit 32 w))"

section \<open>Time and devices\<close>

definition timerHandler :: "'a machine_scheme \<Rightarrow> 'a machine_scheme" where
  "timerHandler m = m\<lparr>ticks := ticks m + 1\<rparr>"

definition ticksElapsed :: "'a machine_scheme \<Rightarrow> 64 word" where
  "ticksElapsed m = ticks m"

text \<open>The quotient is returned as an \<open>int\<close>.\<close>

definition secondsElapsed :: "'a machine_scheme \<Rightarrow> int" where
  "secondsElapsed m = sint (ucast (ticks m div 18) :: 32 word)"

text \<open>The scancode the keyboard controller holds is the argument \<open>key\<close>.\<close>

definition irqDispatcher :: "nat \<Rightarrow> byte \<Rightarrow> 'a machine_scheme \<Rightarrow> 'a machine_scheme option" where
  "irqDispatcher irq key m =
     (if irq = 0 then Some (timerHandler m)
      else if irq = 1 then keyboardHandler key m
      else Some m)"

text \<open>\<open>_irq00Handler\<close>: the tick is counted, then the scheduler may change the process.\<close>

definition irq00 :: "nat \<Rightarrow> 'a machine_scheme \<Rightarrow> 'a machine_scheme option" where
  "irq00 r m = do { m1 \<leftarrow> irqDispatcher 0 0 m; timer_tick r m1 }"

section \<open>Registers and exceptions\<close>

definition QTY_REGS :: nat where "QTY_REGS = 17"

text \<open>The loop of \<open>copyRegisters\<close> runs p down to \<open>rspEnd\<close>.\<close>

partial_function (option) copy_regs :: "bytes \<Rightarrow> addr \<Rightarrow> addr \<Rightarrow> nat \<Rightarrow> (nat \<Rightarrow> 64 word) \<Rightarrow> (nat \<Rightarrow> 64 word) option" where
  "copy_regs b p rspEnd i snap =
     (if p \<noteq> rspEnd then copy_regs b (p - 8) rspEnd (i + 1) (snap(i + 2 := read64 b p)) else Some snap)"

definition copyRegisters :: "addr \<Rightarrow> 'a machine_scheme \<Rightarrow> 'a machine_scheme option" where
  "copyRegisters rsp m =
     (let p = rsp + 23 * 8; rspEnd = rsp + 7 * 8;
          snap = (regSnapshot m)(0 := read64 (mem m) p, 1 := of_nat p + 0x30) in
      do { snap' \<leftarrow> copy_regs (mem m) (p - 8) rspEnd 0 snap; Some (m\<lparr>regSnapshot := snap'\<rparr>) })"

definition getLastRegSnapshot :: "'a machine_scheme \<Rightarrow> nat \<Rightarrow> 64 word" where
  "getLastRegSnapshot m = regSnapshot m"

text \<open>Texts of the program are at the addresses \<open>rodata\<close> gives them; \<open>buf\<close> is the buffer of \<open>printf\<close> on the stack.\<close>

type_synonym rodata = "byte list \<Rightarrow> addr"

text \<open>"RAX" .. "R15"; "RIP: 0x%x\nRSP: 0x%x\n"; "%s: 0x%x\n"; "Error: %s\n\n"; and the four descriptions.\<close>

definition regNames :: "byte list list" where
  "regNames = [[82,65,88], [82,66,88], [82,67,88], [82,68,88], [82,66,80], [82,68,73], [82,83,73], [82,56], [82,57],
     [82,49,48], [82,49,49], [82,49,50], [82,49,51], [82,49,52], [82,49,53]]"

definition DUMP_HEAD :: "byte list" where
  "DUMP_HEAD = [82,73,80,58,32,48,120,37,120,10,82,83,80,58,32,48,120,37,120,10]"
definition DUMP_LINE :: "byte list" where "DUMP_LINE = [37,115,58,32,48,120,37,120,10]"
definition ERROR_LINE :: "byte list" where "ERROR_LINE = [69,114,114,111,114,58,32,37,115,10,10]"
definition ZERO_EXCEPTION_DESCRIPTION :: "byte list" where
  "ZERO_EXCEPTION_DESCRIPTION = [68,105,118,105,115,105,111,110,32,112,111,114,32,99,101,114,111]"
definition OPCODE_EXCEPTION_DESCRIPTION :: "byte list" where
  "OPCODE_EXCEPTION_DESCRIPTION = [79,112,101,114,97,99,105,111,110,32,105,110,118,97,108,105,100,97]"
definition GENERAL_PROTECTION_DESCRIPTION :: "byte list" where
  "GENERAL_PROTECTION_DESCRIPTION = [80,114,111,116,101,99,99,105,111,110,32,103,101,110,101,114,97,108]"
definition PAGE_FAULT_DESCRIPTION :: "byte list" where
  "PAGE_FAULT_DESCRIPTION = [70,97,108,108,111,32,100,101,32,112,97,103,105,110,97]"

primrec dump_regs :: "rodata \<Rightarrow> addr \<Rightarrow> byte list list \<Rightarrow> addr \<Rightarrow> video \<Rightarrow> video option" where
  "dump_regs ro buf [] p v = Some v"
| "dump_regs ro buf (r # rs) p v = do {
     v1 \<leftarrow> printf buf (ro DUMP_LINE) [of_nat (ro r), read64 (vmem v) p] v;
     dump_regs ro buf rs (p - 8) v1 }"

definition dump :: "rodata \<Rightarrow> addr \<Rightarrow> 64 word \<Rightarrow> 64 word \<Rightarrow> addr \<Rightarrow> video \<Rightarrow> video option" where
  "dump ro buf rip_value rsp_value newRsp v = do {
     v1 \<leftarrow> printf buf (ro DUMP_HEAD) [rip_value, rsp_value] v;
     dump_regs ro buf regNames newRsp v1 }"

definition printError :: "rodata \<Rightarrow> addr \<Rightarrow> byte list \<Rightarrow> 64 word \<Rightarrow> addr \<Rightarrow> video \<Rightarrow> video option" where
  "printError ro buf msg rip_value rsp v = do {
     v1 \<leftarrow> printf buf (ro ERROR_LINE) [of_nat (ro msg)] (setFontColor ERROR_COLOR v);
     v2 \<leftarrow> dump ro buf rip_value (read64 (vmem v1) rsp) (rsp - 4 * 8) v1;
     Some (setFontColor DEFAULT_COLOR v2) }"

definition exceptionDispatcher :: "rodata \<Rightarrow> addr \<Rightarrow> int \<Rightarrow> addr \<Rightarrow> addr \<Rightarrow> video \<Rightarrow> video option" where
  "exceptionDispatcher ro buf ex ripp rsp v =
     (let msg = (if ex = 0 then ZERO_EXCEPTION_DESCRIPTION
                 else if ex = 6 then OPCODE_EXCEPTION_DESCRIPTION
                 else if ex = 13 then GENERAL_PROTECTION_DESCRIPTION
                 else if ex = 14 then PAGE_FAULT_DESCRIPTION
                 else []) in
      printError ro buf msg (read64 (vmem v) ripp) rsp v)"

section \<open>Lemmas\<close>

lemma ucast_and_mask:
  "(ucast (x AND 0xFFFF) :: 16 word) = ucast x" "(ucast (x AND 0xFFFFFFFF) :: 32 word) = ucast x" for x :: "64 word"
proof -
  have m: "(0xFFFF :: 64 word) = mask 16" "(0xFFFFFFFF :: 64 word) = mask 32" by (simp_all add: mask_eq_exp_minus_1)
  show "(ucast (x AND 0xFFFF) :: 16 word) = ucast x" "(ucast (x AND 0xFFFFFFFF) :: 32 word) = ucast x"
    unfolding m by (rule bit_word_eqI; auto simp: bit_simps)+
qed

lemma setup_gate_target: "gate_target (descr_bytes (setup_IDT_entry i off t i)) = off"
proof (rule bit_word_eqI)
  fix n assume "n < LENGTH(64)"
  then have "n < 64" by simp
  then consider "n < 8" | "8 \<le> n" "n < 16" | "16 \<le> n" "n < 24" | "24 \<le> n" "n < 32" | "32 \<le> n" "n < 40" |
      "40 \<le> n" "n < 48" | "48 \<le> n" "n < 56" | "56 \<le> n" "n < 64" by linarith
  then show "bit (gate_target (descr_bytes (setup_IDT_entry i off t i))) n = bit off n"
    by cases (simp_all add: gate_target_def descr_bytes_def setup_IDT_entry_def ucast_and_mask bit_simps less_diff_conv2)
qed

lemma setup_gate_rights:
  "gate_selector (descr_bytes (setup_IDT_entry i off t i)) = 8" "gate_present (descr_bytes (setup_IDT_entry i off t i))"
  "gate_privilege (descr_bytes (setup_IDT_entry i off t i)) = 0" "gate_type (descr_bytes (setup_IDT_entry i off t i)) = 14"
  by (simp_all add: gate_selector_def gate_present_def gate_privilege_def gate_type_def descr_bytes_def setup_IDT_entry_def
      ACS_INT_def ACS_PRESENT_def ACS_INT_386_def)

lemma setup_other: "j \<noteq> i \<Longrightarrow> setup_IDT_entry i off t j = t j"
  by (simp add: setup_IDT_entry_def)

lemma copy_regs_loop:
  "p = rspEnd + 8 * n \<Longrightarrow> copy_regs b p rspEnd i snap =
     Some (\<lambda>j. if i + 2 \<le> j \<and> j < i + 2 + n then read64 b (p - 8 * (j - (i + 2))) else snap j)"
proof (induction n arbitrary: p i snap)
  case 0
  then show ?case by (subst copy_regs.simps) (auto simp: fun_eq_iff)
next
  case (Suc n)
  have step: "copy_regs b p rspEnd i snap = copy_regs b (p - 8) rspEnd (i + 1) (snap(i + 2 := read64 b p))"
    using Suc.prems by (subst copy_regs.simps) simp
  have "copy_regs b (p - 8) rspEnd (i + 1) (snap(i + 2 := read64 b p)) =
    Some (\<lambda>j. if i + 1 + 2 \<le> j \<and> j < i + 1 + 2 + n then read64 b (p - 8 - 8 * (j - (i + 1 + 2))) else (snap(i + 2 := read64 b p)) j)"
    by (rule Suc.IH) (simp add: Suc.prems)
  also have "\<dots> = Some (\<lambda>j. if i + 2 \<le> j \<and> j < i + 2 + Suc n then read64 b (p - 8 * (j - (i + 2))) else snap j)"
  proof -
    have "p - 8 - 8 * (j - (i + 1 + 2)) = p - 8 * (j - (i + 2))" if "i + 1 + 2 \<le> j" for j
    proof -
      have "j - (i + 2) = Suc (j - (i + 1 + 2))" using that by simp
      then show ?thesis by simp
    qed
    then show ?thesis by (auto simp: fun_eq_iff)
  qed
  finally show ?case unfolding step .
qed

section \<open>Properties\<close>

text \<open>
  C25. After \<open>load_idt\<close> the gate of each of the seven vectors it sets sends the processor to its
  handler, whatever its address (the three pieces of the offset are put together again), in the kernel's code segment,
  as a present interrupt gate for the kernel's privilege; no other vector changes.
\<close>

theorem load_idt_gates:
  "\<forall>(i, a) \<in> {(0x00, ex00Handler h), (0x06, ex06Handler h), (0x0D, ex0DHandler h), (0x0E, ex0EHandler h),
      (0x20, irq00Handler h), (0x21, irq01Handler h), (0x80, syscallHandler h)}.
     (let bs = descr_bytes (idt_table (load_idt h u) i) in
       gate_target bs = a \<and> gate_selector bs = 8 \<and> gate_present bs \<and> gate_privilege bs = 0 \<and> gate_type bs = 14) \<and>
     (\<forall>j. j \<notin> {0x00, 0x06, 0x0D, 0x0E, 0x20, 0x21, 0x80} \<longrightarrow> idt_table (load_idt h u) j = idt_table u j)"
  by (simp add: load_idt_def Let_def setup_other setup_gate_target setup_gate_rights)

definition demo_handlers :: handlers where
  "demo_handlers = \<lparr>ex00Handler = 1, ex06Handler = 2, ex0DHandler = 3, ex0EHandler = 4, irq00Handler = 5,
     irq01Handler = 0x123456789ABCDEF0, syscallHandler = 7\<rparr>"

definition demo_unit :: interrupt_unit where
  "demo_unit = \<lparr>idt_table = (\<lambda>_. \<lparr>offset_l = 0, selector = 0, cero = 0, access = 0, offset_m = 0, offset_h = 0, other_cero = 0\<rparr>),
     pic_master = 0, pic_slave = 0, if_flag = True\<rparr>"

theorem load_idt_gates_witness:
  "gate_target (descr_bytes (idt_table (load_idt demo_handlers demo_unit) 0x21)) = 0x123456789ABCDEF0"
  using load_idt_gates [of demo_handlers demo_unit] by (simp add: Let_def demo_handlers_def)

text \<open>
  \<open>copyRegisters\<close> ends and fills exactly the 17 entries of the snapshot: the word 23
  above the stack pointer, the stack pointer of the interrupted code, and the 15 registers below that word from the
  highest address down; it writes past neither end of the array.
\<close>

theorem copyRegisters_fills:
  "\<exists>m'. copyRegisters rsp m = Some m' \<and>
     regSnapshot m' 0 = read64 (mem m) (rsp + 184) \<and> regSnapshot m' 1 = of_nat (rsp + 184 + 0x30) \<and>
     (\<forall>j < 15. regSnapshot m' (j + 2) = read64 (mem m) (rsp + 176 - 8 * j)) \<and>
     (\<forall>j \<ge> QTY_REGS. regSnapshot m' j = regSnapshot m j) \<and> kb_kernel.truncate m' = kb_kernel.truncate m \<and> vid m' = vid m"
proof -
  have "copy_regs (mem m) (rsp + 23 * 8 - 8) (rsp + 7 * 8) 0
      ((regSnapshot m)(0 := read64 (mem m) (rsp + 23 * 8), 1 := of_nat (rsp + 23 * 8) + 0x30)) =
    Some (\<lambda>j. if 0 + 2 \<le> j \<and> j < 0 + 2 + 15 then read64 (mem m) (rsp + 23 * 8 - 8 - 8 * (j - (0 + 2)))
      else ((regSnapshot m)(0 := read64 (mem m) (rsp + 23 * 8), 1 := of_nat (rsp + 23 * 8) + 0x30)) j)"
    by (rule copy_regs_loop) simp
  then show ?thesis by (simp add: copyRegisters_def Let_def QTY_REGS_def kb_kernel.defs add.commute [of rsp])
qed

end
