(* ===== verification/Syscalls.thy ===== *)
theory Syscalls
  imports Interrupts
begin

text \<open>
  \<open>Kernel/syscalls.c\<close>: the table of the 36 system calls and their handlers. A call that can wait (a key, a pipe, a
  sleep, an exit with an open pipe) is an \<open>activity\<close>: what is left of its handler, which \<open>syscall_step\<close> carries on
  when its process runs; \<open>Finished v\<close> is the return with v in the result register (0 where the handler is \<open>void\<close>).
  Pointers are addresses in the machine's memory. The clock (\<open>getTime\<close> reads it from its ports) is the argument
  \<open>now\<close> and r is the stack pointer at which the process is suspended, as in the scheduler.
\<close>

definition SYSCALL_COUNT :: nat where "SYSCALL_COUNT = 36"
definition KBDIN :: nat where "KBDIN = 3"

type_synonym clock = "byte \<times> byte \<times> byte"

datatype activity =
    Finished "64 word"
  | Asking_key ascii_pc
  | Reading_char transfer
  | Writing_char transfer
  | Pipe_reading addr transfer
  | Pipe_writing transfer
  | Pipe_closing locked_op
  | Exit_closing locked_op
  | Exit_yield
  | Exit_kill
  | Sleeping "32 word" "32 word"

section \<open>What the handlers read and write in memory\<close>

definition write16 :: "bytes \<Rightarrow> addr \<Rightarrow> 16 word \<Rightarrow> bytes" where
  "write16 b a w = b(a := ucast w, a + 1 := ucast (drop_bit 8 w))"

definition read16 :: "bytes \<Rightarrow> addr \<Rightarrow> 16 word" where
  "read16 b a = ucast (b a) OR push_bit 8 (ucast (b (a + 1)))"

definition c_string :: "bytes \<Rightarrow> addr \<Rightarrow> byte list option" where
  "c_string b p = map_option (\<lambda>n. map (\<lambda>i. b (p + i)) [0..<n]) (my_strlen b p)"

text \<open>The strings of an argument vector of n pointers; a null vector is \<open>Some None\<close>, a string without end \<open>None\<close>.\<close>

definition c_argv :: "bytes \<Rightarrow> addr \<Rightarrow> int \<Rightarrow> (nat \<Rightarrow> byte list option) option option" where
  "c_argv b p n =
     (if p = 0 then Some None
      else map_option (\<lambda>l. Some (\<lambda>j. if j < length l then l ! j else None))
        (those (map (\<lambda>j. let q = unat (read64 b (p + 8 * j)) in if q = 0 then Some None else map_option Some (c_string b q))
          [0..<nat n])))"

definition c_fds :: "bytes \<Rightarrow> addr \<Rightarrow> int list option" where
  "c_fds b p = (if p = 0 then None else Some (map (\<lambda>j. sint (read16 b (p + 2 * j))) [0..<CANT_FILE_DESCRIPTORS]))"

definition arg16 :: "64 word \<Rightarrow> int" where "arg16 a = sint (ucast a :: 16 word)"
definition arg32 :: "64 word \<Rightarrow> int" where "arg32 a = sint (ucast a :: 32 word)"
definition ret32 :: "int \<Rightarrow> 64 word" where "ret32 v = ucast (word_of_int v :: 32 word)"

section \<open>Handlers\<close>

definition syscall_read :: "32 word \<Rightarrow> 'a machine_scheme \<Rightarrow> (activity \<times> 'a machine_scheme) option" where
  "syscall_read fd m = do {
     realFd \<leftarrow> getFd (uint fd) m;
     if realFd \<ge> 3 then Some (Reading_char (start_transfer realFd False (\<lambda>_. 0) 1 m), m)
     else if realFd = int STDIN then Some (Asking_key AskKey, m)
     else if realFd = int KBDIN then (let (c, m1) = getScancode m in Some (Finished (ucast c), m1))
     else Some (Finished 0, m) }"

definition on_video :: "(video \<Rightarrow> video) \<Rightarrow> 'a machine_scheme \<Rightarrow> 'a machine_scheme" where
  "on_video f m = m\<lparr>vid := f (vid m)\<rparr>"

definition syscall_write :: "32 word \<Rightarrow> byte \<Rightarrow> 'a machine_scheme \<Rightarrow> (activity \<times> 'a machine_scheme) option" where
  "syscall_write fd c m = do {
     realFd \<leftarrow> getFd (uint fd) m;
     if realFd \<ge> 3 then Some (Writing_char (start_transfer realFd False (\<lambda>_. c) 1 m), m)
     else if c = - 1 then Some (Finished 0, m)
     else
       let prevColor = getFontColor (vid m) in
       if realFd = int STDERR then
         Some (Finished 0, on_video (setFontColor prevColor \<circ> printChar c \<circ> setFontColor ERROR_COLOR) m)
       else if realFd \<noteq> int STDOUT then Some (Finished 0, m)
       else Some (Finished 0, on_video (setFontColor prevColor \<circ> printChar c) m) }"

definition syscall_seconds :: "clock \<Rightarrow> 32 word" where
  "syscall_seconds now = (case now of (h, m, s) \<Rightarrow>
     word_of_nat (unat s + unat m * 60 + ((unat h + 24 - 3) mod 24) * 3600))"

definition syscall_minutes :: "clock \<Rightarrow> 32 word" where
  "syscall_minutes now = (case now of (h, m, s) \<Rightarrow> word_of_nat (unat m + ((unat h + 24 - 3) mod 24) * 60))"

definition syscall_hours :: "clock \<Rightarrow> 32 word" where
  "syscall_hours now = (case now of (h, m, s) \<Rightarrow> word_of_nat ((unat h + 24 - 3) mod 24))"

definition syscall_registerArray :: "addr \<Rightarrow> 'a machine_scheme \<Rightarrow> 'a machine_scheme" where
  "syscall_registerArray regarr m =
     update_mem (fold (\<lambda>i b. write64 b (regarr + 8 * i) (getLastRegSnapshot m i)) [0..<QTY_REGS]) m"

text \<open>\<open>size - 1\<close> is an \<open>int\<close>, passed as the unsigned enumeration.\<close>

definition syscall_fontSize :: "byte \<Rightarrow> 'a machine_scheme \<Rightarrow> 'a machine_scheme" where
  "syscall_fontSize sz m = on_video (setFontSize (unat (ucast sz - 1 :: 32 word))) m"

definition syscall_getMemory :: "addr \<Rightarrow> addr \<Rightarrow> 'a machine_scheme \<Rightarrow> 'a machine_scheme" where
  "syscall_getMemory pos vec m = update_mem (\<lambda>b. memcpy b vec pos 32) m"

definition syscall_setFontColor :: "byte \<Rightarrow> byte \<Rightarrow> byte \<Rightarrow> 'a machine_scheme \<Rightarrow> 'a machine_scheme" where
  "syscall_setFontColor r g b m = on_video (setFontColor \<lparr>c_b = b, c_g = g, c_r = r\<rparr>) m"

text \<open>\<open>ColorInt\<close>: the bytes of the colour, the fourth one zero.\<close>

definition color_bits :: "color \<Rightarrow> 32 word" where
  "color_bits c = ucast (c_b c) OR push_bit 8 (ucast (c_g c)) OR push_bit 16 (ucast (c_r c))"

definition syscall_getFontColor :: "'a machine_scheme \<Rightarrow> 32 word" where
  "syscall_getFontColor m = color_bits (getFontColor (vid m))"

definition syscall_mm_alloc :: "64 word \<Rightarrow> 'a machine_scheme \<Rightarrow> activity \<times> 'a machine_scheme" where
  "syscall_mm_alloc sz m = (let (p, mm) = mm_alloc (unat sz) (k_mm m) in (Finished (of_nat p), m\<lparr>k_mm := mm\<rparr>))"

definition syscall_mm_free :: "addr \<Rightarrow> 'a machine_scheme \<Rightarrow> 'a machine_scheme" where
  "syscall_mm_free p m = m\<lparr>k_mm := mm_free p (k_mm m)\<rparr>"

definition syscall_mm_info :: "addr \<Rightarrow> 'a machine_scheme \<Rightarrow> 'a machine_scheme" where
  "syscall_mm_info p m = (let i = mm_info (k_mm m) in
     update_mem (\<lambda>b. write64 (write64 (write64 b p (of_nat (info_size i))) (p + 8) (of_nat (info_used i))) (p + 16) (of_nat (info_free i))) m)"

definition syscall_create_process :: "64 word \<Rightarrow> addr \<Rightarrow> int \<Rightarrow> byte \<Rightarrow> byte \<Rightarrow> addr \<Rightarrow> 'a machine_scheme \<Rightarrow>
    (activity \<times> 'a machine_scheme) option" where
  "syscall_create_process code av ac prio gr fds m = do {
     args \<leftarrow> c_argv (mem m) av ac;
     (i, m1) \<leftarrow> createProcess (unat code) args ac (unat prio) (c_fds (mem m) fds) (unat gr) m;
     Some (Finished (word_of_int i), m1) }"

text \<open>The array \<open>ps\<close> returns is remembered under its address; the quantity is written to memory where it is known.\<close>

definition syscall_process_info :: "addr \<Rightarrow> 'a machine_scheme \<Rightarrow> (activity \<times> 'a machine_scheme) option" where
  "syscall_process_info qty m = do {
     (r, n, m1) \<leftarrow> ps m;
     let m2 = update_mem (\<lambda>b. write16 b qty (of_nat n)) m1;
     case r of
       None \<Rightarrow> Some (Finished 0, m2)
     | Some (a, l) \<Rightarrow> Some (Finished (of_nat a), m2\<lparr>infos := (infos m2)(a \<mapsto> l)\<rparr>) }"

definition syscall_exit :: "'a machine_scheme \<Rightarrow> (activity \<times> 'a machine_scheme) option" where
  "syscall_exit m = do {
     stdout_fd \<leftarrow> getFd (int STDOUT) m;
     Some (if stdout_fd \<ge> 3 then Exit_closing (Called stdout_fd) else Exit_kill, m) }"

definition syscall_sleep :: "32 word \<Rightarrow> clock \<Rightarrow> activity" where
  "syscall_sleep s now = (if s = 0 then Finished 0 else Sleeping (syscall_seconds now) s)"

definition valid_sem :: "int \<Rightarrow> bool" where
  "valid_sem i = (\<not> (i < 0 \<or> i \<ge> int NUM_SEMS))"

definition syscall_sem_init :: "int \<Rightarrow> 32 word \<Rightarrow> 'a machine_scheme \<Rightarrow> (int \<times> 'a machine_scheme) option" where
  "syscall_sem_init i v m = (if \<not> valid_sem i then Some (- 1, m) else sem_create i v m)"

definition syscall_sem_open :: "int \<Rightarrow> 'a machine_scheme \<Rightarrow> (int \<times> 'a machine_scheme) option" where
  "syscall_sem_open i m = (if \<not> valid_sem i then Some (- 1, m) else map_option (\<lambda>v. (v, m)) (sem_open i m))"

definition syscall_sem_wait :: "int \<Rightarrow> nat \<Rightarrow> 'a machine_scheme \<Rightarrow> (int \<times> 'a machine_scheme) option" where
  "syscall_sem_wait i r m = (if \<not> valid_sem i then Some (- 1, m) else sem_wait i r m)"

definition syscall_sem_post :: "int \<Rightarrow> 'a machine_scheme \<Rightarrow> (int \<times> 'a machine_scheme) option" where
  "syscall_sem_post i m = (if \<not> valid_sem i then Some (- 1, m) else sem_post i m)"

definition syscall_sem_close :: "int \<Rightarrow> 'a machine_scheme \<Rightarrow> (int \<times> 'a machine_scheme) option" where
  "syscall_sem_close i m = (if \<not> valid_sem i then Some (- 1, m) else sem_destroy i m)"

definition syscall_pipe_read :: "int \<Rightarrow> addr \<Rightarrow> int \<Rightarrow> 'a machine_scheme \<Rightarrow> activity" where
  "syscall_pipe_read i buf sz m = Pipe_reading buf (start_transfer i (buf = 0) (\<lambda>j. mem m (buf + j)) sz m)"

definition syscall_pipe_write :: "int \<Rightarrow> addr \<Rightarrow> int \<Rightarrow> 'a machine_scheme \<Rightarrow> activity" where
  "syscall_pipe_write i buf sz m = Pipe_writing (start_transfer i (buf = 0) (\<lambda>j. mem m (buf + j)) sz m)"

section \<open>The table\<close>

definition returns :: "64 word \<Rightarrow> 'a \<Rightarrow> (activity \<times> 'a) option" where
  "returns v m = Some (Finished v, m)"

definition returning :: "(int \<Rightarrow> 64 word) \<Rightarrow> (int \<times> 'a) option \<Rightarrow> (activity \<times> 'a) option" where
  "returning f x = map_option (\<lambda>(v, m). (Finished (f v), m)) x"

text \<open>The direct call of \<open>yield\<close> runs the timer's handler, which counts a tick.\<close>

definition sys_yield :: "nat \<Rightarrow> 'a machine_scheme \<Rightarrow> 'a machine_scheme option" where
  "sys_yield r m = (if scheduler m = 0 then None else irq00 r (m\<lparr>quantums := 0\<rparr>))"

definition syscalls :: "nat \<Rightarrow> clock \<Rightarrow> (nat \<Rightarrow> 64 word) \<Rightarrow> 'a machine_scheme \<Rightarrow> (activity \<times> 'a machine_scheme) option list" where
  "syscalls r now a m = [
     syscall_read (ucast (a 0)) m,
     syscall_write (ucast (a 0)) (ucast (a 1)) m,
     returns 0 (on_video videoClear m),
     returns (ucast (syscall_seconds now)) m,
     returns (ucast (syscall_minutes now)) m,
     returns (ucast (syscall_hours now)) m,
     returns (a 0) (syscall_registerArray (unat (a 0)) m),
     returns 0 (syscall_fontSize (ucast (a 0)) m),
     returns (ucast (getScreenResolution (vid m))) m,
     returns (ticksElapsed m) m,
     returns 0 (syscall_getMemory (unat (a 0)) (unat (a 1)) m),
     returns 0 (syscall_setFontColor (ucast (a 0)) (ucast (a 1)) (ucast (a 2)) m),
     returns (ucast (syscall_getFontColor m)) m,
     Some (syscall_mm_alloc (a 0) m),
     returns 0 (syscall_mm_free (unat (a 0)) m),
     returns 0 (syscall_mm_info (unat (a 0)) m),
     syscall_create_process (a 0) (unat (a 1)) (arg32 (a 2)) (ucast (a 3)) (ucast (a 4)) (unat (a 5)) m,
     do { c \<leftarrow> getPid m; returns (word_of_int c) m },
     syscall_process_info (unat (a 0)) m,
     returning word_of_int (killProcess (arg16 (a 0)) m),
     returning ret32 (changePriority (arg16 (a 0)) (unat (ucast (a 1) :: byte)) m),
     returning word_of_int (blockProcess (arg16 (a 0)) r m),
     returning word_of_int (setReadyProcess (arg16 (a 0)) m),
     map_option (Pair (Finished 0)) (sys_yield r m),
     returning ret32 (waitProcess (arg16 (a 0)) r m),
     syscall_exit m,
     Some (syscall_sleep (ucast (a 0)) now, m),
     returning word_of_int (syscall_sem_init (arg32 (a 0)) (ucast (a 1)) m),
     returning word_of_int (syscall_sem_open (arg32 (a 0)) m),
     returning word_of_int (syscall_sem_wait (arg32 (a 0)) r m),
     returning word_of_int (syscall_sem_post (arg32 (a 0)) m),
     returning word_of_int (syscall_sem_close (arg32 (a 0)) m),
     returning word_of_int (createPipe m),
     Some (syscall_pipe_read (arg32 (a 0)) (unat (a 1)) (arg32 (a 2)) m, m),
     Some (syscall_pipe_write (arg32 (a 0)) (unat (a 1)) (arg32 (a 2)) m, m),
     Some (Pipe_closing (Called (arg32 (a 0))), m)]"

definition syscallDispatcher :: "64 word \<Rightarrow> nat \<Rightarrow> clock \<Rightarrow> (nat \<Rightarrow> 64 word) \<Rightarrow> 'a machine_scheme \<Rightarrow>
    (activity \<times> 'a machine_scheme) option" where
  "syscallDispatcher nr r now a m =
     (if unat nr \<ge> SYSCALL_COUNT then returns (- 1) m else syscalls r now a m ! unat nr)"

section \<open>Carrying on\<close>

text \<open>The bytes a pipe read so far are in the caller's buffer.\<close>

definition deliver :: "addr \<Rightarrow> transfer \<Rightarrow> 'a machine_scheme \<Rightarrow> 'a machine_scheme" where
  "deliver buf t m = update_mem (\<lambda>b a. if buf \<le> a \<and> a < buf + t_bytes t then t_buffer t (a - buf) else b a) m"

fun syscall_step :: "nat \<Rightarrow> clock \<Rightarrow> activity \<Rightarrow> 'a machine_scheme \<Rightarrow> (activity \<times> 'a machine_scheme) option" where
  "syscall_step r now (Finished v) m = Some (Finished v, m)"
| "syscall_step r now (Asking_key pc) m = (case pc of
     GotKey v \<Rightarrow> Some (Finished (ucast (word_of_int v :: byte)), m)
   | _ \<Rightarrow> do { (pc', m1) \<leftarrow> getAscii_step r pc m; Some (Asking_key pc', m1) })"
| "syscall_step r now (Reading_char t) m = (case t_pc t of
     Returned v \<Rightarrow> Some (Finished (if v \<le> 0 then 0xFF else ucast (t_buffer t 0)), m)
   | _ \<Rightarrow> do { (t', m1) \<leftarrow> readPipe_step r t m; Some (Reading_char t', m1) })"
| "syscall_step r now (Writing_char t) m = (case t_pc t of
     Returned v \<Rightarrow> Some (Finished 0, m)
   | _ \<Rightarrow> do { (t', m1) \<leftarrow> writePipe_step r t m; Some (Writing_char t', m1) })"
| "syscall_step r now (Pipe_reading buf t) m = (case t_pc t of
     Returned v \<Rightarrow> Some (Finished (word_of_int v), m)
   | _ \<Rightarrow> do { (t', m1) \<leftarrow> readPipe_step r t m; Some (Pipe_reading buf t', deliver buf t' m1) })"
| "syscall_step r now (Pipe_writing t) m = (case t_pc t of
     Returned v \<Rightarrow> Some (Finished (word_of_int v), m)
   | _ \<Rightarrow> do { (t', m1) \<leftarrow> writePipe_step r t m; Some (Pipe_writing t', m1) })"
| "syscall_step r now (Pipe_closing s) m = (case s of
     Done v \<Rightarrow> Some (Finished (word_of_int v), m)
   | _ \<Rightarrow> do { (s', m1) \<leftarrow> closePipe_step r s m; Some (Pipe_closing s', m1) })"
| "syscall_step r now (Exit_closing s) m = (case s of
     Done v \<Rightarrow> Some (Exit_yield, m)
   | _ \<Rightarrow> do { (s', m1) \<leftarrow> closePipe_step r s m; Some (Exit_closing s', m1) })"
| "syscall_step r now Exit_yield m = do { m1 \<leftarrow> sys_yield r m; Some (Exit_kill, m1) }"
| "syscall_step r now Exit_kill m = do {
     (v, m1) \<leftarrow> killCurrentProcess m;
     m2 \<leftarrow> sys_yield r m1;
     Some (Finished 0, m2) }"
| "syscall_step r now (Sleeping start s) m =
     (if (syscall_seconds now + 86400 - start) mod 86400 < s
      then do { m1 \<leftarrow> sys_yield r m; Some (Sleeping start s, m1) }
      else Some (Finished 0, m))"

section \<open>Properties\<close>

lemma ret32_minus_1: "ret32 (- 1) = 0xFFFFFFFF"
  by (simp add: ret32_def unsigned_minus_1_eq_mask mask_eq_exp_minus_1)

text \<open>Seconds of the day, three hours west of the clock's.\<close>

definition seconds_of_day :: "clock \<Rightarrow> nat" where
  "seconds_of_day now = (case now of (h, m, s) \<Rightarrow> unat s + unat m * 60 + ((unat h + 21) mod 24) * 3600)"

definition valid_clock :: "clock \<Rightarrow> bool" where
  "valid_clock now = (case now of (h, m, s) \<Rightarrow> unat h < 24 \<and> unat m < 60 \<and> unat s < 60)"

lemma seconds_of_day_less: "valid_clock now \<Longrightarrow> seconds_of_day now < 86400"
proof -
  assume v: "valid_clock now"
  obtain h m s where now: "now = (h, m, s)" by (cases now)
  have "(unat h + 21) mod 24 \<le> 23" by simp
  then show ?thesis using v unfolding now valid_clock_def seconds_of_day_def by simp
qed

lemma seconds_unat: "valid_clock now \<Longrightarrow> unat (syscall_seconds now) = seconds_of_day now"
proof -
  assume v: "valid_clock now"
  have "syscall_seconds now = word_of_nat (seconds_of_day now)"
    by (simp add: syscall_seconds_def seconds_of_day_def add.commute [of 21] split: prod.splits)
  then show ?thesis using seconds_of_day_less [OF v] by (simp only: unat_of_nat) simp
qed

lemma sleep_condition:
  assumes "valid_clock t0" and "valid_clock now"
  shows "(syscall_seconds now + 86400 - syscall_seconds t0) mod 86400 < s \<longleftrightarrow>
    (seconds_of_day now + 86400 - seconds_of_day t0) mod 86400 < unat s"
proof -
  have "unat (syscall_seconds now + 86400) = seconds_of_day now + 86400"
    using seconds_of_day_less [OF assms(2)] unat_add_of_nat [of "syscall_seconds now" 86400]
    by (simp add: seconds_unat [OF assms(2)])
  moreover have "syscall_seconds t0 \<le> syscall_seconds now + 86400"
    using calculation seconds_of_day_less [OF assms(1)] by (simp add: word_le_nat_alt seconds_unat [OF assms(1)])
  ultimately have "unat (syscall_seconds now + 86400 - syscall_seconds t0) = seconds_of_day now + 86400 - seconds_of_day t0"
    by (simp add: unat_sub seconds_unat [OF assms(1)])
  then show ?thesis by (simp add: word_less_nat_alt unat_mod)
qed

text \<open>
  What the dispatcher is not given a service for it refuses without a trace: an unknown
  number, a semaphore outside the 128 that exist in any of the five semaphore calls, a priority outside 1 to 10. The
  result is -1 and the machine is the same.
\<close>

theorem syscall_rejects:
  "(36 \<le> nr \<longrightarrow> syscallDispatcher nr r now a m = Some (Finished (- 1), m)) \<and>
   (27 \<le> nr \<and> nr \<le> 31 \<and> (arg32 (a 0) < 0 \<or> int NUM_SEMS \<le> arg32 (a 0)) \<longrightarrow>
      syscallDispatcher nr r now a m = Some (Finished (- 1), m)) \<and>
   (nr = 20 \<and> \<not> (MIN_PRIORITY \<le> unat (ucast (a 1) :: byte) \<and> unat (ucast (a 1) :: byte) \<le> MAX_PRIORITY) \<longrightarrow>
      syscallDispatcher nr r now a m = Some (Finished 0xFFFFFFFF, m))"
proof (intro conjI impI)
  assume "36 \<le> nr"
  then show "syscallDispatcher nr r now a m = Some (Finished (- 1), m)"
    by (simp add: syscallDispatcher_def SYSCALL_COUNT_def returns_def word_le_nat_alt)
next
  assume h: "27 \<le> nr \<and> nr \<le> 31 \<and> (arg32 (a 0) < 0 \<or> int NUM_SEMS \<le> arg32 (a 0))"
  then have bad: "\<not> valid_sem (arg32 (a 0))" by (auto simp: valid_sem_def)
  have "27 \<le> unat nr" and "unat nr \<le> 31" using h by (simp_all add: word_le_nat_alt)
  then have "unat nr \<in> {27, 28, 29, 30, 31}" by auto
  then show "syscallDispatcher nr r now a m = Some (Finished (- 1), m)"
    using bad by (auto simp: syscallDispatcher_def SYSCALL_COUNT_def syscalls_def returning_def syscall_sem_init_def
        syscall_sem_open_def syscall_sem_wait_def syscall_sem_post_def syscall_sem_close_def)
next
  assume h: "nr = 20 \<and> \<not> (MIN_PRIORITY \<le> unat (ucast (a 1) :: byte) \<and> unat (ucast (a 1) :: byte) \<le> MAX_PRIORITY)"
  then have "changePriority (arg16 (a 0)) (unat (ucast (a 1) :: byte)) m = Some (- 1, m)"
    by (auto simp: changePriority_def)
  then show "syscallDispatcher nr r now a m = Some (Finished 0xFFFFFFFF, m)"
    using h by (simp add: syscallDispatcher_def SYSCALL_COUNT_def syscalls_def returning_def ret32_minus_1)
qed

definition demo_machine :: "byte list \<Rightarrow> machine" where
  "demo_machine ks = kb_kernel.extend (demo_keys (length ks) ks 0) (machine.fields demo_video 0 (\<lambda>_. 0) (\<lambda>_. None))"

theorem syscall_rejects_witness:
  "syscallDispatcher 36 0 (0, 0, 0) (\<lambda>_. 0) (demo_machine []) = Some (Finished (- 1), demo_machine []) \<and>
   syscallDispatcher 29 0 (0, 0, 0) (\<lambda>_. 500) (demo_machine []) = Some (Finished (- 1), demo_machine []) \<and>
   syscallDispatcher 20 0 (0, 0, 0) (\<lambda>_. 11) (demo_machine []) = Some (Finished 0xFFFFFFFF, demo_machine [])"
proof -
  have "arg32 500 = 500" by (simp add: arg32_def)
  moreover have "(27 :: 64 word) \<le> 29 \<and> (29 :: 64 word) \<le> 31 \<and> (36 :: 64 word) \<le> 36" by simp
  ultimately show ?thesis
    using syscall_rejects [of 36 0 "(0, 0, 0)" "\<lambda>_. 0" "demo_machine []"]
      syscall_rejects [of 29 0 "(0, 0, 0)" "\<lambda>_. 500" "demo_machine []"]
      syscall_rejects [of 20 0 "(0, 0, 0)" "\<lambda>_. 11" "demo_machine []"]
    by (simp add: NUM_SEMS_def MIN_PRIORITY_def MAX_PRIORITY_def)
qed

text \<open>
  C27. A sleep of s seconds goes on until the clock is s seconds past its start, counted around
  midnight; while it is not, the process yields and its sleep is the same. So a sleep of a day or more never ends,
  whatever the clock says.
\<close>

theorem sleep_wakes:
  assumes "valid_clock t0" and "valid_clock now"
  shows "syscall_step r now (Sleeping (syscall_seconds t0) s) m =
      (if unat s \<le> (seconds_of_day now + 86400 - seconds_of_day t0) mod 86400 then Some (Finished 0, m)
       else map_option (Pair (Sleeping (syscall_seconds t0) s)) (sys_yield r m)) \<and>
    (86400 \<le> s \<longrightarrow> (\<forall>v m'. syscall_step r now (Sleeping (syscall_seconds t0) s) m \<noteq> Some (Finished v, m')))"
proof -
  let ?e = "(seconds_of_day now + 86400 - seconds_of_day t0) mod 86400"
  have step: "syscall_step r now (Sleeping (syscall_seconds t0) s) m =
      (if unat s \<le> ?e then Some (Finished 0, m) else map_option (Pair (Sleeping (syscall_seconds t0) s)) (sys_yield r m))"
    unfolding syscall_step.simps sleep_condition [OF assms] by (cases "sys_yield r m") (auto simp: not_less)
  have "?e < 86400" by simp
  moreover have "86400 \<le> s \<Longrightarrow> 86400 \<le> unat s" by (simp add: word_le_nat_alt)
  ultimately have "86400 \<le> s \<Longrightarrow> \<not> unat s \<le> ?e" by linarith
  then show ?thesis using step by auto
qed

theorem sleep_wakes_witness:
  "syscall_step 0 (10, 0, 5) (Sleeping (syscall_seconds (10, 0, 0)) 3) (demo_machine []) = Some (Finished 0, demo_machine [])"
  using sleep_wakes [of "(10, 0, 0)" "(10, 0, 5)" 0 3 "demo_machine []"] by (simp add: valid_clock_def seconds_of_day_def)

text \<open>
  Writing a character to a descriptor that is the standard output or error and no pipe shows
  it on the screen, in red for the error; the process's colour is what it was and the end-of-file character shows
  nothing. From a place of the grid, nothing but the screen's part of the state changes, and only inside the frame buffer.
\<close>

theorem write_shows:
  assumes "getFd (uint fd) m = Some d" and "d = int STDOUT \<or> d = int STDERR" and "video_ok (vid m)" and "c \<noteq> 8"
  shows "\<exists>v. syscall_write fd c m = Some (Finished 0, m\<lparr>vid := v\<rparr>) \<and> video_ok v \<and> fontColor v = fontColor (vid m) \<and>
    (c = - 1 \<longrightarrow> v = vid m) \<and>
    (c \<noteq> - 1 \<longrightarrow> v = (printChar c ((vid m)\<lparr>fontColor := (if d = int STDERR then ERROR_COLOR else fontColor (vid m))\<rparr>))
       \<lparr>fontColor := fontColor (vid m)\<rparr>) \<and>
    (\<forall>a. a \<notin> on_screen (vid m) \<longrightarrow> vmem v a = mem m a)"
proof (cases "c = - 1")
  case True
  then show ?thesis
    using assms by (intro exI [of _ "vid m"]) (auto simp: syscall_write_def STDOUT_def STDERR_def)
next
  case False
  let ?u = "(vid m)\<lparr>fontColor := (if d = int STDERR then ERROR_COLOR else fontColor (vid m))\<rparr>"
  let ?v = "(printChar c ?u)\<lparr>fontColor := fontColor (vid m)\<rparr>"
  have ok: "video_ok ?u" using assms(3) by (simp add: video_ok_def screen_ok_def column_ok_def)
  have p: "video_ok (printChar c ?u) \<and> draws ?u (printChar c ?u)" using printChar_ok [OF ok assms(4)] by simp
  have "syscall_write fd c m = Some (Finished 0, m\<lparr>vid := ?v\<rparr>)"
    using assms(1,2) False
    by (auto simp: syscall_write_def on_video_def setFontColor_def getFontColor_def STDOUT_def STDERR_def)
  moreover have "video_ok ?v" using p by (simp add: video_ok_def screen_ok_def column_ok_def)
  moreover have "\<forall>a. a \<notin> on_screen (vid m) \<longrightarrow> vmem ?v a = mem m a"
    using p by (simp add: draws_def on_screen_def)
  ultimately show ?thesis using False by (intro exI [of _ ?v]) simp
qed

theorem write_shows_witness:
  "\<exists>v. syscall_write 2 65 (demo_machine []) = Some (Finished 0, (demo_machine [])\<lparr>vid := v\<rparr>) \<and> fontColor v = DEFAULT_COLOR"
proof -
  have v: "vid (demo_machine []) = demo_video" by (simp add: demo_machine_def machine.defs kb_kernel.defs)
  have "sched_view (demo_machine []) = sched_view demo_kernel"
    using demo_keys_view [of 0 "[]" 0] by (simp add: sched_view_def demo_machine_def machine.defs kb_kernel.defs)
  then have k: "scheduler (demo_machine []) = 10" "procs (demo_machine []) = procs demo_kernel" "currentProcess (demo_machine []) = 200"
    by (simp_all add: sched_view_def demo_kernel_def)
  have "getFd (uint (2 :: 32 word)) (demo_machine []) = Some 2"
    by (simp add: getFd_def k deref_def demo_procs demo_pcb_def CANT_FILE_DESCRIPTORS_def)
  then have "\<exists>v. syscall_write 2 65 (demo_machine []) = Some (Finished 0, (demo_machine [])\<lparr>vid := v\<rparr>) \<and> video_ok v \<and>
      fontColor v = fontColor (vid (demo_machine []))"
    using write_shows [of 2 "demo_machine []" 2 65] demo_video_ok by (auto simp: v STDERR_def)
  then show ?thesis unfolding v by (auto simp: demo_video_def)
qed

end
