(* ===== verification/Modules.thy ===== *)
theory Modules
  imports Lib
begin

text \<open>
  How the userland reaches its place in memory: \<open>Toolchain/ModulePacker/main.c\<close> appends the binaries to the
  kernel's, \<open>Kernel/moduleLoader.c\<close> copies them to their addresses, and \<open>Kernel/kernel.c\<close> does so at boot before
  it clears the kernel's own variables, whose memory begins where the appended binaries are.
\<close>

section \<open>The packer\<close>

text \<open>A file is its bytes; a name without readable file is \<open>None\<close>.\<close>

type_synonym file_name = "char list"
type_synonym disk = "file_name \<rightharpoonup> byte list"

definition BUFFER_SIZE :: nat where "BUFFER_SIZE = 128"
definition MAX_FILES :: nat where "MAX_FILES = 128"
definition OUTPUT_FILE :: file_name where "OUTPUT_FILE = ''packedKernel.bin''"

definition le32 :: "32 word \<Rightarrow> byte list" where
  "le32 w = [ucast w, ucast (drop_bit 8 w), ucast (drop_bit 16 w), ucast (drop_bit 24 w)]"

text \<open>\<open>feof\<close> holds after a read that came back short, so the loop ends with the first block that is not full.\<close>

function write_file :: "byte list \<Rightarrow> byte list \<Rightarrow> byte list" where
  "write_file target source =
     (let buf = take BUFFER_SIZE source in
      if length buf < BUFFER_SIZE then target @ buf
      else write_file (target @ buf) (drop BUFFER_SIZE source))"
  by pat_completeness auto
termination
  by (relation "measure (\<lambda>(t, s). length s)") (auto simp: BUFFER_SIZE_def)

definition write_size :: "byte list \<Rightarrow> byte list \<Rightarrow> byte list" where
  "write_size target source = target @ le32 (of_nat (length source))"

text \<open>Lines 60-71: the size and the bytes of each binary; a file that cannot be opened is a null stream.\<close>

fun write_modules :: "disk \<Rightarrow> file_name list \<Rightarrow> byte list \<Rightarrow> byte list option" where
  "write_modules d [] target = Some target"
| "write_modules d (f # fs) target = do {
     source \<leftarrow> d f;
     write_modules d fs (write_file (write_size target source) source) }"

text \<open>\<open>can_create\<close> says whether the output can be opened; the result is the value of \<open>buildImage\<close> and the disk.\<close>

definition buildImage :: "bool \<Rightarrow> file_name list \<Rightarrow> file_name \<Rightarrow> disk \<Rightarrow> (bool \<times> disk) option" where
  "buildImage can_create files output d =
     (if \<not> can_create then Some (False, d)
      else
        (case files of
           [] \<Rightarrow> None
         | f # fs \<Rightarrow> do {
             kern \<leftarrow> d f;
             target \<leftarrow> write_modules d fs (write_file [] kern @ le32 (of_nat (length files) - 1));
             Some (True, d(output \<mapsto> target)) }))"

fun checkFiles :: "disk \<Rightarrow> file_name list \<Rightarrow> bool" where
  "checkFiles d [] = True"
| "checkFiles d (f # fs) = (if d f = None then False else checkFiles d fs)"

text \<open>The arguments. \<open>parse_opt\<close> is called by the library for each option, each file and the end; it writes
  \<open>args\<close>, an array of 128, at whatever number the file has.\<close>

datatype opt_key = Opt_o | Key_Arg | Key_End | Key_Other

record arguments =
  arg_names :: "nat \<Rightarrow> file_name"
  output_file :: file_name
  arg_count :: nat

text \<open>\<open>None\<close>: the usage message ends the program. The flag says whether the key was known.\<close>

definition parse_opt :: "opt_key \<Rightarrow> file_name \<Rightarrow> nat \<Rightarrow> arguments \<Rightarrow> (bool \<times> arguments) option" where
  "parse_opt key arg arg_num a = (case key of
     Opt_o \<Rightarrow> Some (True, a\<lparr>output_file := arg\<rparr>)
   | Key_Arg \<Rightarrow> Some (True, a\<lparr>arg_names := (arg_names a)(arg_num := arg)\<rparr>)
   | Key_End \<Rightarrow> if arg_num < 1 then None else Some (True, a\<lparr>arg_count := arg_num\<rparr>)
   | Key_Other \<Rightarrow> Some (False, a))"

text \<open>\<open>main\<close> after the arguments were parsed: the exit status and the disk.\<close>

definition packer_main :: "arguments \<Rightarrow> bool \<Rightarrow> disk \<Rightarrow> (nat \<times> disk) option" where
  "packer_main a can_create d =
     (let files = map (arg_names a) [0..<arg_count a] in
      if \<not> checkFiles d files then Some (1, d)
      else do { (ok, d') \<leftarrow> buildImage can_create files (output_file a) d; Some (if ok then 0 else 1, d') })"

section \<open>The loader\<close>

definition readUint32 :: "bytes \<Rightarrow> addr \<Rightarrow> 32 word \<times> addr" where
  "readUint32 m a = (read32 m a, a + 4)"

definition loadModule :: "bytes \<Rightarrow> addr \<Rightarrow> addr \<Rightarrow> bytes \<times> addr" where
  "loadModule m module target =
     (let (moduleSize, p) = readUint32 m module in (memcpy m target p (unat moduleSize), p + unat moduleSize))"

text \<open>The loop of \<open>loadModules\<close>, n modules from module i on.\<close>

fun load_from :: "nat \<Rightarrow> nat \<Rightarrow> (nat \<Rightarrow> addr) \<Rightarrow> addr \<Rightarrow> bytes \<Rightarrow> bytes" where
  "load_from 0 i targets module m = m"
| "load_from (Suc n) i targets module m =
     (let (m', module') = loadModule m module (targets i) in load_from n (i + 1) targets module' m')"

definition loadModules :: "addr \<Rightarrow> (nat \<Rightarrow> addr) \<Rightarrow> bytes \<Rightarrow> bytes" where
  "loadModules payloadStart targets m =
     (let (moduleCount, p) = readUint32 m payloadStart in load_from (unat moduleCount) 0 targets p m)"

section \<open>The boot of the kernel\<close>

definition sampleCodeModuleAddress :: addr where "sampleCodeModuleAddress = 0x400000"
definition sampleDataModuleAddress :: addr where "sampleDataModuleAddress = 0x500000"
definition memoryManagerModuleAddress :: addr where "memoryManagerModuleAddress = 0x600000"
definition PageSize :: nat where "PageSize = 0x1000"

text \<open>The symbols of the linker script.\<close>

record linker =
  bss :: addr
  endOfKernelBinary :: addr
  endOfKernel :: addr

definition clearBSS :: "addr \<Rightarrow> nat \<Rightarrow> bytes \<Rightarrow> bytes" where
  "clearBSS bssAddress bssSize m = memset m bssAddress 0 bssSize"

definition getStackBase :: "linker \<Rightarrow> addr" where
  "getStackBase l = endOfKernel l + PageSize * 8 - 8"

definition initializeKernelBinary :: "linker \<Rightarrow> bytes \<Rightarrow> bytes" where
  "initializeKernelBinary l m =
     (let m1 = loadModules (endOfKernelBinary l) (\<lambda>i. [sampleCodeModuleAddress, sampleDataModuleAddress] ! i) m
      in clearBSS (bss l) (endOfKernel l - bss l) m1)"

section \<open>What the packer writes\<close>

declare write_file.simps [simp del]

lemma write_file_eq: "write_file target source = target @ source"
proof (induction target source rule: write_file.induct)
  case (1 target source)
  show ?case
  proof (cases "length (take BUFFER_SIZE source) < BUFFER_SIZE")
    case True
    then have "take BUFFER_SIZE source = source" by simp
    with True show ?thesis by (subst write_file.simps) (simp add: Let_def)
  next
    case False
    with 1 show ?thesis by (subst write_file.simps) (simp add: Let_def)
  qed
qed

definition packed :: "byte list list \<Rightarrow> byte list" where
  "packed mods = concat (map (\<lambda>s. le32 (of_nat (length s)) @ s) mods)"

lemma write_modules_eq:
  "write_modules d fs target = map_option (\<lambda>mods. target @ packed mods) (those (map d fs))"
proof (induction fs arbitrary: target)
  case (Cons f fs)
  then show ?case
    by (cases "d f"; cases "those (map d fs)") (simp_all add: write_file_eq write_size_def packed_def)
qed (simp add: packed_def)

definition packed_image :: "byte list \<Rightarrow> byte list list \<Rightarrow> byte list" where
  "packed_image kern mods = kern @ le32 (of_nat (length mods)) @ packed mods"

lemma buildImage_eq:
  assumes "d f = Some kern" and "those (map d fs) = Some mods"
  shows "buildImage True (f # fs) out d = Some (True, d(out \<mapsto> packed_image kern mods))"
proof -
  have "length mods = length fs" using assms(2) by (induction fs arbitrary: mods) (auto split: option.splits)
  then show ?thesis using assms by (simp add: buildImage_def write_modules_eq write_file_eq packed_image_def)
qed

lemma checkFiles_eq: "checkFiles d fs = (\<forall>f \<in> set fs. d f \<noteq> None)"
  by (induction fs) auto

section \<open>What the loader reads\<close>

definition holds_at :: "bytes \<Rightarrow> addr \<Rightarrow> byte list \<Rightarrow> bool" where
  "holds_at m a bs = (\<forall>i < length bs. m (a + i) = bs ! i)"

lemma holds_at_append: "holds_at m a (xs @ ys) \<longleftrightarrow> holds_at m a xs \<and> holds_at m (a + length xs) ys"
proof
  assume h: "holds_at m a (xs @ ys)"
  have "m (a + i) = xs ! i" if "i < length xs" for i using h that by (auto simp: holds_at_def nth_append split: if_splits)
  moreover have "m (a + length xs + i) = ys ! i" if "i < length ys" for i
    using h that unfolding holds_at_def by (auto simp: nth_append add.assoc dest: spec [of _ "length xs + i"])
  ultimately show "holds_at m a xs \<and> holds_at m (a + length xs) ys" by (simp add: holds_at_def)
next
  assume "holds_at m a xs \<and> holds_at m (a + length xs) ys"
  then have x: "\<forall>i < length xs. m (a + i) = xs ! i" and y: "\<forall>i < length ys. m (a + length xs + i) = ys ! i"
    by (simp_all add: holds_at_def)
  have "m (a + i) = (xs @ ys) ! i" if i: "i < length (xs @ ys)" for i
  proof (cases "i < length xs")
    case False
    then have "i - length xs < length ys" using i by auto
    then have "m (a + length xs + (i - length xs)) = ys ! (i - length xs)" by (rule y [rule_format])
    moreover have "a + length xs + (i - length xs) = a + i" using False by simp
    ultimately have "m (a + i) = ys ! (i - length xs)" by (simp only:)
    with False show ?thesis by (simp add: nth_append)
  qed (simp add: nth_append x)
  then show "holds_at m a (xs @ ys)" by (simp add: holds_at_def)
qed

lemma read32_le32:
  assumes "holds_at m a (le32 w)"
  shows "read32 m a = w"
proof -
  have b: "m a = ucast w" "m (a + 1) = ucast (drop_bit 8 w)" "m (a + 2) = ucast (drop_bit 16 w)" "m (a + 3) = ucast (drop_bit 24 w)"
    using assms by (auto simp: holds_at_def le32_def numeral_eq_Suc less_Suc_eq All_less_Suc)
  show ?thesis unfolding read32_def b
  proof (rule bit_word_eqI)
    fix n assume "n < LENGTH(32)"
    then consider "n < 8" | "8 \<le> n" "n < 16" | "16 \<le> n" "n < 24" | "24 \<le> n" "n < 32" by (simp) linarith
    then show "bit (or (ucast (ucast w :: byte)) (or (push_bit 8 (ucast (ucast (drop_bit 8 w) :: byte)))
        (or (push_bit 16 (ucast (ucast (drop_bit 16 w) :: byte))) (push_bit 24 (ucast (ucast (drop_bit 24 w) :: byte))))) :: 32 word) n = bit w n"
      by cases (simp_all add: bit_simps less_diff_conv2)
  qed
qed

lemma holds_at_frame: "holds_at m a bs \<Longrightarrow> (\<And>b. a \<le> b \<Longrightarrow> b < a + length bs \<Longrightarrow> m' b = m b) \<Longrightarrow> holds_at m' a bs"
  by (simp add: holds_at_def)

lemma length_le32: "length (le32 w) = 4"
  by (simp add: le32_def)

lemma packed_Cons: "packed (s # mods) = le32 (of_nat (length s)) @ s @ packed mods"
  by (simp add: packed_def)

text \<open>Modules from index i on lie in memory from p on; the targets are apart from each other and from what is to be read.\<close>

definition apart :: "(nat \<Rightarrow> addr) \<Rightarrow> nat \<Rightarrow> byte list list \<Rightarrow> addr \<Rightarrow> nat \<Rightarrow> bool" where
  "apart targets i mods p n = (\<forall>j < length mods. (targets (i + j) + length (mods ! j) \<le> p \<or> p + n \<le> targets (i + j)) \<and>
     (\<forall>k < length mods. j \<noteq> k \<longrightarrow> targets (i + j) + length (mods ! j) \<le> targets (i + k) \<or>
        targets (i + k) + length (mods ! k) \<le> targets (i + j)))"

lemma apart_tail:
  assumes "apart targets i (s # mods) p (4 + (length s + n))"
  shows "apart targets (i + 1) mods (p + (4 + length s)) n"
proof -
  have "(targets (i + 1 + j) + length (mods ! j) \<le> p + (4 + length s) \<or> p + (4 + length s) + n \<le> targets (i + 1 + j)) \<and>
     (\<forall>k < length mods. j \<noteq> k \<longrightarrow> targets (i + 1 + j) + length (mods ! j) \<le> targets (i + 1 + k) \<or>
        targets (i + 1 + k) + length (mods ! k) \<le> targets (i + 1 + j))" if j: "j < length mods" for j
  proof -
    have here: "targets (i + Suc j) + length ((s # mods) ! Suc j) \<le> p \<or> p + (4 + (length s + n)) \<le> targets (i + Suc j)"
      using assms j unfolding apart_def by (metis length_Cons Suc_less_eq)
    have "targets (i + Suc j) + length ((s # mods) ! Suc j) \<le> targets (i + Suc k) \<or>
        targets (i + Suc k) + length ((s # mods) ! Suc k) \<le> targets (i + Suc j)" if "k < length mods" "j \<noteq> k" for k
      using assms j that unfolding apart_def by (metis length_Cons Suc_less_eq nat.inject)
    with here show ?thesis by auto
  qed
  then show ?thesis unfolding apart_def by blast
qed

lemma load_from_loads:
  assumes "holds_at m p (packed mods)" and "apart targets i mods p (length (packed mods))" and "\<forall>s \<in> set mods. length s < 2 ^ 32"
  shows "(\<forall>j < length mods. holds_at (load_from (length mods) i targets p m) (targets (i + j)) (mods ! j)) \<and>
    (\<forall>a. (\<forall>j < length mods. \<not> (targets (i + j) \<le> a \<and> a < targets (i + j) + length (mods ! j))) \<longrightarrow>
       load_from (length mods) i targets p m a = m a)"
  using assms
proof (induction mods arbitrary: i p m)
  case (Cons s mods)
  let ?t = "targets i" and ?q = "p + (4 + length s)"
  let ?m = "memcpy m ?t (p + 4) (length s)"
  have hs: "holds_at m p (le32 (of_nat (length s)))" and hd: "holds_at m (p + 4) s" and ht: "holds_at m ?q (packed mods)"
    using Cons.prems(1) by (simp_all add: packed_Cons holds_at_append length_le32 add.assoc)
  have len: "unat (of_nat (length s) :: 32 word) = length s" using Cons.prems(3) by (simp add: unat_of_nat)
  have lp: "length (packed (s # mods)) = 4 + (length s + length (packed mods))" by (simp add: packed_Cons length_le32)
  note ap = Cons.prems(2) [unfolded lp]
  have off: "?t + length s \<le> p \<or> p + (4 + (length s + length (packed mods))) \<le> ?t"
    using ap unfolding apart_def by force
  have cp: "?m = (\<lambda>a. if ?t \<le> a \<and> a < ?t + length s then m (p + 4 + (a - ?t)) else m a)"
    using off by (intro memcpy_eq) auto
  have load: "load_from (length (s # mods)) i targets p m = load_from (length mods) (i + 1) targets ?q ?m"
    by (simp add: loadModule_def readUint32_def read32_le32 [OF hs] len add.assoc)
  have "holds_at ?m ?q (packed mods)" by (rule holds_at_frame [OF ht]) (use off in \<open>auto simp: cp\<close>)
  from Cons.IH [OF this apart_tail [OF ap]] Cons.prems(3)
  have rest: "\<forall>j < length mods. holds_at (load_from (length mods) (i + 1) targets ?q ?m) (targets (i + 1 + j)) (mods ! j)"
    and same: "\<And>a. (\<forall>j < length mods. \<not> (targets (i + 1 + j) \<le> a \<and> a < targets (i + 1 + j) + length (mods ! j))) \<Longrightarrow>
       load_from (length mods) (i + 1) targets ?q ?m a = ?m a" by simp_all
  have first: "holds_at (load_from (length mods) (i + 1) targets ?q ?m) ?t s"
  proof (rule holds_at_frame)
    show "holds_at ?m ?t s" using hd by (simp add: cp holds_at_def)
    fix b assume b: "?t \<le> b" "b < ?t + length s"
    have "\<not> (targets (i + 1 + j) \<le> b \<and> b < targets (i + 1 + j) + length (mods ! j))" if "j < length mods" for j
    proof -
      have "targets (i + 0) + length ((s # mods) ! 0) \<le> targets (i + Suc j) \<or>
          targets (i + Suc j) + length ((s # mods) ! Suc j) \<le> targets (i + 0)"
        using ap that unfolding apart_def by (metis length_Cons Suc_less_eq nat.distinct(1) zero_less_Suc)
      then show ?thesis using b by auto
    qed
    then show "load_from (length mods) (i + 1) targets ?q ?m b = ?m b" by (intro same) blast
  qed
  have "holds_at (load_from (length (s # mods)) i targets p m) (targets (i + j)) ((s # mods) ! j)" if "j < length (s # mods)" for j
    using first rest that unfolding load by (cases j) (auto simp: add.assoc)
  moreover have "load_from (length (s # mods)) i targets p m a = m a"
    if "\<forall>j < length (s # mods). \<not> (targets (i + j) \<le> a \<and> a < targets (i + j) + length ((s # mods) ! j))" for a
  proof -
    have "\<not> (targets (i + 1 + j) \<le> a \<and> a < targets (i + 1 + j) + length (mods ! j))" if "j < length mods" for j
      using that \<open>\<forall>j < length (s # mods). _ j\<close> by (auto dest!: spec [of _ "Suc j"])
    then have "load_from (length mods) (i + 1) targets ?q ?m a = ?m a" by (intro same) blast
    moreover have "\<not> (?t \<le> a \<and> a < ?t + length s)" using that by (auto dest!: spec [of _ 0])
    ultimately show ?thesis unfolding load by (simp add: cp)
  qed
  ultimately show ?case by blast
qed simp

lemma loadModules_loads:
  assumes "holds_at m p (le32 (of_nat (length mods)) @ packed mods)" and "length mods < 2 ^ 32"
    and "apart targets 0 mods (p + 4) (length (packed mods))" and "\<forall>s \<in> set mods. length s < 2 ^ 32"
  shows "(\<forall>j < length mods. holds_at (loadModules p targets m) (targets j) (mods ! j)) \<and>
    (\<forall>a. (\<forall>j < length mods. \<not> (targets j \<le> a \<and> a < targets j + length (mods ! j))) \<longrightarrow> loadModules p targets m a = m a)"
proof -
  have h: "holds_at m p (le32 (of_nat (length mods)))" "holds_at m (p + 4) (packed mods)"
    using assms(1) by (simp_all add: holds_at_append length_le32)
  have "unat (of_nat (length mods) :: 32 word) = length mods" using assms(2) by (simp add: unat_of_nat)
  then have "loadModules p targets m = load_from (length mods) 0 targets (p + 4) m"
    by (simp add: loadModules_def readUint32_def read32_le32 [OF h(1)])
  with load_from_loads [OF h(2) assms(3,4)] show ?thesis by simp
qed

lemma built_image:
  assumes "buildImage c (f # fs) output d = Some (True, d')" and "d' output = Some img"
  shows "\<exists>kern mods. d f = Some kern \<and> those (map d fs) = Some mods \<and> img = packed_image kern mods"
proof -
  have c: c using assms(1) by (cases c) (simp_all add: buildImage_def)
  from assms(1) c obtain kern where k: "d f = Some kern" by (auto simp: buildImage_def bind_eq_Some_conv)
  moreover from assms(1) c k obtain mods where m: "those (map d fs) = Some mods"
    by (cases "those (map d fs)") (auto simp: buildImage_def write_modules_eq)
  moreover have "img = packed_image kern mods"
    using buildImage_eq [where out = "output", OF k m] assms c by auto
  ultimately show ?thesis by blast
qed

section \<open>Properties\<close>



text \<open>
  C17. At boot the code and the data module are at 0x400000 and 0x500000 and the kernel's
  variables are zero, although their memory begins where the packed modules were: the modules are copied before it is
  cleared, provided the code module fits in its megabyte and the kernel ends below 0x400000.
\<close>

theorem boot_places_modules:
  assumes "holds_at m base (packed_image kern [code, data])" and "endOfKernelBinary l = base + length kern"
    and "base + length (packed_image kern [code, data]) \<le> sampleCodeModuleAddress"
    and "length code \<le> sampleDataModuleAddress - sampleCodeModuleAddress" and "length data < 2 ^ 32"
    and "bss l \<le> endOfKernel l" and "endOfKernel l \<le> sampleCodeModuleAddress"
  shows "holds_at (initializeKernelBinary l m) sampleCodeModuleAddress code \<and>
    holds_at (initializeKernelBinary l m) sampleDataModuleAddress data \<and>
    (\<forall>a. bss l \<le> a \<and> a < endOfKernel l \<longrightarrow> initializeKernelBinary l m a = 0) \<and>
    (\<forall>a < bss l. initializeKernelBinary l m a = m a)"
proof -
  let ?t = "\<lambda>i. [sampleCodeModuleAddress, sampleDataModuleAddress] ! i"
  let ?m1 = "loadModules (endOfKernelBinary l) ?t m"
  note addrs = sampleCodeModuleAddress_def sampleDataModuleAddress_def
  have img: "holds_at m (base + length kern) (le32 (of_nat (length [code, data])) @ packed [code, data])"
    using assms(1) by (simp add: packed_image_def holds_at_append)
  have len: "length (packed_image kern [code, data]) = length kern + 4 + length (packed [code, data])"
    by (simp add: packed_image_def length_le32)
  have ap: "apart ?t 0 [code, data] (base + length kern + 4) (length (packed [code, data]))"
    using assms(3,4) unfolding len by (auto simp: apart_def addrs nth_Cons less_Suc_eq split: nat.splits)
  have "length [code, data] < 2 ^ 32" by simp
  moreover have "\<forall>s \<in> set [code, data]. length s < 2 ^ 32" using assms(4,5) by (simp add: addrs)
  ultimately have l: "holds_at ?m1 sampleCodeModuleAddress code" "holds_at ?m1 sampleDataModuleAddress data"
    and same: "\<And>a. a < sampleCodeModuleAddress \<Longrightarrow> ?m1 a = m a"
    using loadModules_loads [OF img _ ap] assms(2)
    by (auto simp: addrs less_Suc_eq)
  have i: "initializeKernelBinary l m = (\<lambda>a. if bss l \<le> a \<and> a < endOfKernel l then 0 else ?m1 a)"
    using assms(6) by (simp add: initializeKernelBinary_def clearBSS_def memset_def memset_down_eq)
  show ?thesis
    using l same assms(6,7) unfolding i by (auto simp: holds_at_def addrs)
qed

theorem boot_places_modules_witness:
  "\<exists>m. holds_at (initializeKernelBinary \<lparr>bss = 1050, endOfKernelBinary = 1002, endOfKernel = 2000\<rparr> m) 0x400000 [9] \<and>
     initializeKernelBinary \<lparr>bss = 1050, endOfKernelBinary = 1002, endOfKernel = 2000\<rparr> m 1060 = 0"
proof -
  let ?img = "packed_image [1, 2] [[9], [8]]" and ?l = "\<lparr>bss = 1050, endOfKernelBinary = 1002, endOfKernel = 2000\<rparr>"
  let ?m = "\<lambda>b. if 1000 \<le> b \<and> b < 1000 + length ?img then ?img ! (b - 1000) else 5"
  have h: "holds_at ?m 1000 ?img" by (simp add: holds_at_def)
  have "length ?img = 16" by (simp add: packed_image_def packed_def length_le32)
  with boot_places_modules [OF h, of ?l] show ?thesis
    by (intro exI [of _ ?m]) (simp add: sampleCodeModuleAddress_def sampleDataModuleAddress_def)
qed

end
