(* ===== verification/Kernel_Main.thy ===== *)
theory Kernel_Main
  imports Syscalls Modules
begin

text \<open>
  \<open>main\<close> of \<open>Kernel/kernel.c\<close>: the order in which the kernel's parts come up. \<open>start_kernel\<close> is everything after the
  memory manager was created; the two ways out are the halted machine, when the semaphores could not be allocated, and
  the one that waits for the first timer tick.
\<close>

datatype 'm boot = Halted 'm | Waiting 'm

text \<open>"Hubo un error al inicializar los semaforos." and the name "shell".\<close>

definition SEM_ERROR :: "byte list" where
  "SEM_ERROR = [72,117,98,111,32,117,110,32,101,114,114,111,114,32,97,108,32,105,110,105,99,105,97,108,105,122,97,114,32,108,
     111,115,32,115,101,109,97,102,111,114,111,115,46]"
definition SHELL_NAME :: "byte list" where "SHELL_NAME = [115,104,101,108,108]"

definition start_kernel :: "nat \<Rightarrow> 'a machine_scheme \<Rightarrow> 'a machine_scheme boot option" where
  "start_kernel idle_rip m0 = do {
     m1 \<leftarrow> createScheduler idle_rip m0;
     let (p, m2) = initSemaphoreManager m1;
     if p = 0 then Some (Halted (on_video (print_text SEM_ERROR) m2))
     else do {
       (v, m4) \<leftarrow> initializeKeyboardDriver (initializePipeManager m2);
       (i, m5) \<leftarrow> createProcess sampleCodeModuleAddress (Some ((\<lambda>_. None)(0 := Some SHELL_NAME))) 1 MAX_PRIORITY
         (Some [int STDIN, int STDOUT, int STDERR]) 0 m4;
       Some (Waiting m5)
     } }"

text \<open>The interrupt unit is set up first and the flag is off while the parts come up.\<close>

definition kernel_main :: "handlers \<Rightarrow> nat \<Rightarrow> interrupt_unit \<Rightarrow> 'a machine_scheme \<Rightarrow>
    (interrupt_unit \<times> 'a machine_scheme boot) option" where
  "kernel_main h idle_rip u m = do {
     let u1 = (load_idt h u)\<lparr>if_flag := False\<rparr>;
     let (p, mm) = mm_create memoryManagerModuleAddress HEAP_SIZE (k_mm m);
     b \<leftarrow> start_kernel idle_rip (m\<lparr>k_mm := mm\<rparr>);
     Some (case b of Halted m' \<Rightarrow> (u1, b) | Waiting m' \<Rightarrow> (u1\<lparr>if_flag := True\<rparr>, b)) }"

section \<open>Lemmas\<close>

text \<open>A block that is live stays live while nothing is freed.\<close>

definition grows :: "mm_state \<Rightarrow> mm_state \<Rightarrow> bool" where
  "grows m m' = (mm_inv m \<longrightarrow> mm_inv m' \<and> mm_live m \<subseteq> mm_live m')"

lemma grows_refl: "grows m m"
  by (simp add: grows_def)

lemma grows_trans: "grows m m1 \<Longrightarrow> grows m1 m2 \<Longrightarrow> grows m m2"
  by (auto simp: grows_def)

lemma grows_alloc: "mm_alloc n m = (p, m') \<Longrightarrow> grows m m'"
  using mm.alloc_inv [of m n p m'] mm.alloc_null [of m n m'] mm.alloc_live [of m n p m']
  by (cases "p = 0") (auto simp: grows_def)

lemma grows_seq_create: "seq_create m = (l, m') \<Longrightarrow> grows m m'"
  by (auto simp: seq_create_def split: prod.splits dest: grows_alloc)

lemma grows_seq_add: "seq_add d l m = (n, l', m') \<Longrightarrow> grows m m'"
  by (auto simp: seq_add_def grows_refl split: prod.splits if_splits dest: grows_alloc)

text \<open>A process that was created has a control block of its own.\<close>

lemma createProcess_block:
  assumes "createProcess code args ac prio fds gr k = Some (i, k')" and "i \<noteq> - 1" and inv: "mm_inv (k_mm k)"
  obtains a p where "procs k' = (procs k)(a \<mapsto> p)" "a \<notin> mm_live (k_mm k)" "a \<in> mm_live (k_mm k')" "mm_inv (k_mm k')"
proof -
  obtain a m where alloc: "mm_alloc sizeof_pcb (k_mm k) = (a, m)" by force
  let ?k2 = "k\<lparr>k_mm := m, procs := (procs k)(a \<mapsto> zeroed_pcb)\<rparr>"
  from assms(1,2) have sch: "scheduler k \<noteq> 0" "\<not> MAX_PROCESS \<le> processQty k"
    by (auto simp: createProcess_def split: if_splits)
  have a: "a \<noteq> 0" by (rule notI) (use assms(1,2) alloc sch in \<open>simp add: createProcess_def\<close>)
  from assms(1,2) alloc a sch obtain j where j1: "free_pid ?k2 0 = Some j"
    by (cases "free_pid ?k2 0") (simp_all add: createProcess_def)
  have "j \<noteq> MAX_PROCESS"
    by (rule notI) (use assms(1,2) alloc a sch j1 in \<open>simp add: createProcess_def bind_eq_Some_conv\<close>)
  with j1 have j: "free_pid ?k2 0 = Some j" "j \<noteq> MAX_PROCESS" by simp_all
  obtain r p m1 where init: "initializeProcess zeroed_pcb (int j) args ac prio code gr fds m = (r, p, m1)" by (rule prod_cases3)
  have r: "r \<noteq> - 1"
    by (rule notI) (use assms(1,2) alloc a sch j init in \<open>simp add: createProcess_def bind_eq_Some_conv\<close>)
  let ?k3 = "?k2\<lparr>procs := (procs ?k2)(a \<mapsto> p), k_mm := m1\<rparr>"
  obtain n4 l4 m4 where s4: "seq_add a (processList ?k3) m1 = (n4, l4, m4)" by (rule prod_cases3)
  obtain n5 l5 m5 where s5: "seq_add a (readyProcess ?k3) m4 = (n5, l5, m5)" by (rule prod_cases3)
  have "status p = READY" using initializeProcess_status [OF init r] by simp
  then have k': "procs k' = (procs k)(a \<mapsto> p)" "k_mm k' = m5"
    using assms(1,2) alloc a sch j init r s4 s5
    by (simp_all add: createProcess_def add_process_def add_ready_def Let_def) auto
  have i1: "mm_inv m" "mm_live m = insert a (mm_live (k_mm k))" "a \<notin> mm_live (k_mm k)"
    using mm.alloc_inv [OF inv alloc] mm.alloc_live [OF inv alloc a] mm.alloc_fresh [OF inv alloc a] by simp_all
  have "mm_inv m1 \<and> mm_live m \<subseteq> mm_live m1" using initializeProcess_owns [OF i1(1) init] by (auto simp: owns_def)
  moreover have "grows m1 m5" using grows_trans [OF grows_seq_add [OF s4] grows_seq_add [OF s5]] .
  ultimately have "mm_inv m5 \<and> mm_live m \<subseteq> mm_live m5" by (auto simp: grows_def)
  with that [OF k'(1)] i1 k'(2) show ?thesis by simp
qed

lemma sched_view_initSem: "initSemaphoreManager k = (p, k') \<Longrightarrow> sched_view k' = sched_view k \<and> grows (k_mm k) (k_mm k')"
  by (auto simp: initSemaphoreManager_def Let_def split: prod.splits if_splits dest: grows_alloc)

lemma sched_view_pipes: "sched_view (initializePipeManager k) = sched_view k \<and> k_mm (initializePipeManager k) = k_mm k"
  by (simp add: initializePipeManager_def sched_view_def)

lemma sched_view_sem_create:
  "sem_create i v k = Some (x, k') \<Longrightarrow> sched_view k' = sched_view k \<and> grows (k_mm k) (k_mm k')"
  by (auto simp: sem_create_def update_sem_def Let_def grows_refl split: prod.splits if_splits dest: grows_seq_create)

lemma createScheduler_starts:
  fixes m :: "'a machine_scheme"
  assumes "createScheduler idle_rip m = Some m1" and "scheduler m1 \<noteq> 0" and "mm_inv (k_mm m)" and "procs m = Map.empty"
  obtains k i where "createProcess idle_rip (Some ((\<lambda>_. None)(0 := Some [105, 100, 108, 101]))) 1 MIN_PRIORITY
      (Some [- 1, - 1, int STDERR]) 1 k = Some (i, m1)" "sched_ok k" "PL k = []" "RL k = []" "BL k = []" "procs k = Map.empty"
    "currentPid k = NO_PROCESS" "currentProcess k = 0" "created k" "mm_inv (k_mm k)"
proof -
  obtain s mm0 where s: "mm_alloc sizeof_scheduler (k_mm m) = (s, mm0)" by force
  obtain pl mm1 where p: "seq_create mm0 = (pl, mm1)" by force
  obtain rl mm2 where r: "seq_create mm1 = (rl, mm2)" by force
  obtain bl mm3 where b: "seq_create mm2 = (bl, mm3)" by force
  let ?k = "m\<lparr>scheduler := s, k_mm := mm3, processList := pl, readyProcess := rl, blockedProcess := bl,
    currentPid := - 1, currentProcess := 0, processQty := 0, quantums := MIN_QUANTUMS, created := True\<rparr>"
  have s0: "s \<noteq> 0" by (rule notI) (use assms(1,2) s in \<open>auto simp: createScheduler_def\<close>)
  have "grows (k_mm m) mm3"
    using grows_alloc [OF s] grows_seq_create [OF p] grows_seq_create [OF r] grows_seq_create [OF b] grows_trans by blast
  then have inv: "mm_inv mm3" using assms(3) by (simp add: grows_def)
  have empty: "l_items pl = []" "l_items rl = []" "l_items bl = []"
    using p r b by (auto simp: seq_create_def split: prod.splits)
  have view: "PL ?k = []" "RL ?k = []" "BL ?k = []" by (simp_all add: empty PL_def RL_def BL_def)
  have ok: "sched_ok ?k"
    using s0 assms(4) unfolding sched_ok_def view by (simp add: inv_defs NO_PROCESS_def st_apply)
  have "map_option snd (createProcess idle_rip (Some ((\<lambda>_. None)(0 := Some [105, 100, 108, 101]))) 1 MIN_PRIORITY
      (Some [- 1, - 1, int STDERR]) 1 ?k) = Some m1"
    using assms(1) s s0 p r b by (simp add: createScheduler_def)
  then obtain i where c: "createProcess idle_rip (Some ((\<lambda>_. None)(0 := Some [105, 100, 108, 101]))) 1 MIN_PRIORITY
      (Some [- 1, - 1, int STDERR]) 1 ?k = Some (i, m1)" by auto
  show ?thesis by (rule that [OF c ok view]) (simp_all add: assms(4) inv NO_PROCESS_def)
qed

text \<open>A creation on a scheduler that is fine, after which both lists are one longer.\<close>

lemma createProcess_grown:
  assumes "createProcess code args ac prio fds gr k = Some (i, k')" and "sched_ok k"
    and "procs k (fst (mm_alloc sizeof_pcb (k_mm k))) = None"
  shows "length (PL k') \<le> length (PL k) + 1 \<and> length (RL k') \<le> length (RL k) + 1 \<and>
    (length (PL k') = length (PL k) + 1 \<and> length (RL k') = length (RL k) + 1 \<longrightarrow>
      (\<exists>a p j. i = int j \<and> (\<forall>x < j. \<exists>b \<in> set (PL k). pd k b = Some (int x)) \<and> (\<forall>b \<in> set (PL k). pd k b \<noteq> Some (int j)) \<and>
        procs k' = (procs k)(a \<mapsto> p) \<and> a \<notin> set (PL k) \<and> pid p = int j \<and> status p = READY \<and> priority p = prio \<and>
        PL k' = PL k @ [a] \<and> RL k' = RL k @ [a] \<and> BL k' = BL k \<and> sched_ok k' \<and> created k' = created k \<and>
        currentPid k' = currentPid k \<and> currentProcess k' = currentProcess k))"
proof (cases rule: createProcess_cases [OF assms(2,3), where code = code and args = args and ac = ac and prio = prio and fds = fds and gr = gr])
  case (1 k1)
  then show ?thesis using assms(1) by simp
next
  case (2 a p j k1)
  then have k': "k1 = k'" "i = int j" using assms(1) by simp_all
  note f = 2 [unfolded k'(1)]
  have "PL k' = PL k @ [a] \<and> RL k' = RL k @ [a]"
    if "length (PL k') = length (PL k) + 1 \<and> length (RL k') = length (RL k) + 1"
    using f(10,11) that by (cases "PL k' = PL k"; cases "RL k' = RL k") simp_all
  moreover have "length (PL k') \<le> length (PL k) + 1 \<and> length (RL k') \<le> length (RL k) + 1" using f(10,11) by auto
  moreover have "\<exists>a p j. i = int j \<and> (\<forall>x < j. \<exists>b \<in> set (PL k). pd k b = Some (int x)) \<and> (\<forall>b \<in> set (PL k). pd k b \<noteq> Some (int j)) \<and>
        procs k' = (procs k)(a \<mapsto> p) \<and> a \<notin> set (PL k) \<and> pid p = int j \<and> status p = READY \<and> priority p = prio \<and>
        PL k' = PL k @ [a] \<and> RL k' = RL k @ [a] \<and> BL k' = BL k \<and> sched_ok k' \<and> created k' = created k \<and>
        currentPid k' = currentPid k \<and> currentProcess k' = currentProcess k"
    if l: "PL k' = PL k @ [a] \<and> RL k' = RL k @ [a]"
  proof -
    have "sched_ok k'" using f(13) l by blast
    with f(3-9) f(12,14,16,17) k'(2) l show ?thesis by blast
  qed
  ultimately show ?thesis by blast
qed

lemma add_lengths:
  "length (PL (snd (add_process a k))) \<le> length (PL k) + 1" "RL (snd (add_process a k)) = RL k"
  "length (RL (snd (add_ready a k))) \<le> length (RL k) + 1" "PL (snd (add_ready a k)) = PL k"
  "RL (snd (add_blocked a k)) = RL k" "PL (snd (add_blocked a k)) = PL k"
  by (auto simp: add_process_def add_ready_def add_blocked_def seq_add_def PL_def RL_def split: prod.splits)

lemma createProcess_lengths:
  assumes "createProcess code args ac prio fds gr k = Some (i, k')"
  shows "length (PL k') \<le> length (PL k) + 1 \<and> length (RL k') \<le> length (RL k) + 1"
proof -
  obtain a m where alloc: "mm_alloc sizeof_pcb (k_mm k) = (a, m)" by force
  let ?k2 = "k\<lparr>k_mm := m, procs := (procs k)(a \<mapsto> zeroed_pcb)\<rparr>"
  show ?thesis
  proof (cases "scheduler k = 0 \<or> MAX_PROCESS \<le> processQty k \<or> a = 0")
    case True
    then show ?thesis using assms alloc by (auto simp: createProcess_def split: if_splits)
  next
    case False
    with assms alloc obtain j where j: "free_pid ?k2 0 = Some j" by (cases "free_pid ?k2 0") (simp_all add: createProcess_def)
    obtain r p m1 where init: "initializeProcess zeroed_pcb (int j) args ac prio code gr fds m = (r, p, m1)" by (rule prod_cases3)
    let ?k3 = "?k2\<lparr>procs := (procs ?k2)(a \<mapsto> p), k_mm := m1\<rparr>"
    consider "j = MAX_PROCESS" | "j \<noteq> MAX_PROCESS" "r = - 1" | "j \<noteq> MAX_PROCESS" "r \<noteq> - 1" by blast
    then show ?thesis
    proof cases
      case 3
      let ?k4 = "snd (add_process a ?k3)"
      let ?k5 = "if status p = READY then snd (add_ready a ?k4) else if status p = BLOCKED then snd (add_blocked a ?k4) else ?k4"
      have "k' = ?k5\<lparr>processQty := (processQty ?k5 + 1) mod 2 ^ 16\<rparr>"
        using assms alloc False j init 3 by (cases "status p") (simp_all add: createProcess_def Let_def)
      moreover have "length (PL ?k4) \<le> length (PL k) + 1" "length (RL ?k4) \<le> length (RL k)"
        using add_lengths(1,2) [of a ?k3] by simp_all
      moreover have "length (PL ?k5) \<le> length (PL ?k4)" "length (RL ?k5) \<le> length (RL ?k4) + 1"
        using add_lengths(3-6) [of a ?k4] by auto
      ultimately show ?thesis by simp
    qed (use assms alloc False j init in \<open>auto simp: createProcess_def bind_eq_Some_conv free_pcb_def\<close>)
  qed
qed

section \<open>Enough memory\<close>

text \<open>The bitmap manager with its last n cells free: whatever is allocated first fits, and as many cells remain.\<close>

definition room :: "nat \<Rightarrow> mm_state \<Rightarrow> bool" where
  "room n m = (\<exists>s. m = BitmapMM s \<and> bitmap_inv s \<and> n \<le> blockCount (manager s) \<and>
     free_cells (bitmap (manager s)) (blockCount (manager s) - n) n)"

lemma room_inv: "room n m \<Longrightarrow> mm_inv m"
  by (auto simp: room_def)

lemma room_alloc:
  assumes "room n m" and "0 < sz" and "sz \<le> 131072" and "blocks_for sz \<le> n"
  obtains p m' where "mm_alloc sz m = (p, m')" "p \<noteq> 0" "room (n - blocks_for sz) m'"
proof -
  from assms(1) obtain s where s: "m = BitmapMM s" "bitmap_inv s" "n \<le> blockCount (manager s)"
    "free_cells (bitmap (manager s)) (blockCount (manager s) - n) n" by (auto simp: room_def)
  let ?c = "blockCount (manager s)" and ?b = "blocks_for sz"
  have b: "0 < ?b" using assms(2) by (rule blocks_for_pos)
  have here: "fits s sz (?c - n)" using s(3,4) assms(4) by (auto simp: fits_def free_cells_def)
  define l where "l = (LEAST start. fits s sz start)"
  have l: "l \<le> ?c - n" unfolding l_def using here by (rule Least_le)
  have low: "fst (bitmap_alloc sz s) = realMemStart (manager s) + l * 64"
    using bitmap_alloc_lowest [OF s(2), of sz] assms(2,3) here by (auto simp: l_def)
  have pos: "0 < realMemStart (manager s)" using bitmap_invD(2) [OF s(2)] .
  show ?thesis
  proof (cases rule: bitmap_alloc_cases [OF s(2), of sz])
    case 1
    with low pos show ?thesis by simp
  next
    case (2 start)
    have "start = l" using 2(5) low by simp
    let ?s = "s\<lparr>manager := (manager s)\<lparr>bitmap := marked (bitmap (manager s)) start ?b,
           usedBlocksCount := usedBlocksCount (manager s) + ?b\<rparr>\<rparr>"
    have "bitmap_inv ?s" using bitmap_alloc_inv [OF s(2) 2(5)] .
    moreover have "free_cells (marked (bitmap (manager s)) start ?b) (?c - (n - ?b)) (n - ?b)"
      using s(3,4) l assms(4) b \<open>start = l\<close> by (auto simp: free_cells_def marked_def)
    ultimately have "room (n - ?b) (BitmapMM ?s)" using s(3) by (auto simp: room_def)
    with that [of "realMemStart (manager s) + start * 64" "BitmapMM ?s"] 2(5) pos s(1) show ?thesis by simp
  qed
qed

lemma room_one:
  assumes "room (n + 1) m" and "0 < sz" and "sz \<le> 64"
  obtains p m' where "mm_alloc sz m = (p, m')" "p \<noteq> 0" "room n m'"
proof -
  have b: "blocks_for sz = 1" using assms(2,3) by (simp add: blocks_for_def)
  obtain p m' where "mm_alloc sz m = (p, m')" "p \<noteq> 0" "room (n + 1 - blocks_for sz) m'"
    by (rule room_alloc [OF assms(1,2)]) (use assms(3) b in simp_all)
  with that b show ?thesis by simp
qed

lemma room_seq_create:
  assumes "room (n + 1) m"
  obtains l m' where "seq_create m = (l, m')" "l_addr l \<noteq> 0" "l_items l = []" "room n m'"
proof -
  have "0 < sizeof_list" "sizeof_list \<le> 64" by (simp_all add: sizeof_list_def)
  from room_one [OF assms this] obtain p m' where "mm_alloc sizeof_list m = (p, m')" "p \<noteq> 0" "room n m'" by metis
  with that [of "\<lparr>l_addr = p, l_items = []\<rparr>" m'] show ?thesis by (simp add: seq_create_def)
qed

lemma room_seq_add:
  assumes "room (n + 1) m" and "l_addr l \<noteq> 0"
  obtains p m' where "seq_add d l m = (p, l\<lparr>l_items := l_items l @ [(p, d)]\<rparr>, m')" "p \<noteq> 0" "room n m'"
proof -
  have "0 < sizeof_node" "sizeof_node \<le> 64" by (simp_all add: sizeof_node_def)
  from room_one [OF assms(1) this] obtain p m' where "mm_alloc sizeof_node m = (p, m')" "p \<noteq> 0" "room n m'" by metis
  with that [of p m'] assms(2) show ?thesis by (simp add: seq_add_def)
qed

text \<open>A process with one argument, its name, needs 68 cells and its control block and list nodes four more.\<close>

lemma room_initializeProcess:
  assumes "room (n + 68) m" and "length s < 64"
  obtains p m' where "initializeProcess p0 i (Some ((\<lambda>_. None)(0 := Some s))) 1 prio code gr fds m = (0, p, m')" "room n m'"
proof -
  have st: "0 < STACK_SIZE" "STACK_SIZE \<le> 131072" "blocks_for STACK_SIZE = 64" by (simp_all add: STACK_SIZE_def blocks_for_def)
  have len: "0 < length s + 1" "length s + 1 \<le> 64" using assms(2) by simp_all
  obtain sp m1 where a1: "mm_alloc STACK_SIZE m = (sp, m1)" "sp \<noteq> 0" "room (n + 68 - blocks_for STACK_SIZE) m1"
    by (rule room_alloc [OF assms(1) st(1,2)]) (use st(3) in simp_all)
  have r1: "room (n + 3 + 1) m1" using a1(3) by (simp add: st(3))
  obtain q m2 where a2: "mm_alloc 16 m1 = (q, m2)" "q \<noteq> 0" "room (n + 3) m2" by (rule room_one [OF r1, of 16]) simp_all
  have r2: "room (n + 2 + 1) m2" using a2(3) by (simp add: eval_nat_numeral)
  obtain r m3 where a3: "mm_alloc (length s + 1) m2 = (r, m3)" "r \<noteq> 0" "room (n + 2) m3" by (rule room_one [OF r2 len])
  have r3: "room (n + 1 + 1) m3" using a3(3) by (simp add: eval_nat_numeral)
  obtain t m4 where a4: "mm_alloc (length s + 1) m3 = (t, m4)" "t \<noteq> 0" "room (n + 1) m4" by (rule room_one [OF r3 len])
  obtain w m5 where a5: "seq_create m4 = (w, m5)" "l_addr w \<noteq> 0" "room n m5" by (rule room_seq_create [OF a4(3)])
  let ?f = "(\<lambda>_. None)(0 := Some s) :: nat \<Rightarrow> byte list option"
  have av: "allocArgv (Some ?f) 1 m1 = (Some (q, [(r, s)]), m3)"
    using a2 a3 by (simp add: allocArgv_def copy_args.simps)
  have nm: "process_name (Some ?f) 1 = s" by (simp add: process_name_def)
  obtain p where "initializeProcess p0 i (Some ?f) 1 prio code gr fds m = (0, p, m5)"
    using a1 av nm a4 a5 by (simp add: initializeProcess_def Let_def)
  with that a5(3) show ?thesis by blast
qed

lemma room_createProcess:
  fixes k :: "'a kernel_scheme"
  assumes "sched_ok k" and "procs k (fst (mm_alloc sizeof_pcb (k_mm k))) = None" and "processQty k < MAX_PROCESS"
    and "l_addr (processList k) \<noteq> 0" and "l_addr (readyProcess k) \<noteq> 0" and "room (n + 72) (k_mm k)" and "length s < 64"
  obtains i k' where "createProcess code (Some ((\<lambda>_. None)(0 := Some s))) 1 prio fds gr k = Some (i, k')"
    "length (PL k') = length (PL k) + 1" "length (RL k') = length (RL k) + 1" "room n (k_mm k')" "scheduler k' = scheduler k"
    "l_addr (processList k') \<noteq> 0" "l_addr (readyProcess k') \<noteq> 0" "processQty k' = processQty k + 1"
proof -
  from assms(1) [unfolded sched_ok_core] have sch: "scheduler k \<noteq> 0" and tab: "table_inv (PL k) (pd k) (processQty k)" by auto
  have pcb: "0 < sizeof_pcb" "sizeof_pcb \<le> 131072" "blocks_for sizeof_pcb = 2" by (simp_all add: sizeof_pcb_def blocks_for_def)
  obtain a m where a: "mm_alloc sizeof_pcb (k_mm k) = (a, m)" "a \<noteq> 0" "room (n + 72 - blocks_for sizeof_pcb) m"
    by (rule room_alloc [OF assms(6) pcb(1,2)]) (use pcb(3) in simp_all)
  have rm: "room (n + 2 + 68) m" using a(3) by (simp add: pcb(3))
  have out: "a \<notin> set (PL k)" using tab assms(2) a(1) by (auto simp: table_inv_def pd_apply)
  let ?k2 = "k\<lparr>k_mm := m, procs := (procs k)(a \<mapsto> zeroed_pcb)\<rparr>"
  have tab2: "table_inv (PL ?k2) (pd ?k2) (processQty k)" using table_outside [OF tab out] by simp
  have sch2: "scheduler ?k2 \<noteq> 0" using sch by simp
  obtain j where j: "free_pid ?k2 0 = Some j" using free_pid_least [OF sch2 tab2, of 0] by auto
  have jm: "j < MAX_PROCESS" using free_pid_exists [OF sch2 tab2 assms(3) j] .
  obtain p m1 where init: "initializeProcess zeroed_pcb (int j) (Some ((\<lambda>_. None)(0 := Some s))) 1 prio code gr fds m = (0, p, m1)"
      "room (n + 2) m1" by (rule room_initializeProcess [OF rm assms(7)])
  have p: "status p = READY" "pid p = int j" using initializeProcess_status [OF init(1)] by simp_all
  let ?k3 = "?k2\<lparr>procs := (procs ?k2)(a \<mapsto> p), k_mm := m1\<rparr>"
  have r1: "room (n + 1 + 1) m1" using init(2) by (simp add: eval_nat_numeral)
  obtain n4 m4 where s4: "seq_add a (processList k) m1 = (n4, (processList k)\<lparr>l_items := l_items (processList k) @ [(n4, a)]\<rparr>, m4)"
      "n4 \<noteq> 0" "room (n + 1) m4" by (rule room_seq_add [OF r1 assms(4)])
  obtain n5 m5 where s5: "seq_add a (readyProcess k) m4 = (n5, (readyProcess k)\<lparr>l_items := l_items (readyProcess k) @ [(n5, a)]\<rparr>, m5)"
      "n5 \<noteq> 0" "room n m5" by (rule room_seq_add [OF s4(3) assms(5)])
  let ?k' = "?k3\<lparr>processList := (processList k)\<lparr>l_items := l_items (processList k) @ [(n4, a)]\<rparr>,
      readyProcess := (readyProcess k)\<lparr>l_items := l_items (readyProcess k) @ [(n5, a)]\<rparr>, k_mm := m5,
      processQty := (processQty k + 1) mod 2 ^ 16\<rparr>"
  have "createProcess code (Some ((\<lambda>_. None)(0 := Some s))) 1 prio fds gr k = Some (int j, ?k')"
    using sch assms(3) a(1,2) j jm init(1) p s4(1) s5(1)
    by (simp add: createProcess_def add_process_def add_ready_def Let_def)
  moreover have "(processQty k + 1) mod 2 ^ 16 = processQty k + 1" using assms(3) by (simp add: MAX_PROCESS_def)
  ultimately show ?thesis using assms(4,5) s5(3) by (intro that [of "int j" ?k']) (simp_all add: PL_def RL_def)
qed

text \<open>The pieces of \<open>start_kernel\<close>, on a manager with 181 cells.\<close>

lemma room_createScheduler:
  fixes m :: "'a machine_scheme"
  assumes "room (n + 76) (k_mm m)" and "procs m = Map.empty"
  obtains m1 where "createScheduler idle_rip m = Some m1" "scheduler m1 \<noteq> 0" "room n (k_mm m1)" "l_addr (processList m1) \<noteq> 0"
    "l_addr (readyProcess m1) \<noteq> 0" "length (PL m1) = 1" "length (RL m1) = 1" "processQty m1 = 1"
proof -
  have r0: "room (n + 75 + 1) (k_mm m)" using assms(1) by (simp add: add.commute)
  have sz: "0 < sizeof_scheduler" "sizeof_scheduler \<le> 64" by (simp_all add: sizeof_scheduler_def)
  obtain s mm0 where s: "mm_alloc sizeof_scheduler (k_mm m) = (s, mm0)" "s \<noteq> 0" "room (n + 75) mm0" by (rule room_one [OF r0 sz])
  have r1: "room (n + 74 + 1) mm0" using s(3) by (simp add: add.commute)
  obtain pl mm1 where p: "seq_create mm0 = (pl, mm1)" "l_addr pl \<noteq> 0" "l_items pl = []" "room (n + 74) mm1" by (rule room_seq_create [OF r1])
  have r2: "room (n + 73 + 1) mm1" using p(4) by (simp add: add.commute)
  obtain rl mm2 where r: "seq_create mm1 = (rl, mm2)" "l_addr rl \<noteq> 0" "l_items rl = []" "room (n + 73) mm2" by (rule room_seq_create [OF r2])
  have r3: "room (n + 72 + 1) mm2" using r(4) by (simp add: add.commute)
  obtain bl mm3 where b: "seq_create mm2 = (bl, mm3)" "l_addr bl \<noteq> 0" "l_items bl = []" "room (n + 72) mm3" by (rule room_seq_create [OF r3])
  let ?k = "m\<lparr>scheduler := s, k_mm := mm3, processList := pl, readyProcess := rl, blockedProcess := bl,
    currentPid := - 1, currentProcess := 0, processQty := 0, quantums := MIN_QUANTUMS, created := True\<rparr>"
  have view: "PL ?k = []" "RL ?k = []" "BL ?k = []" by (simp_all add: PL_def RL_def BL_def p r b)
  have ok: "sched_ok ?k"
    using s(2) assms(2) unfolding sched_ok_def view by (simp add: inv_defs NO_PROCESS_def st_apply)
  have fresh: "procs ?k (fst (mm_alloc sizeof_pcb (k_mm ?k))) = None" by (simp add: assms(2))
  have pre: "processQty ?k < MAX_PROCESS" "l_addr (processList ?k) \<noteq> 0" "l_addr (readyProcess ?k) \<noteq> 0" "room (n + 72) (k_mm ?k)"
    by (simp_all add: MAX_PROCESS_def p r b)
  obtain i m1 where c: "createProcess idle_rip (Some ((\<lambda>_. None)(0 := Some [105, 100, 108, 101]))) 1 MIN_PRIORITY
      (Some [- 1, - 1, int STDERR]) 1 ?k = Some (i, m1)" "length (PL m1) = length (PL ?k) + 1" "length (RL m1) = length (RL ?k) + 1"
      "room n (k_mm m1)" "scheduler m1 = scheduler ?k" "l_addr (processList m1) \<noteq> 0" "l_addr (readyProcess m1) \<noteq> 0"
      "processQty m1 = processQty ?k + 1"
    by (rule room_createProcess [OF ok fresh pre, of "[105, 100, 108, 101]" idle_rip MIN_PRIORITY "Some [- 1, - 1, int STDERR]" 1]) auto
  have "createScheduler idle_rip m = Some m1" using s p r b c(1) by (simp add: createScheduler_def)
  then show ?thesis by (rule that) (use c s(2) view in simp_all)
qed

lemma room_create:
  "room 181 (snd (mm_create memoryManagerModuleAddress HEAP_SIZE (BitmapMM s)))"
proof -
  obtain r s' where c: "bitmap_create memoryManagerModuleAddress HEAP_SIZE s = (r, s')" by force
  have "bitmap_inv s'" "blockCount (manager s') = 4129775"
    using bitmap_create_ok [OF _ _ _ c] by (simp_all add: memoryManagerModuleAddress_def HEAP_SIZE_def)
  moreover have "\<forall>i < 4129775. bitmap (manager s') i = FREE"
    using c by (auto simp: bitmap_create_def Let_def sizeof_bitmap_manager_def HEAP_SIZE_def fill_range_eq)
  ultimately show ?thesis using c by (auto simp: room_def free_cells_def)
qed

lemma room_initSemaphoreManager:
  fixes m :: "'a machine_scheme"
  assumes "room (n + 32) (k_mm m)"
  obtains p m' where "initSemaphoreManager m = (p, m')" "p \<noteq> 0" "room n (k_mm m')" "semManager m' = p"
    "semaphores m' = (\<lambda>i. if i < NUM_SEMS then clear_sem else semaphores m i)"
proof -
  have sz: "0 < sizeof_semaphores" "sizeof_semaphores \<le> 131072" "blocks_for sizeof_semaphores = 32"
    by (simp_all add: sizeof_semaphores_def blocks_for_def)
  obtain p mm where a: "mm_alloc sizeof_semaphores (k_mm m) = (p, mm)" "p \<noteq> 0" "room (n + 32 - blocks_for sizeof_semaphores) mm"
    by (rule room_alloc [OF assms sz(1,2)]) (use sz(3) in simp_all)
  then have r: "room n mm" by (simp add: sz(3))
  have "initSemaphoreManager m = (p, m\<lparr>k_mm := mm, semManager := p,
      semaphores := (\<lambda>i. if i < NUM_SEMS then clear_sem else semaphores m i)\<rparr>)"
    using a(1,2) by (simp add: initSemaphoreManager_def Let_def cong: if_cong)
  then show ?thesis by (rule that) (use a(2) r in simp_all)
qed

lemma room_initializeKeyboardDriver:
  fixes m :: "'a machine_scheme"
  assumes "room (n + 1) (k_mm m)" and "semManager m \<noteq> 0" and "semaphores m = (\<lambda>i. if i < NUM_SEMS then clear_sem else f i)"
  obtains v m' where "initializeKeyboardDriver m = Some (v, m')" "room n (k_mm m')" "sched_view m' = sched_view m"
proof -
  obtain q mm where q: "seq_create (k_mm m) = (q, mm)" "l_addr q \<noteq> 0" "room n mm" by (rule room_seq_create [OF assms(1)]) blast
  have "isValidSemId KEYBOARD_SEM_ID \<noteq> - 1" by (simp add: isValidSemId_def KEYBOARD_SEM_ID_def NUM_SEMS_def)
  moreover have "active (semaphores m (nat KEYBOARD_SEM_ID)) = 0"
    by (simp add: assms(3) clear_sem_def KEYBOARD_SEM_ID_def NUM_SEMS_def)
  ultimately show ?thesis
    using assms(2) q that by (simp add: initializeKeyboardDriver_def sem_create_def Let_def update_sem_def sched_view_def)
qed

section \<open>The first two processes\<close>

lemma idle_ready:
  fixes m :: "'a machine_scheme"
  assumes "createScheduler idle_rip m = Some m1" and "scheduler m1 \<noteq> 0" and "mm_inv (k_mm m)" and "procs m = Map.empty"
    and "length (PL m1) = 1" and "length (RL m1) = 1"
  obtains a p where "procs m1 = [a \<mapsto> p]" "pid p = 0" "status p = READY" "priority p = MIN_PRIORITY" "PL m1 = [a]" "RL m1 = [a]"
    "BL m1 = []" "sched_ok m1" "created m1" "currentPid m1 = NO_PROCESS" "currentProcess m1 = 0" "a \<in> mm_live (k_mm m1)"
    "mm_inv (k_mm m1)"
proof -
  obtain k i0 where idle: "createProcess idle_rip (Some ((\<lambda>_. None)(0 := Some [105, 100, 108, 101]))) 1 MIN_PRIORITY
      (Some [- 1, - 1, int STDERR]) 1 k = Some (i0, m1)" and k: "sched_ok k" "PL k = []" "RL k = []" "BL k = []"
    "procs k = Map.empty" "currentPid k = NO_PROCESS" "currentProcess k = 0" "created k" "mm_inv (k_mm k)"
    by (rule createScheduler_starts [OF assms(1-4)])
  have fresh: "procs k (fst (mm_alloc sizeof_pcb (k_mm k))) = None" by (simp add: k)
  from createProcess_grown [OF idle k(1) fresh] assms(5,6)
  obtain a p j where j: "i0 = int j" "\<forall>x < j. \<exists>b \<in> set (PL k). pd k b = Some (int x)"
    and p: "procs m1 = (procs k)(a \<mapsto> p)" "pid p = int j" "status p = READY" "priority p = MIN_PRIORITY"
    and l1: "PL m1 = PL k @ [a]" "RL m1 = RL k @ [a]" "BL m1 = BL k" "sched_ok m1" "created m1 = created k"
      "currentPid m1 = currentPid k" "currentProcess m1 = currentProcess k"
    by (auto simp: k)
  have j0: "j = 0" using j(2) by (auto simp: k)
  have "i0 \<noteq> - 1" using j by simp
  from createProcess_block [OF idle this k(9)] obtain a' p' where
    a': "procs m1 = (procs k)(a' \<mapsto> p')" "a' \<in> mm_live (k_mm m1)" "mm_inv (k_mm m1)" by metis
  have "a' = a" using a'(1) p(1) by (simp add: k) (metis fun_upd_apply option.distinct(1))
  then have "procs m1 = [a \<mapsto> p]" "pid p = 0" "PL m1 = [a]" "RL m1 = [a]" "BL m1 = []" "created m1" "currentPid m1 = NO_PROCESS"
    "currentProcess m1 = 0" "a \<in> mm_live (k_mm m1)" using p l1 k j0 a'(2) by simp_all
  then show ?thesis by (intro that [of a p]) (use p(3,4) l1(4) a'(3) in simp_all)
qed

text \<open>Bringing up the other parts leaves the scheduler alone, and the next control block is a new one.\<close>

lemma later_ready:
  assumes "sched_view m4 = sched_view m1" and "grows (k_mm m1) (k_mm m4)" and "procs m1 = [a \<mapsto> p]" and "sched_ok m1"
    and "a \<in> mm_live (k_mm m1)" and "mm_inv (k_mm m1)"
  shows "sched_ok m4 \<and> procs m4 = [a \<mapsto> p] \<and> procs m4 (fst (mm_alloc sizeof_pcb (k_mm m4))) = None"
proof -
  have live: "a \<in> mm_live (k_mm m4)" "mm_inv (k_mm m4)" using assms(2,5,6) by (auto simp: grows_def)
  have p4: "procs m4 = [a \<mapsto> p]" using assms(1,3) by (simp add: sched_view_def)
  have ok4: "sched_ok m4" using assms(4) sched_view_inv [OF assms(1)] by simp
  obtain c mc where c: "mm_alloc sizeof_pcb (k_mm m4) = (c, mc)" by force
  have "c \<noteq> 0 \<Longrightarrow> c \<notin> mm_live (k_mm m4)" using mm.alloc_fresh [OF live(2) c] by blast
  moreover have "procs m4 0 = None" using ok4 by (simp add: sched_ok_def)
  ultimately show ?thesis using live(1) ok4 p4 by (cases "c = 0") (auto simp: c p4)
qed

text \<open>The shell is created beside the idle process.\<close>

lemma shell_ready:
  assumes sh: "createProcess code args ac MAX_PRIORITY fds gr m4 = Some (i, m')" and ok4: "sched_ok m4"
    and p4: "procs m4 = [a \<mapsto> p]" and fresh4: "procs m4 (fst (mm_alloc sizeof_pcb (k_mm m4))) = None"
    and idle: "pid p = 0" "status p = READY" "priority p = MIN_PRIORITY"
    and l4: "PL m4 = [a]" "RL m4 = [a]" "BL m4 = []" and e4: "created m4" "currentPid m4 = NO_PROCESS" "currentProcess m4 = 0"
    and two: "length (PL m') = 2" "length (RL m') = 2"
  shows "kernel_inv m' \<and> currentPid m' = NO_PROCESS \<and> currentProcess m' = 0 \<and> BL m' = [] \<and>
    (\<exists>a p b q. a \<noteq> b \<and> PL m' = [a, b] \<and> RL m' = [a, b] \<and> procs m' = [a \<mapsto> p, b \<mapsto> q] \<and>
       pid p = IDLE_PID \<and> priority p = MIN_PRIORITY \<and> status p = READY \<and>
       pid q = SHELL_PID \<and> priority q = MAX_PRIORITY \<and> status q = READY)"
proof -
  have pd4: "pd m4 a = Some 0" by (simp add: pd_apply p4 idle)
  from createProcess_grown [OF sh ok4 fresh4] two obtain b q j2 where
    q: "\<forall>x < j2. \<exists>b \<in> set (PL m4). pd m4 b = Some (int x)" "\<forall>b \<in> set (PL m4). pd m4 b \<noteq> Some (int j2)"
      "procs m' = (procs m4)(b \<mapsto> q)" "b \<notin> set (PL m4)" "pid q = int j2" "status q = READY" "priority q = MAX_PRIORITY"
      "PL m' = PL m4 @ [b]" "RL m' = RL m4 @ [b]" "BL m' = BL m4" "sched_ok m'" "created m' = created m4"
      "currentPid m' = currentPid m4" "currentProcess m' = currentProcess m4"
    by (auto simp: l4)
  have "j2 \<noteq> 0" using q(2) pd4 by (auto simp: l4)
  moreover have "\<not> 1 < j2"
  proof
    assume "1 < j2"
    then have "pd m4 a = Some 1" using q(1) by (force simp: l4)
    with pd4 show False by simp
  qed
  ultimately have j2: "j2 = 1" by simp
  have ab: "a \<noteq> b" using q(4) by (simp add: l4)
  have "idle_ok m'" using ab unfolding idle_ok_def by (simp add: q(8) l4 pd_apply st_apply q(3) p4 idle IDLE_PID_def)
  then have "kernel_inv m'" using q(11,12) e4 by (simp add: kernel_inv_def)
  moreover have "PL m' = [a, b]" "RL m' = [a, b]" "procs m' = [a \<mapsto> p, b \<mapsto> q]" "pid q = 1"
    using q(3,5,8,9) by (simp_all add: l4 p4 j2)
  ultimately show ?thesis
    using ab idle q(6,7,10,13,14) e4 by (auto simp: l4 IDLE_PID_def SHELL_PID_def)
qed

section \<open>Properties\<close>

text \<open>The services between the scheduler and the shell: their allocations succeed and no process is touched.\<close>

lemma services_up:
  fixes m1 :: "'a machine_scheme"
  assumes "room 105 (k_mm m1)"
  obtains sp m2 v m4 where "initSemaphoreManager m1 = (sp, m2)" "sp \<noteq> 0"
    "initializeKeyboardDriver (initializePipeManager m2) = Some (v, m4)" "room 72 (k_mm m4)" "sched_view m4 = sched_view m1"
    "grows (k_mm m1) (k_mm m4)"
proof -
  have r1: "room (73 + 32) (k_mm m1)" using assms by simp
  obtain sp m2 where m2: "initSemaphoreManager m1 = (sp, m2)" "sp \<noteq> 0" "room 73 (k_mm m2)" "semManager m2 = sp"
    "semaphores m2 = (\<lambda>i. if i < NUM_SEMS then clear_sem else semaphores m1 i)"
    by (rule room_initSemaphoreManager [OF r1])
  let ?m3 = "initializePipeManager m2"
  have p3: "k_mm ?m3 = k_mm m2" "sched_view ?m3 = sched_view m2" "semManager ?m3 = sp" "semaphores ?m3 = semaphores m2"
    using sched_view_pipes [of m2] m2(4) by (simp_all add: initializePipeManager_def)
  have r3: "room (72 + 1) (k_mm ?m3)" "semManager ?m3 \<noteq> 0" using m2(2,3) p3 by simp_all
  obtain v m4 where m4: "initializeKeyboardDriver ?m3 = Some (v, m4)" "room 72 (k_mm m4)" "sched_view m4 = sched_view ?m3"
    by (rule room_initializeKeyboardDriver [OF r3, of "semaphores m1"]) (use p3(4) m2(5) in simp)
  have "sched_view m4 = sched_view m1" using m4(3) p3(2) sched_view_initSem [OF m2(1)] by simp
  moreover have "grows (k_mm m1) (k_mm m4)"
    using sched_view_initSem [OF m2(1)] p3(1) sched_view_sem_create [OF m4(1) [unfolded initializeKeyboardDriver_def]] grows_trans by metis
  ultimately show ?thesis using that m2(1,2) m4(1,2) by blast
qed

text \<open>
  C1. The kernel built with the bitmap manager boots from any state of the machine's memory in which no
  process exists: \<open>main\<close> returns into the loop that waits for interrupts with the interrupt flag on and the gates
  loaded, no allocation fails on the way, and the idle process with pid 0 and the least priority and the shell with
  pid 1 and the highest are ready, in this order, in a consistent kernel in which nothing is blocked and nothing runs.
\<close>

theorem kernel_boots:
  fixes m :: "'a machine_scheme"
  assumes "k_mm m = BitmapMM s" and "procs m = Map.empty"
  shows "\<exists>m'. kernel_main h idle_rip u m = Some ((load_idt h u)\<lparr>if_flag := True\<rparr>, Waiting m') \<and> kernel_inv m' \<and>
    currentPid m' = NO_PROCESS \<and> BL m' = [] \<and>
    (\<exists>a p b q. a \<noteq> b \<and> PL m' = [a, b] \<and> RL m' = [a, b] \<and> procs m' = [a \<mapsto> p, b \<mapsto> q] \<and>
       pid p = IDLE_PID \<and> priority p = MIN_PRIORITY \<and> status p = READY \<and>
       pid q = SHELL_PID \<and> priority q = MAX_PRIORITY \<and> status q = READY)"
proof -
  obtain r mm where mm: "mm_create memoryManagerModuleAddress HEAP_SIZE (k_mm m) = (r, mm)" by force
  let ?m = "m\<lparr>k_mm := mm\<rparr>"
  have "room 181 mm" using room_create [of s] mm assms(1) by simp
  then have rm: "room (105 + 76) (k_mm ?m)" by simp
  have e: "procs ?m = Map.empty" using assms(2) by simp
  obtain m1 where m1: "createScheduler idle_rip ?m = Some m1" "scheduler m1 \<noteq> 0" "room 105 (k_mm m1)" "l_addr (processList m1) \<noteq> 0"
    "l_addr (readyProcess m1) \<noteq> 0" "length (PL m1) = 1" "length (RL m1) = 1" "processQty m1 = 1"
    by (rule room_createScheduler [OF rm e])
  obtain sp m2 v m4 where up: "initSemaphoreManager m1 = (sp, m2)" "sp \<noteq> 0"
    "initializeKeyboardDriver (initializePipeManager m2) = Some (v, m4)" "room 72 (k_mm m4)" and view: "sched_view m4 = sched_view m1"
    and grow: "grows (k_mm m1) (k_mm m4)" by (rule services_up [OF m1(3)])
  have inv: "mm_inv (k_mm ?m)" using room_inv [OF rm] .
  obtain a p where ip: "procs m1 = [a \<mapsto> p]" "pid p = 0" "status p = READY" "priority p = MIN_PRIORITY" "PL m1 = [a]" "RL m1 = [a]"
    "BL m1 = []" "sched_ok m1" "created m1" "currentPid m1 = NO_PROCESS" "currentProcess m1 = 0" "a \<in> mm_live (k_mm m1)"
    "mm_inv (k_mm m1)" by (rule idle_ready [OF m1(1,2) inv e m1(6,7)])
  note later = later_ready [OF view grow ip(1,8,12,13)]
  have v4: "PL m4 = [a]" "RL m4 = [a]" "BL m4 = []" "created m4" "currentPid m4 = NO_PROCESS" "currentProcess m4 = 0"
    "l_addr (processList m4) \<noteq> 0" "l_addr (readyProcess m4) \<noteq> 0" "processQty m4 = 1"
    using view ip(5-7,9-11) m1(4,5,8) by (simp_all add: sched_view_def PL_def RL_def BL_def)
  have qty: "processQty m4 < MAX_PROCESS" by (simp add: v4(9) MAX_PROCESS_def)
  have r4: "room (0 + 72) (k_mm m4)" "length SHELL_NAME < 64" using up(4) by (simp_all add: SHELL_NAME_def)
  obtain i m' where sh: "createProcess sampleCodeModuleAddress (Some ((\<lambda>_. None)(0 := Some SHELL_NAME))) 1 MAX_PRIORITY
         (Some [int STDIN, int STDOUT, int STDERR]) 0 m4 = Some (i, m')"
      "length (PL m') = length (PL m4) + 1" "length (RL m') = length (RL m4) + 1"
    by (rule room_createProcess [OF conjunct1 [OF later] conjunct2 [OF conjunct2 [OF later]] qty v4(7,8) r4])
  have two: "length (PL m') = 2" "length (RL m') = 2" using sh(2,3) v4 by simp_all
  have st: "start_kernel idle_rip ?m = Some (Waiting m')"
    using m1(1) up(1-3) sh(1) by (simp add: start_kernel_def)
  have "kernel_main h idle_rip u m = Some ((load_idt h u)\<lparr>if_flag := True\<rparr>, Waiting m')"
    using mm st by (simp add: kernel_main_def Let_def)
  moreover note shell_ready [OF sh(1) conjunct1 [OF later] conjunct1 [OF conjunct2 [OF later]] conjunct2 [OF conjunct2 [OF later]]
      ip(2-4) v4(1-6) two]
  ultimately show ?thesis by (intro exI [of _ m']) (simp only: simp_thms)
qed

text \<open>A machine that was just switched on: nothing is allocated and no process exists.\<close>

definition fresh_machine :: machine where
  "fresh_machine = (demo_machine [])\<lparr>k_mm := BitmapMM small_bitmap, procs := Map.empty\<rparr>"

theorem kernel_boots_witness:
  "\<exists>u m'. kernel_main demo_handlers 4096 demo_unit fresh_machine = Some (u, Waiting m') \<and> if_flag u \<and> length (RL m') = 2"
  using kernel_boots [of fresh_machine small_bitmap demo_handlers 4096 demo_unit] by (force simp: fresh_machine_def)

end
