(* ===== verification/User_IO.thy ===== *)
theory User_IO
  imports Video Memory_Management
begin

text \<open>
  \<open>Userland/SampleCodeModule/stdio.c\<close> and the side of the system calls that a user program sees (\<open>include/syscalls.h\<close>).
  A program's state is its memory, the system calls it has made, in order, and the answers the kernel is going to give
  to those that return something. Nothing is assumed of the answers: a property that needs a kernel that behaves says
  which answers it gives. \<open>None\<close> is a program that still waits for an answer, or undefined behaviour.
\<close>

unbundle bit_operations_syntax

section \<open>System calls\<close>

type_synonym arguments_vector = "byte list option list"

text \<open>The functions that processes are created on.\<close>

datatype entry = Clear | Ps | Loop | Cat | Wc | Filter_app | Test_mm | Test_processes | Test_priority | Test_sync
  | Mvar_manager | Mvar_writer | Mvar_reader

datatype syscall =
    Write int byte | Read int | Clear_screen | Set_font_size byte | Get_ticks | Set_font_color color | Get_font_color
  | Mm_alloc nat | Mm_free addr | Mm_info
  | Create_process entry arguments_vector int nat bool "int list" | Get_pid | Process_info | Kill_process int
  | Change_priority int nat | Block_process int | Set_ready_process int | Yield | Wait_process int | Exit | Sleep "32 word"
  | Sem_create int "32 word" | Sem_open int | Sem_wait int | Sem_post int | Sem_destroy int
  | Pipe_create | Pipe_read int int | Pipe_write int "byte list" | Pipe_close int

text \<open>What the kernel gives back: the register \<open>rax\<close>, and what the call fills in.\<close>

record user_process_info =
  ui_name :: "(addr \<times> byte list) option"
  ui_priority :: nat
  ui_status :: nat
  ui_pid :: int

datatype answer =
    Value "64 word"
  | Font_color color
  | Memory mem_t
  | Processes "(addr \<times> user_process_info list) option"
  | Bytes "64 word" "byte list"

record user =
  umem :: bytes
  answers :: "answer list"
  calls :: "syscall list"

definition tell :: "syscall \<Rightarrow> user \<Rightarrow> user" where
  "tell c u = u\<lparr>calls := calls u @ [c]\<rparr>"

definition ask :: "syscall \<Rightarrow> user \<Rightarrow> (answer \<times> user) option" where
  "ask c u = (case answers u of [] \<Rightarrow> None | a # as \<Rightarrow> Some (a, tell c u\<lparr>answers := as\<rparr>))"

fun the_value :: "answer \<times> user \<Rightarrow> (64 word \<times> user) option" where
  "the_value (Value w, u) = Some (w, u)"
| "the_value (a, u) = None"

definition ask_word :: "syscall \<Rightarrow> user \<Rightarrow> (64 word \<times> user) option" where
  "ask_word c u = Option.bind (ask c u) the_value"

text \<open>A call that returns an \<open>int\<close> or a \<open>pid_t\<close>.\<close>

definition ask_int :: "syscall \<Rightarrow> user \<Rightarrow> (int \<times> user) option" where
  "ask_int c u = map_option (\<lambda>(w, u'). (sint (ucast w :: 32 word), u')) (ask_word c u)"

definition ask_pid :: "syscall \<Rightarrow> user \<Rightarrow> (int \<times> user) option" where
  "ask_pid c u = map_option (\<lambda>(w, u'). (sint (ucast w :: 16 word), u')) (ask_word c u)"

fun the_color :: "answer \<times> user \<Rightarrow> (color \<times> user) option" where
  "the_color (Font_color c, u) = Some (c, u)"
| "the_color (a, u) = None"

text \<open>A string literal, and a literal in the read-only data.\<close>

definition str :: "string \<Rightarrow> byte list" where "str s = map of_char s"
definition line :: "string \<Rightarrow> byte list" where "line s = str s @ [10]"
definition lit :: "byte list \<Rightarrow> bytes" where "lit xs a = (if a < length xs then xs ! a else 0)"

section \<open>stdio.c\<close>

definition MAX_CHARS :: nat where "MAX_CHARS = 256"
definition CURSOR_FREQ :: int where "CURSOR_FREQ = 10"
definition KBDIN :: nat where "KBDIN = 3"

definition putchar :: "byte \<Rightarrow> user \<Rightarrow> user" where "putchar c u = tell (Write 1 c) u"
definition putcharErr :: "byte \<Rightarrow> user \<Rightarrow> user" where "putcharErr c u = tell (Write 2 c) u"

partial_function (option) puts :: "bytes \<Rightarrow> addr \<Rightarrow> user \<Rightarrow> user option" where
  "puts m s u = (if m s = 0 then Some u else puts m (s + 1) (putchar (m s) u))"

partial_function (option) printErr :: "bytes \<Rightarrow> addr \<Rightarrow> user \<Rightarrow> user option" where
  "printErr m s u = (if m s = 0 then Some u else printErr m (s + 1) (putcharErr (m s) u))"

text \<open>\<open>getchar\<close> turns the byte 0xFF into \<open>EOF\<close>, as an int.\<close>

definition getchar :: "user \<Rightarrow> (int \<times> user) option" where
  "getchar u = map_option (\<lambda>(w, u'). (if (ucast w :: byte) = 0xFF then - 1 else uint (ucast w :: byte), u')) (ask_word (Read 0) u)"

definition getScanCode :: "user \<Rightarrow> (byte \<times> user) option" where
  "getScanCode u = map_option (\<lambda>(w, u'). (ucast w, u')) (ask_word (Read (int KBDIN)) u)"

definition printNChars :: "byte \<Rightarrow> int \<Rightarrow> user \<Rightarrow> user" where
  "printNChars c n u = (putchar c ^^ nat n) u"

text \<open>
  \<open>vprintf\<close>. The arguments are words or strings, which the program reads where they lie; \<open>va_arg\<close> with none left or of
  the other kind is undefined. The array \<open>buffer\<close> is a memory of its own. The format is read from \<open>fm\<close>.
\<close>

datatype arg = Word "64 word" | Str bytes addr

definition print_number :: "64 word \<Rightarrow> nat \<Rightarrow> int \<Rightarrow> bytes \<Rightarrow> user \<Rightarrow> (bytes \<times> user) option" where
  "print_number w base dx buf u = do {
     (buf', len) \<leftarrow> user_itoa buf (unat w) 0 base;
     u' \<leftarrow> puts buf' 0 (printNChars 48 (dx - int len) u);
     Some (buf', u') }"

fun conversion :: "byte \<Rightarrow> int \<Rightarrow> arg list \<Rightarrow> bytes \<Rightarrow> user \<Rightarrow> (arg list \<times> bytes \<times> user) option" where
  "conversion f dx args buf u =
     (if f = 99 then
        (case args of Word w # rest \<Rightarrow> Some (rest, buf, putchar (ucast w) u) | _ \<Rightarrow> None)
      else if f = 100 \<or> f = 117 then
        (case args of Word w # rest \<Rightarrow> map_option (Pair rest) (print_number w 10 dx buf u) | _ \<Rightarrow> None)
      else if f = 120 then
        (case args of Word w # rest \<Rightarrow> map_option (Pair rest) (print_number w 16 dx buf u) | _ \<Rightarrow> None)
      else if f = 115 then
        (case args of Str m p # rest \<Rightarrow> map_option (\<lambda>u'. (rest, buf, u')) (puts m p (printNChars 32 dx u)) | _ \<Rightarrow> None)
      else Some (args, buf, putchar f u))"

text \<open>\<open>fmtPtr++\<close> after the switch: a format that ends in a percent sign is left behind its terminator.\<close>

partial_function (option) vprintf_from :: "bytes \<Rightarrow> bytes \<Rightarrow> addr \<Rightarrow> arg list \<Rightarrow> user \<Rightarrow> user option" where
  "vprintf_from buf fm fmt args u =
     (if fm fmt = 0 then Some u
      else if fm fmt = 37 then
        do { (dx, p) \<leftarrow> strtoi fm (fmt + 1);
             (args', buf', u') \<leftarrow> conversion (fm p) dx args buf u;
             vprintf_from buf' fm (p + 1) args' u' }
      else vprintf_from buf fm (fmt + 1) args (putchar (fm fmt) u))"

definition vprintf :: "bytes \<Rightarrow> addr \<Rightarrow> arg list \<Rightarrow> user \<Rightarrow> user option" where
  "vprintf fm fmt args u = vprintf_from (\<lambda>_. 0) fm fmt args u"

definition printf :: "byte list \<Rightarrow> arg list \<Rightarrow> user \<Rightarrow> user option" where
  "printf fmt args u = vprintf (lit fmt) 0 args u"

definition ask_color :: "user \<Rightarrow> (color \<times> user) option" where
  "ask_color u = Option.bind (ask Get_font_color u) the_color"

definition printfc :: "color \<Rightarrow> byte list \<Rightarrow> arg list \<Rightarrow> user \<Rightarrow> user option" where
  "printfc color fmt args u = do {
     (prevColor, u1) \<leftarrow> ask_color u;
     u2 \<leftarrow> vprintf (lit fmt) 0 args (tell (Set_font_color color) u1);
     Some (tell (Set_font_color prevColor) u2) }"

text \<open>
  The first loop of \<open>scanf\<close>: one character per turn, while the cursor blinks. \<open>ticks\<close> is an int, so the difference is
  taken modulo \<open>2 ^ 32\<close>. The array \<open>buffer\<close> lies at \<open>buf\<close> in the program's memory.
\<close>

definition blink :: "32 word \<Rightarrow> bool \<Rightarrow> user \<Rightarrow> (32 word \<times> bool \<times> user) option" where
  "blink ticks cursorDrawn u = do {
     (now, u1) \<leftarrow> ask_word Get_ticks u;
     if sint (ucast now - ticks) > CURSOR_FREQ then do {
       (now2, u2) \<leftarrow> ask_word Get_ticks u1;
       Some (ucast now2, \<not> cursorDrawn, putchar (if cursorDrawn then 8 else 95) u2) }
     else Some (ticks, cursorDrawn, u1) }"

definition scan_key :: "byte \<Rightarrow> addr \<Rightarrow> nat \<Rightarrow> bool \<Rightarrow> user \<Rightarrow> nat \<times> bool \<times> user" where
  "scan_key c buf bIdx cursorDrawn u =
     (if c = 0 then (bIdx, cursorDrawn, u)
      else let u1 = (if cursorDrawn then putchar 8 u else u) in
        if c \<noteq> 8 then (bIdx + 1, False, putchar c (u1\<lparr>umem := (umem u1)(buf + bIdx := c)\<rparr>))
        else if bIdx > 0 then (bIdx - 1, False, putchar c u1)
        else (bIdx, False, u1))"

partial_function (option) scan_line :: "addr \<Rightarrow> nat \<Rightarrow> 32 word \<Rightarrow> bool \<Rightarrow> user \<Rightarrow> (nat \<times> bool \<times> user) option" where
  "scan_line buf bIdx ticks cursorDrawn u = do {
     (i, u1) \<leftarrow> getchar u;
     let c = (word_of_int i :: byte);
     if c = 10 \<or> bIdx \<ge> MAX_CHARS - 1 then Some (bIdx, cursorDrawn, u1)
     else do {
       (ticks', drawn, u2) \<leftarrow> blink ticks cursorDrawn u1;
       let (bIdx', drawn', u3) = scan_key c buf bIdx drawn u2;
       scan_line buf bIdx' ticks' drawn' u3 } }"

text \<open>The switch of the second loop: the end of what was read (\<open>end\<close> keeps its value for an unknown letter) and the
  pointers left. A value is an int of four bytes.\<close>

definition scan_store :: "byte \<Rightarrow> addr \<Rightarrow> addr option \<Rightarrow> addr list \<Rightarrow> user \<Rightarrow> (addr option \<times> addr list \<times> user) option" where
  "scan_store f p end_ptr ptrs u =
     (if f \<in> {99, 100, 120, 115} then
        (case ptrs of
           [] \<Rightarrow> None
         | v # rest \<Rightarrow>
             if f = 99 then Some (Some (p + 1), rest, u\<lparr>umem := (umem u)(v := umem u p)\<rparr>)
             else if f = 100 then do {
               (num, e) \<leftarrow> strtoi_from (umem u) p 0;
               Some (Some e, rest, u\<lparr>umem := write32 (umem u) v num\<rparr>) }
             else if f = 120 then do {
               (num, e) \<leftarrow> strtoh_from (umem u) p 0;
               Some (Some e, rest, u\<lparr>umem := write32 (umem u) v num\<rparr>) }
             else do {
               (m, n) \<leftarrow> user_strcpychar (umem u) v p 32;
               Some (Some (p + n), rest, u\<lparr>umem := m\<rparr>) })
      else Some (end_ptr, ptrs, u))"

text \<open>The end of an unknown conversion in front of any other is uninitialised: \<open>None\<close>.\<close>

definition scan_error :: "user \<Rightarrow> user option" where
  "scan_error u = printErr (lit (str ''Error!!!'')) 0 u"

partial_function (option) scan_items ::
    "addr \<Rightarrow> bytes \<Rightarrow> addr \<Rightarrow> nat \<Rightarrow> nat \<Rightarrow> addr option \<Rightarrow> addr list \<Rightarrow> user \<Rightarrow> (nat \<times> nat \<times> user) option" where
  "scan_items buf fm fmt bIdx qty end_ptr ptrs u =
     (if bIdx < MAX_CHARS \<and> fm fmt \<noteq> 0 \<and> umem u (buf + bIdx) \<noteq> 0 then
        if fm fmt = 37 then do {
          (end_ptr', ptrs', u1) \<leftarrow> scan_store (fm (fmt + 1)) (buf + bIdx) end_ptr ptrs u;
          (case end_ptr' of
             None \<Rightarrow> None
           | Some e \<Rightarrow> scan_items buf fm (fmt + 2) (e - buf) (qty + 1) end_ptr' ptrs' u1) }
        else if fm fmt = umem u (buf + bIdx) then scan_items buf fm (fmt + 1) (bIdx + 1) qty end_ptr ptrs u
        else do { u1 \<leftarrow> scan_error u; scan_items buf fm (fmt + 1) bIdx qty end_ptr ptrs u1 }
      else Some (bIdx, qty, u))"

text \<open>The last assignment is to \<open>buffer[bIdx - 1]\<close>, the byte before the array when nothing was read.\<close>

definition scanf :: "addr \<Rightarrow> bytes \<Rightarrow> addr \<Rightarrow> addr list \<Rightarrow> user \<Rightarrow> (nat \<times> user) option" where
  "scanf buf fm fmt ptrs u = do {
     (t, u1) \<leftarrow> ask_word Get_ticks u;
     (n, drawn, u2) \<leftarrow> scan_line buf 0 (ucast t) False u1;
     let u3 = putchar 10 (if drawn then putchar 8 u2 else u2);
     (bIdx, qty, u4) \<leftarrow> scan_items buf fm fmt 0 0 None ptrs (u3\<lparr>umem := (umem u3)(buf + n := 0)\<rparr>);
     Some (qty, u4\<lparr>umem := (umem u4)(buf + bIdx - 1 := 0)\<rparr>) }"

text \<open>\<open>read_line\<close>, with the loop over the characters.\<close>

partial_function (option) read_loop :: "addr \<Rightarrow> int \<Rightarrow> int \<Rightarrow> user \<Rightarrow> (int \<times> user) option" where
  "read_loop dst maxlen len u = do {
     (c, u1) \<leftarrow> getchar u;
     if c = 0 then read_loop dst maxlen len (tell Yield u1)
     else if c = 10 then Some (len, putchar 10 u1)
     else if c = 8 then
       (if len > 0 then read_loop dst maxlen (len - 1) (putchar 8 (putchar 32 (putchar 8 u1)))
        else read_loop dst maxlen len u1)
     else if len < maxlen - 1 then
       read_loop dst maxlen (len + 1) (putchar (word_of_int c) (u1\<lparr>umem := (umem u1)(dst + nat len := word_of_int c)\<rparr>))
     else read_loop dst maxlen len u1 }"

definition read_line :: "addr \<Rightarrow> int \<Rightarrow> user \<Rightarrow> (int \<times> user) option" where
  "read_line dst maxlen u =
     (if dst = 0 \<or> maxlen \<le> 1 then Some (0, u)
      else do {
        (len, u1) \<leftarrow> read_loop dst maxlen 0 u;
        Some (len, u1\<lparr>umem := (umem u1)(dst + nat len := 0)\<rparr>) })"

definition regNames :: "string list" where
  "regNames = [''RAX'', ''RBX'', ''RCX'', ''RDX'', ''RBP'', ''RDI'', ''RSI'', ''R8'', ''R9'', ''R10'', ''R11'', ''R12'', ''R13'',
     ''R14'', ''R15'']"

text \<open>\<open>rsp\<close> is the array of the registers.\<close>

fun printRegisters_from :: "string list \<Rightarrow> nat \<Rightarrow> (nat \<Rightarrow> 64 word) \<Rightarrow> user \<Rightarrow> user option" where
  "printRegisters_from [] i rsp u = Some u"
| "printRegisters_from (r # rs) i rsp u = do {
     u' \<leftarrow> printf (line ''%s: 0x%x'') [Str (lit (str r)) 0, Word (rsp (15 - i - 1))] u;
     printRegisters_from rs (i + 1) rsp u' }"

definition printRegisters :: "(nat \<Rightarrow> 64 word) \<Rightarrow> user \<Rightarrow> user option" where
  "printRegisters rsp u = printRegisters_from regNames 0 rsp u"

declare puts.simps [code] printErr.simps [code] vprintf_from.simps [code] scan_line.simps [code] scan_items.simps [code]
  read_loop.simps [code]

section \<open>Output\<close>

definition say :: "byte list \<Rightarrow> user \<Rightarrow> user" where
  "say xs u = fold putchar xs u"

lemma say_simps [simp]:
  "say [] u = u" "say (x # xs) u = say xs (putchar x u)" "say (xs @ ys) u = say ys (say xs u)"
  by (simp_all add: say_def)

lemma tell_fields [simp]:
  "umem (tell c u) = umem u" "answers (tell c u) = answers u" "calls (tell c u) = calls u @ [c]"
  "tell c (umem_update f u) = umem_update f (tell c u)" "tell c (answers_update g u) = answers_update g (tell c u)"
  by (simp_all add: tell_def)

lemma putchar_fields [simp]:
  "umem (putchar c u) = umem u" "answers (putchar c u) = answers u" "calls (putchar c u) = calls u @ [Write 1 c]"
  by (simp_all add: putchar_def)

lemma say_fields [simp]:
  "umem (say xs u) = umem u \<and> answers (say xs u) = answers u \<and> calls (say xs u) = calls u @ map (Write 1) xs"
  by (induction xs arbitrary: u) simp_all

lemma printNChars_say: "printNChars c n u = say (replicate (nat n) c) u"
  unfolding printNChars_def
  by (induction "nat n" arbitrary: n u) (simp_all add: funpow_swap1 say_def flip: fold_append)

lemma puts_str: "is_str m s xs \<Longrightarrow> puts m s u = Some (say xs u)"
  by (induction xs arbitrary: s u) (simp_all add: puts.simps)

lemma lit_str: "0 \<notin> set xs \<Longrightarrow> is_str (lit xs) 0 xs"
  by (rule is_strI) (auto simp: lit_def)

lemma ask_word_Value [simp]:
  "answers u = Value w # as \<Longrightarrow> ask_word c u = Some (w, tell c (u\<lparr>answers := as\<rparr>))"
  by (simp add: ask_word_def ask_def)

section \<open>What printf prints\<close>

text \<open>The reference: a number is padded with zeros, a string is preceded by as many blanks as the width says, an unknown
  letter stands for itself. A format that ends in its percent sign has no value.\<close>

datatype item = Num "64 word" | Chars "byte list"

fun arg_is :: "arg \<Rightarrow> item \<Rightarrow> bool" where
  "arg_is (Word w) (Num v) = (w = v)"
| "arg_is (Str m p) (Chars xs) = is_str m p xs"
| "arg_is a b = False"

definition number :: "nat \<Rightarrow> int \<Rightarrow> 64 word \<Rightarrow> byte list" where
  "number base dx w = (let ds = digits base (unat w) in replicate (nat (dx - int (length ds))) 48 @ map digit_char ds)"

fun render_item :: "byte \<Rightarrow> int \<Rightarrow> item list \<Rightarrow> (byte list \<times> item list) option" where
  "render_item f dx args =
     (if f = 99 then (case args of Num w # rest \<Rightarrow> Some ([ucast w], rest) | _ \<Rightarrow> None)
      else if f = 100 \<or> f = 117 then (case args of Num w # rest \<Rightarrow> Some (number 10 dx w, rest) | _ \<Rightarrow> None)
      else if f = 120 then (case args of Num w # rest \<Rightarrow> Some (number 16 dx w, rest) | _ \<Rightarrow> None)
      else if f = 115 then (case args of Chars xs # rest \<Rightarrow> Some (replicate (nat dx) 32 @ xs, rest) | _ \<Rightarrow> None)
      else Some ([f], args))"

declare render_item.simps [simp del] conversion.simps [simp del]

definition width :: "byte list \<Rightarrow> int" where
  "width ds = sint (of_nat (dec_value ds) :: 32 word)"

function render :: "byte list \<Rightarrow> item list \<Rightarrow> byte list option" where
  "render [] args = Some []"
| "render (c # f) args =
     (if c = 37 then
        (case dropWhile isNumber f of
           [] \<Rightarrow> None
         | k # g \<Rightarrow> do {
             (xs, args') \<leftarrow> render_item k (width (takeWhile isNumber f)) args;
             map_option ((@) xs) (render g args') })
      else map_option ((#) c) (render f args))"
  by pat_completeness auto
termination
proof (relation "measure (length \<circ> fst)", simp_all)
  fix c :: byte and f k g
  assume "dropWhile isNumber f = k # g"
  then have "length (k # g) \<le> length f" using length_dropWhile_le [of isNumber f] by simp
  then show "length g < Suc (length f)" by simp
qed

lemma print_number_says: "2 \<le> base \<Longrightarrow> base \<le> 36 \<Longrightarrow> \<exists>m. print_number w base dx buf u = Some (m, say (number base dx w) u)"
proof -
  assume b: "2 \<le> base" "base \<le> 36"
  have "unat w < 2 ^ 64" using unsigned_less [of w] by simp
  from itoa_digits [OF b this, of buf 0] obtain m where
    m: "itoa buf (unat w) 0 base = Some (m, length (digits base (unat w)))" "is_str m 0 (map digit_char (digits base (unat w)))" by blast
  then show ?thesis
    by (simp add: print_number_def user_itoa_def printNChars_say puts_str [OF m(2)] number_def Let_def)
qed

lemma conversion_renders:
  assumes "list_all2 arg_is args items" and "render_item f dx items = Some (xs, items')"
  shows "\<exists>args' buf'. conversion f dx args buf u = Some (args', buf', say xs u) \<and> list_all2 arg_is args' items'"
proof -
  have n: "\<exists>m. print_number w b dx buf u = Some (m, say (number b dx w) u)" if "b \<in> {10, 16}" for w b
    using print_number_says [of b w dx buf u] that by auto
  show ?thesis
  proof (cases items)
    case Nil
    then show ?thesis using assms by (auto simp: render_item.simps conversion.simps split: if_splits)
  next
    case (Cons i rest)
    then obtain a as where a: "args = a # as" "arg_is a i" "list_all2 arg_is as rest" using assms(1) by (cases args) auto
    show ?thesis
      using assms(2) a Cons n [of 10] n [of 16]
      by (cases i; cases a) (auto simp: render_item.simps conversion.simps printNChars_say puts_str split: if_splits)
  qed
qed

lemma vprintf_renders:
  "is_str fm fmt f \<Longrightarrow> list_all2 arg_is args items \<Longrightarrow> render f items = Some out \<Longrightarrow>
   vprintf_from buf fm fmt args u = Some (say out u)"
proof (induction f items arbitrary: fmt args out buf u rule: render.induct)
  case (1 items)
  then show ?case by (simp add: vprintf_from.simps)
next
  case (2 c f items)
  show ?case
  proof (cases "c = 37")
    case False
    with 2(5) obtain out' where o: "render f items = Some out'" "out = c # out'" by auto
    from 2(2) [OF False _ 2(4) o(1), of "fmt + 1"] 2(3) have "vprintf_from buf fm (fmt + 1) args (putchar c u) = Some (say out' (putchar c u))" by simp
    with 2(3) False o(2) show ?thesis by (subst vprintf_from.simps) simp
  next
    case True
    let ?ds = "takeWhile isNumber f"
    from 2(5) True obtain k g xs items' out' where g: "dropWhile isNumber f = k # g"
      "render_item k (width ?ds) items = Some (xs, items')" "render g items' = Some out'" "out = xs @ out'"
      by (auto split: list.splits simp: bind_eq_Some_conv)
    have f: "f = ?ds @ k # g" using g(1) takeWhile_dropWhile_id [of isNumber f] by simp
    have s: "is_str fm (fmt + 1) (?ds @ k # g)" using 2(3) f by simp
    have k: "fm (fmt + 1 + length ?ds) = k" "is_str fm (fmt + 1 + length ?ds + 1) g"
      using is_str_append [OF s] by simp_all
    have "\<not> isNumber k" using g(1) by (metis hd_dropWhile list.discI list.sel(1))
    then have e: "strtoi fm (fmt + 1) = Some (width ?ds, fmt + 1 + length ?ds)"
      using strtoi_from_digits [OF s, of 0] set_takeWhileD [of _ isNumber f]
        foldl_of_nat [of 0 ?ds, where 'a = 32]
      by (auto simp: strtoi_def width_def number_end_def dec_value_def)
    obtain args' buf' where c: "conversion k (width ?ds) args buf u = Some (args', buf', say xs u)" "list_all2 arg_is args' items'"
      using conversion_renders [OF 2(4) g(2)] by metis
    have "vprintf_from buf' fm (fmt + 1 + length ?ds + 1) args' (say xs u) = Some (say out' (say xs u))"
      by (rule 2(1) [OF True g(1) g(2) _ k(2) c(2) g(3)]) simp
    with 2(3) True e k(1) c(1) g(4) show ?thesis by (subst vprintf_from.simps) simp
  qed
qed

text \<open>A format without conversions is printed as it is.\<close>

lemma render_plain: "37 \<notin> set f \<Longrightarrow> render f items = Some f"
  by (induction f) auto

lemma render_append: "37 \<notin> set f \<Longrightarrow> render (f @ g) items = map_option ((@) f) (render g items)"
  by (induction f) (cases "render g items"; simp)+

lemma printf_renders:
  "0 \<notin> set fmt \<Longrightarrow> list_all2 arg_is args items \<Longrightarrow> render fmt items = Some out \<Longrightarrow> printf fmt args u = Some (say out u)"
  using vprintf_renders [OF lit_str] by (simp add: printf_def vprintf_def)

lemma printf_plain: "0 \<notin> set fmt \<Longrightarrow> 37 \<notin> set fmt \<Longrightarrow> printf fmt [] u = Some (say fmt u)"
  using printf_renders [of fmt "[]" "[]" fmt u] by (simp add: render_plain)

section \<open>Reading a line\<close>

text \<open>The reference editor: a backspace takes the last character back, zeros are skipped, what does not fit is dropped.\<close>

definition edit_key :: "nat \<Rightarrow> byte \<Rightarrow> byte list \<Rightarrow> byte list" where
  "edit_key n c xs =
     (if c = 0 then xs else if c = 8 then butlast xs else if length xs < n - 1 then xs @ [c] else xs)"

text \<open>The text a terminal shows: what is written to \<open>STDOUT\<close>, a backspace removing the last character.\<close>

definition show_key :: "byte \<Rightarrow> byte list \<Rightarrow> byte list" where
  "show_key c xs = (if c = 8 then butlast xs else xs @ [c])"

fun shown :: "syscall list \<Rightarrow> byte list \<Rightarrow> byte list" where
  "shown [] xs = xs"
| "shown (Write fd c # cs) xs = shown cs (if fd = 1 then show_key c xs else xs)"
| "shown (c # cs) xs = shown cs xs"

lemma shown_append [simp]: "shown (as @ bs) xs = shown bs (shown as xs)"
  by (induction as xs rule: shown.induct) simp_all

lemma edit_length: "length xs < n \<Longrightarrow> length (edit_key n c xs) < n"
  by (auto simp: edit_key_def)

lemma getchar_Value:
  "answers u = Value w # as \<Longrightarrow> getchar u =
     Some (if (ucast w :: byte) = 0xFF then - 1 else uint (ucast w :: byte), tell (Read 0) (u\<lparr>answers := as\<rparr>))"
  by (simp add: getchar_def)

text \<open>What is known of the loop's state: the text so far lies at \<open>dst\<close>, it is what the screen shows behind what was
  there before, and nothing else was written.\<close>

definition line_at :: "addr \<Rightarrow> nat \<Rightarrow> bytes \<Rightarrow> user \<Rightarrow> byte list \<Rightarrow> bool" where
  "line_at dst n m u xs = (length xs < n \<and> (\<forall>i < length xs. umem u (dst + i) = xs ! i) \<and>
     (\<forall>a. a < dst \<or> dst + n \<le> a \<longrightarrow> umem u a = m a))"

lemma line_at_cong: "umem u' = umem u \<Longrightarrow> line_at dst n m u' xs = line_at dst n m u xs"
  by (simp add: line_at_def)

lemma read_loop_edits:
  assumes "answers u = map Value ws @ Value w # rest" and "ucast w = (10 :: byte)" and "\<forall>v \<in> set ws. ucast v \<noteq> (10 :: byte)"
    and "1 < n" and "line_at dst n m u xs"
  shows "\<exists>u' cs. read_loop dst (int n) (int (length xs)) u =
      Some (int (length (fold (edit_key n) (map ucast ws) xs)), u') \<and> answers u' = rest \<and>
      line_at dst n m u' (fold (edit_key n) (map ucast ws) xs) \<and> calls u' = calls u @ cs \<and>
      shown cs xs = fold (edit_key n) (map ucast ws) xs @ [10]"
  using assms
proof (induction ws arbitrary: u xs)
  case Nil
  then show ?case by (subst read_loop.simps) (simp add: getchar_Value line_at_def show_key_def)
next
  case (Cons v ws)
  define c where "c = (ucast v :: byte)"
  define i where "i = (if c = 0xFF then - 1 else uint c)"
  let ?u = "tell (Read 0) (u\<lparr>answers := map Value ws @ Value w # rest\<rparr>)"
  have g: "getchar u = Some (i, ?u)" using Cons(2) by (simp add: getchar_Value c_def i_def)
  have ws: "\<forall>v \<in> set ws. ucast v \<noteq> (10 :: byte)" "c \<noteq> 10" using Cons(4) by (simp_all add: c_def)
  have ib: "word_of_int i = c" by (simp add: i_def)
  have i0: "i = 0 \<longleftrightarrow> c = 0" "i = 10 \<longleftrightarrow> c = 10" "i = 8 \<longleftrightarrow> c = 8"
    using ib by (auto simp: i_def unsigned_eq_0_iff uint_word_ariths(1) word_uint_eqI)
  consider (none) "c = 0" | (erase) "c = 8" "xs \<noteq> []" | (front) "c = 8" "xs = []"
    | (room) "c \<noteq> 0" "c \<noteq> 8" "length xs < n - 1" | (full) "c \<noteq> 0" "c \<noteq> 8" "\<not> length xs < n - 1" by blast
  then obtain ys u2 cs where s: "read_loop dst (int n) (int (length xs)) u = read_loop dst (int n) (int (length ys)) u2"
    "line_at dst n m u2 ys" "answers u2 = map Value ws @ Value w # rest" "calls u2 = calls u @ cs" "shown cs xs = ys"
    "ys = edit_key n c xs"
  proof cases
    case none
    have "read_loop dst (int n) (int (length xs)) u = read_loop dst (int n) (int (length xs)) (tell Yield ?u)"
      using g i0 none by (subst read_loop.simps) simp
    moreover have "line_at dst n m (tell Yield ?u) xs" using Cons(6) by (simp add: line_at_def)
    ultimately show ?thesis by (rule that [where cs = "[Read 0, Yield]"]) (simp_all add: edit_key_def none)
  next
    case erase
    let ?u2 = "putchar 8 (putchar 32 (putchar 8 ?u))"
    define ys where "ys = butlast xs"
    have l: "int (length xs) - 1 = int (length ys)" "0 < length xs" using erase(2) by (cases xs rule: rev_cases; simp add: ys_def)+
    have "read_loop dst (int n) (int (length xs)) u = read_loop dst (int n) (int (length ys)) ?u2"
      using g i0 erase(1) l by (subst read_loop.simps) simp
    moreover have "line_at dst n m ?u2 ys" using Cons(6) by (auto simp: line_at_def nth_butlast ys_def)
    ultimately show ?thesis
      by (rule that [where cs = "[Read 0, Write 1 8, Write 1 32, Write 1 8]"])
        (simp_all add: edit_key_def show_key_def erase(1) ys_def)
  next
    case front
    have "read_loop dst (int n) (int (length xs)) u = read_loop dst (int n) (int (length xs)) ?u"
      using g i0 front by (subst read_loop.simps) simp
    moreover have "line_at dst n m ?u xs" using Cons(6) by (simp add: line_at_def)
    ultimately show ?thesis by (rule that [where cs = "[Read 0]"]) (simp_all add: edit_key_def front)
  next
    case room
    let ?u2 = "putchar c (?u\<lparr>umem := (umem ?u)(dst + length xs := c)\<rparr>)"
    have fit: "int (length xs) < int n - 1" "int (length xs) + 1 = int (length (xs @ [c]))" using room(3) by simp_all
    have "read_loop dst (int n) (int (length xs)) u = read_loop dst (int n) (int (length (xs @ [c]))) ?u2"
      using g i0 ib ws(2) room(1,2) fit by (subst read_loop.simps) (simp add: add.commute)
    moreover have "line_at dst n m ?u2 (xs @ [c])"
      using Cons(6) room(3) by (auto simp: line_at_def nth_append less_Suc_eq)
    ultimately show ?thesis
      by (rule that [where cs = "[Read 0, Write 1 c]"]) (use room in \<open>simp_all add: edit_key_def show_key_def\<close>)
  next
    case full
    have fit: "\<not> int (length xs) < int n - 1" using full(3) Cons(5) by linarith
    have "read_loop dst (int n) (int (length xs)) u = read_loop dst (int n) (int (length xs)) ?u"
      using g i0 ws(2) full(1,2) fit by (subst read_loop.simps) simp
    moreover have "line_at dst n m ?u xs" using Cons(6) by (simp add: line_at_def)
    ultimately show ?thesis by (rule that [where cs = "[Read 0]"]) (use full in \<open>simp_all add: edit_key_def\<close>)
  qed
  from Cons(1) [OF s(3) Cons(3) ws(1) Cons(5) s(2)] s(1,4,5,6) show ?case
    by (auto simp: c_def [symmetric])
qed

lemma read_line_text:
  assumes "answers u = map Value ws @ Value w # rest" and "ucast w = (10 :: byte)" and "\<forall>v \<in> set ws. ucast v \<noteq> (10 :: byte)"
    and "dst \<noteq> 0" and "1 < n"
  defines "xs \<equiv> fold (edit_key n) (map ucast ws) []"
  shows "\<exists>u' cs. read_line dst (int n) u = Some (int (length xs), u') \<and> answers u' = rest \<and>
    length xs < n \<and> (\<forall>i < length xs. umem u' (dst + i) = xs ! i) \<and> umem u' (dst + length xs) = 0 \<and>
    (\<forall>a. a < dst \<or> dst + n \<le> a \<longrightarrow> umem u' a = umem u a) \<and>
    calls u' = calls u @ cs \<and> shown cs [] = xs @ [10]"
proof -
  have "line_at dst n (umem u) u []" using assms(5) by (simp add: line_at_def)
  from read_loop_edits [OF assms(1-3,5) this] obtain u' cs where r: "read_loop dst (int n) 0 u = Some (int (length xs), u')"
    "answers u' = rest" "line_at dst n (umem u) u' xs" "calls u' = calls u @ cs" "shown cs [] = xs @ [10]"
    by (auto simp: xs_def)
  show ?thesis
    by (rule exI [of _ "u'\<lparr>umem := (umem u')(dst + length xs := 0)\<rparr>"], rule exI [of _ cs])
      (use r assms(4,5) in \<open>auto simp: read_line_def line_at_def\<close>)
qed

section \<open>Properties\<close>

text \<open>
  C21. \<open>printf\<close> is the reference \<open>render\<close>: for a format without a terminator inside and arguments of
  the kinds it names, it ends and writes to \<open>STDOUT\<close> exactly the rendered text, every number in its base padded with
  zeros to the width and every string behind the blanks.
\<close>

theorem printf_is_render:
  assumes "0 \<notin> set fmt" and "list_all2 arg_is args items" and "render fmt items = Some out"
  shows "printf fmt args u = Some (say out u)"
  using assms by (rule printf_renders)

definition demo_user :: "answer list \<Rightarrow> user" where
  "demo_user as = \<lparr>umem = (\<lambda>_. 7), answers = as, calls = []\<rparr>"

theorem printf_is_render_witness:
  "printf (str ''%4d %s'') [Word 57, Str (lit (str ''ok'')) 0] (demo_user []) = Some (say (str ''0057 ok'') (demo_user []))"
proof -
  have "list_all2 arg_is [Word 57, Str (lit (str ''ok'')) 0] [Num 57, Chars (str ''ok'')]"
    by (simp add: lit_def str_def)
  moreover have d: "digits 10 (unat (57 :: 64 word)) = [5, 7]" by (simp add: digits.simps)
  have pad: "replicate (nat (4 - int (length [5, 7 :: nat]))) (48 :: byte) = [48, 48]" by (simp add: numeral_2_eq_2)
  have "number 10 4 57 = str ''0057''" unfolding number_def d Let_def pad by (simp add: digit_char_def str_def)
  then have "render (str ''%4d %s'') [Num 57, Chars (str ''ok'')] = Some (str ''0057 ok'')"
    by (simp add: str_def width_def dec_value_def digit_val_def isNumber_def render_item.simps)
  ultimately show ?thesis by (rule printf_is_render [rotated]) (simp add: str_def)
qed

text \<open>
  C22. Whatever is typed, once a newline comes \<open>read_line\<close> returns the edited line: the buffer holds the
  text of the reference editor with a terminator behind it, the result is its length, no byte outside the
  \<open>maxlen\<close> bytes of the buffer is written, and the terminal shows just that text and the newline.
\<close>

theorem read_line_edits:
  assumes "answers u = map Value ws @ Value w # rest" and "ucast w = (10 :: byte)" and "\<forall>v \<in> set ws. ucast v \<noteq> (10 :: byte)"
    and "dst \<noteq> 0" and "1 < n"
  defines "xs \<equiv> fold (edit_key n) (map ucast ws) []"
  shows "\<exists>u' cs. read_line dst (int n) u = Some (int (length xs), u') \<and> answers u' = rest \<and>
    length xs < n \<and> (\<forall>i < length xs. umem u' (dst + i) = xs ! i) \<and> umem u' (dst + length xs) = 0 \<and>
    (\<forall>a. a < dst \<or> dst + n \<le> a \<longrightarrow> umem u' a = umem u a) \<and>
    calls u' = calls u @ cs \<and> shown cs [] = xs @ [10]"
  unfolding xs_def by (rule read_line_text [OF assms(1-5)])

theorem read_line_edits_witness:
  "\<exists>u'. read_line 64 4 (demo_user (map Value [108, 112, 8, 115, 0, 97, 98, 10])) = Some (3, u') \<and>
    map (umem u') [63, 64, 65, 66, 67, 68] = [7, 108, 115, 97, 0, 7]"
proof -
  have e: "fold (edit_key 4) (map ucast [108, 112, 8, 115, 0, 97, 98 :: 64 word]) [] = [108, 115, 97]" by (simp add: edit_key_def)
  have w: "answers (demo_user (map Value [108, 112, 8, 115, 0, 97, 98, 10])) = map Value [108, 112, 8, 115, 0, 97, 98] @ Value 10 # []"
    by (simp add: demo_user_def)
  obtain u' where u': "read_line 64 4 (demo_user (map Value [108, 112, 8, 115, 0, 97, 98, 10])) = Some (3, u')"
    "\<forall>i < 3. umem u' (64 + i) = [108, 115, 97] ! i" "umem u' 67 = 0" "\<forall>a. a < 64 \<or> 68 \<le> a \<longrightarrow> umem u' a = 7"
    using read_line_edits [OF w, of 64 4] unfolding e by (auto simp: demo_user_def)
  have "umem u' 64 = 108" "umem u' 65 = 115" "umem u' 66 = 97" "umem u' 63 = 7" "umem u' 68 = 7"
    using u'(2) [rule_format, of 0] u'(2) [rule_format, of 1] u'(2) [rule_format, of 2] u'(4) by simp_all
  with u'(1,3) show ?thesis by auto
qed

end
