(* ===== verification/Apps.thy ===== *)
theory Apps
  imports User_IO
begin

text \<open>
  \<open>Userland/SampleCodeModule/processFunctions.c\<close>: the commands that run as processes. \<open>handle_...\<close> creates the process
  and is run by the shell; the function of the same name is what the process runs. The argument vector is an array of
  pointers into the program's memory. \<open>sys_exit\<close> does not return, so a body ends with it.
\<close>

section \<open>Creating a process\<close>

type_synonym argv = "nat \<Rightarrow> addr"

text \<open>The strings the kernel copies out of the caller's memory.\<close>

definition string_at :: "bytes \<Rightarrow> addr \<Rightarrow> byte list option" where
  "string_at m p = map_option (\<lambda>n. map (\<lambda>i. m (p + i)) [0..<n]) (my_strlen_from m p 0)"

definition arg_vector :: "bytes \<Rightarrow> argv \<Rightarrow> int \<Rightarrow> arguments_vector option" where
  "arg_vector m av n = those (map (\<lambda>i. if av i = 0 then Some None else map_option Some (string_at m (av i))) [0..<nat n])"

text \<open>The call of \<open>sys_createProcess\<close> that the handlers share, with the pid they return.\<close>

definition create :: "entry \<Rightarrow> argv \<Rightarrow> int \<Rightarrow> nat \<Rightarrow> bool \<Rightarrow> int \<Rightarrow> int \<Rightarrow> user \<Rightarrow> (int \<times> user) option" where
  "create f av argc prio ground stdin stdout u = do {
     args \<leftarrow> arg_vector (umem u) av argc;
     (pid, u1) \<leftarrow> ask_pid (Create_process f args argc prio (\<not> ground) [stdin, stdout, 2]) u;
     Some (if ground then pid else 0, u1) }"

definition argc_or_1 :: "int \<Rightarrow> int" where
  "argc_or_1 argc = (if argc > 0 then argc else 1)"

definition handle_clear :: "argv \<Rightarrow> int \<Rightarrow> bool \<Rightarrow> int \<Rightarrow> int \<Rightarrow> user \<Rightarrow> (int \<times> user) option" where
  "handle_clear av argc ground stdin stdout u = create Clear av (argc_or_1 argc) 1 ground stdin stdout u"

definition handle_ps :: "argv \<Rightarrow> int \<Rightarrow> bool \<Rightarrow> int \<Rightarrow> int \<Rightarrow> user \<Rightarrow> (int \<times> user) option" where
  "handle_ps av argc ground stdin stdout u = create Ps av (argc_or_1 argc) 1 ground stdin stdout u"

definition handle_loop :: "argv \<Rightarrow> int \<Rightarrow> bool \<Rightarrow> int \<Rightarrow> int \<Rightarrow> user \<Rightarrow> (int \<times> user) option" where
  "handle_loop av argc ground stdin stdout u = create Loop av (argc_or_1 argc) 1 ground stdin stdout u"

definition handle_cat :: "argv \<Rightarrow> int \<Rightarrow> bool \<Rightarrow> int \<Rightarrow> int \<Rightarrow> user \<Rightarrow> (int \<times> user) option" where
  "handle_cat av argc ground stdin stdout u = create Cat av (argc_or_1 argc) 1 ground stdin stdout u"

definition handle_wc :: "argv \<Rightarrow> int \<Rightarrow> bool \<Rightarrow> int \<Rightarrow> int \<Rightarrow> user \<Rightarrow> (int \<times> user) option" where
  "handle_wc av argc ground stdin stdout u = create Wc av (argc_or_1 argc) 1 ground stdin stdout u"

definition handle_filter :: "argv \<Rightarrow> int \<Rightarrow> bool \<Rightarrow> int \<Rightarrow> int \<Rightarrow> user \<Rightarrow> (int \<times> user) option" where
  "handle_filter av argc ground stdin stdout u = create Filter_app av (argc_or_1 argc) 1 ground stdin stdout u"

text \<open>The tests want their arguments; \<open>usage\<close> prints how they are called and returns -1.\<close>

definition usage :: "byte list \<Rightarrow> user \<Rightarrow> (int \<times> user) option" where
  "usage msg u = map_option (Pair (- 1)) (printf msg [] u)"

definition handle_test_mm :: "argv \<Rightarrow> int \<Rightarrow> bool \<Rightarrow> int \<Rightarrow> int \<Rightarrow> user \<Rightarrow> (int \<times> user) option" where
  "handle_test_mm av argc ground stdin stdout u =
     (if argc < 2 \<or> av 1 = 0 then usage (line ''Uso: testmem <max_memory>'') u
      else create Test_mm av argc 1 ground stdin stdout u)"

definition handle_test_processes :: "argv \<Rightarrow> int \<Rightarrow> bool \<Rightarrow> int \<Rightarrow> int \<Rightarrow> user \<Rightarrow> (int \<times> user) option" where
  "handle_test_processes av argc ground stdin stdout u =
     (if argc < 2 \<or> av 1 = 0 then usage (line ''Uso: testproc <max_processes>'') u
      else create Test_processes av (argc_or_1 argc) 1 ground stdin stdout u)"

definition handle_test_priority :: "argv \<Rightarrow> int \<Rightarrow> bool \<Rightarrow> int \<Rightarrow> int \<Rightarrow> user \<Rightarrow> (int \<times> user) option" where
  "handle_test_priority av argc ground stdin stdout u =
     (if argc < 2 \<or> av 1 = 0 then usage (line ''Uso: testprio <max_value>'') u
      else create Test_priority av argc 1 ground stdin stdout u)"

definition handle_test_sync :: "argv \<Rightarrow> int \<Rightarrow> bool \<Rightarrow> int \<Rightarrow> int \<Rightarrow> user \<Rightarrow> (int \<times> user) option" where
  "handle_test_sync av argc ground stdin stdout u =
     (if argc < 3 then usage (line ''Uso: testsync <iteraciones> <usar_sem>'') u
      else create Test_sync av argc 1 ground stdin stdout u)"

section \<open>What the processes run\<close>

definition clear :: "user \<Rightarrow> user" where
  "clear u = tell Exit (tell Clear_screen u)"

text \<open>An int passed where the format reads 64 bits: its four bytes, extended with zeros.\<close>

definition int_arg :: "int \<Rightarrow> arg" where
  "int_arg i = Word (ucast (word_of_int i :: 32 word))"

text \<open>The listing of \<open>ps\<close>, with the names freed as they were printed.\<close>

definition ps_line :: "byte list" where
  "ps_line = line ''PID:%d  NAME:%s  STATUS:%d  PRIO:%d''"

fun ps_lines :: "user_process_info list \<Rightarrow> user \<Rightarrow> user option" where
  "ps_lines [] u = Some u"
| "ps_lines (p # ps) u = do {
     u1 \<leftarrow> printf ps_line [int_arg (ui_pid p),
       Str (lit (case ui_name p of None \<Rightarrow> str ''(null)'' | Some (a, s) \<Rightarrow> s)) 0,
       int_arg (int (ui_status p)), int_arg (int (ui_priority p))] u;
     ps_lines ps (case ui_name p of None \<Rightarrow> u1 | Some (a, s) \<Rightarrow> tell (Mm_free a) u1) }"

fun ps_show :: "answer \<times> user \<Rightarrow> user option" where
  "ps_show (Processes None, u) = Some (tell Exit u)"
| "ps_show (Processes (Some (a, l)), u) = map_option (tell Exit \<circ> tell (Mm_free a)) (ps_lines l u)"
| "ps_show (a, u) = None"

definition ps_app :: "user \<Rightarrow> user option" where
  "ps_app u = Option.bind (ask Process_info u) ps_show"

text \<open>\<open>loop\<close> does not end: n of its rounds.\<close>

definition loop_interval :: "bytes \<Rightarrow> int \<Rightarrow> argv \<Rightarrow> (32 word) option" where
  "loop_interval m argc av =
     (if argc > 1 then map_option (\<lambda>v. if v > 0 then v else 1) (str_to_uint32 m (av 1)) else Some 1)"

fun loop_rounds :: "nat \<Rightarrow> 64 word \<Rightarrow> 32 word \<Rightarrow> user \<Rightarrow> user option" where
  "loop_rounds 0 mypid interval u = Some u"
| "loop_rounds (Suc n) mypid interval u = do {
     u1 \<leftarrow> printf (line ''[loop] Hola! soy PID=%d'') [Word (ucast (ucast mypid :: 32 word))] u;
     loop_rounds n mypid interval (tell (Sleep interval) u1) }"

definition loop_app :: "nat \<Rightarrow> int \<Rightarrow> argv \<Rightarrow> user \<Rightarrow> user option" where
  "loop_app n argc av u = do {
     interval \<leftarrow> loop_interval (umem u) argc av;
     (mypid, u1) \<leftarrow> ask_word Get_pid u;
     loop_rounds n mypid interval u1 }"

text \<open>The loops of \<open>cat\<close>, \<open>wc\<close> and \<open>filter\<close>: characters up to \<open>EOF\<close>.\<close>

partial_function (option) cat_loop :: "user \<Rightarrow> user option" where
  "cat_loop u = do {
     (c, u1) \<leftarrow> getchar u;
     if c = - 1 then Some u1
     else cat_loop (if c \<noteq> 0 then putchar (word_of_int c) u1 else u1) }"

definition cat :: "user \<Rightarrow> user option" where
  "cat u = map_option (tell Exit) (cat_loop u)"

partial_function (option) wc_loop :: "32 word \<Rightarrow> user \<Rightarrow> (32 word \<times> user) option" where
  "wc_loop lines u = do {
     (c, u1) \<leftarrow> getchar u;
     if c = - 1 then Some (lines, u1)
     else if c \<noteq> 0 then wc_loop (if c = 10 then lines + 1 else lines) (putchar (word_of_int c) u1)
     else wc_loop lines u1 }"

definition wc :: "user \<Rightarrow> user option" where
  "wc u = do {
     (lines, u1) \<leftarrow> wc_loop 1 u;
     u2 \<leftarrow> printf (line ''La cantidad de lineas es: %d'') [Word (ucast lines)] u1;
     Some (tell Exit ((tell Yield ^^ 100) u2)) }"

definition is_vowel :: "byte \<Rightarrow> bool" where
  "is_vowel c = (c \<in> set (str ''aeiouAEIOU''))"

partial_function (option) filter_loop :: "user \<Rightarrow> user option" where
  "filter_loop u = do {
     (c, u1) \<leftarrow> getchar u;
     if c = - 1 then Some u1
     else filter_loop (if \<not> is_vowel (word_of_int c) then putchar (word_of_int c) u1 else u1) }"

definition filter_app :: "user \<Rightarrow> user option" where
  "filter_app u = map_option (tell Exit) (filter_loop u)"

text \<open>
  The runners of the tests. The tests are programs of their own (\<open>tests/\<close>): \<open>t\<close> is the test, which returns its code.
  \<open>says\<close> prints the line if the argument is there and not empty.
\<close>

type_synonym test = "int \<Rightarrow> argv \<Rightarrow> user \<Rightarrow> (64 word \<times> user) option"

definition says_arg :: "bool \<Rightarrow> byte list \<Rightarrow> addr \<Rightarrow> user \<Rightarrow> user option" where
  "says_arg given fmt p u = (if given \<and> p \<noteq> 0 \<and> umem u p \<noteq> 0 then printf fmt [Str (umem u) p] u else Some u)"

definition verdict :: "byte list \<Rightarrow> byte list \<Rightarrow> 64 word \<times> user \<Rightarrow> user option" where
  "verdict ok failed = (\<lambda>(r, u).
     map_option (tell Exit) (if r = 0 then printf ok [] u else printf failed [Word (ucast (ucast r :: 32 word))] u))"

definition run_test_mm :: "test \<Rightarrow> int \<Rightarrow> argv \<Rightarrow> user \<Rightarrow> user option" where
  "run_test_mm t argc av u = do {
     u1 \<leftarrow> printf (line ''[test_mm] Iniciando test del administrador de memoria...'') [] u;
     u2 \<leftarrow> says_arg (argc > 0) (line ''Tamanio maximo de prueba: %s bytes'') (av 1) u1;
     r \<leftarrow> t argc av u2;
     verdict (line ''[test_mm] Finalizado exitosamente.'') (line ''[test_mm] Fallo con codigo: %d'') r }"

definition run_test_processes :: "test \<Rightarrow> int \<Rightarrow> argv \<Rightarrow> user \<Rightarrow> user option" where
  "run_test_processes t argc av u = do {
     u1 \<leftarrow> printf (line ''[test_processes] Creando, bloqueando y matando procesos dummy...'') [] u;
     r \<leftarrow> t argc av u1;
     verdict (line ''[test_processes] Completado exitosamente.'') (line ''[test_processes] Fallo con codigo: %d'') r }"

definition run_test_priority :: "test \<Rightarrow> int \<Rightarrow> argv \<Rightarrow> user \<Rightarrow> user option" where
  "run_test_priority t argc av u = do {
     u1 \<leftarrow> printf (line ''[test_priority] Iniciando prueba de scheduling por prioridad...'') [] u;
     r \<leftarrow> t argc av u1;
     verdict (line ''[test_priority] Test completado exitosamente.'') (line ''[test_priority] Fallo con codigo: %d'') r }"

definition run_test_sync :: "test \<Rightarrow> int \<Rightarrow> argv \<Rightarrow> user \<Rightarrow> user option" where
  "run_test_sync t argc av u = do {
     u1 \<leftarrow> printf (line ''[test_sync] Iniciando prueba de sincronizacion con semaforos...'') [] u;
     u2 \<leftarrow> says_arg (argc > 1) (line ''Iteraciones: %s'') (av 1) u1;
     u3 \<leftarrow> says_arg (argc > 2) (line ''Usar semaforos: %s'') (av 2) u2;
     r \<leftarrow> t argc av u3;
     verdict (line ''[test_sync] Test completado exitosamente.'') (line ''[test_sync] Fallo con codigo: %d'') r }"

declare cat_loop.simps [code] wc_loop.simps [code] filter_loop.simps [code]

section \<open>Programs that read to the end of their input\<close>

text \<open>The bytes a program has written to its standard output.\<close>

fun written :: "syscall list \<Rightarrow> byte list" where
  "written [] = []"
| "written (Write fd c # cs) = (if fd = 1 then c # written cs else written cs)"
| "written (c # cs) = written cs"

lemma written_append [simp]: "written (as @ bs) = written as @ written bs"
  by (induction as rule: written.induct) simp_all

lemma written_writes [simp]: "written (map (Write 1) xs) = xs" "written (map (Write 1 \<circ> f) ys) = map f ys"
  by (induction xs; induction ys; simp)+

text \<open>The input up to its end: bytes that are not 0xFF, and one that is.\<close>

definition input :: "64 word list \<Rightarrow> 64 word \<Rightarrow> bool" where
  "input ws w = ((ucast w :: byte) = 0xFF \<and> (\<forall>v \<in> set ws. (ucast v :: byte) \<noteq> 0xFF))"

text \<open>The loops differ in the characters they pass on and in what they count.\<close>

locale stream_app =
  fixes loop :: "'s \<Rightarrow> user \<Rightarrow> 'r option" and keep :: "byte \<Rightarrow> bool" and count :: "byte \<Rightarrow> 's \<Rightarrow> 's" and res :: "'s \<Rightarrow> user \<Rightarrow> 'r"
  assumes stop: "getchar u = Some (- 1, u1) \<Longrightarrow> loop s u = Some (res s u1)"
    and pass: "getchar u = Some (c, u1) \<Longrightarrow> c \<noteq> - 1 \<Longrightarrow>
      loop s u = loop (count (word_of_int c) s) (if keep (word_of_int c) then putchar (word_of_int c) u1 else u1)"
begin

lemma runs:
  assumes "answers u = map Value ws @ Value w # rest" and "input ws w"
  shows "\<exists>u'. loop s u = Some (res (fold count (map ucast ws) s) u') \<and> answers u' = rest \<and> umem u' = umem u \<and>
    written (calls u') = written (calls u) @ filter keep (map ucast ws)"
  using assms
proof (induction ws arbitrary: u s)
  case Nil
  then have "getchar u = Some (- 1, tell (Read 0) (u\<lparr>answers := rest\<rparr>))" by (simp add: getchar_Value input_def)
  then show ?case by (auto simp: stop)
next
  case (Cons v ws)
  let ?c = "ucast v :: byte" and ?u = "tell (Read 0) (u\<lparr>answers := map Value ws @ Value w # rest\<rparr>)"
  have "?c \<noteq> 0xFF" using Cons(3) by (simp add: input_def)
  then have g: "getchar u = Some (uint ?c, ?u)" using Cons(2) by (simp add: getchar_Value)
  let ?u2 = "if keep ?c then putchar ?c ?u else ?u"
  have l: "loop s u = loop (count ?c s) ?u2" using pass [OF g] uint_ge_0 [of ?c] by simp
  have a: "answers ?u2 = map Value ws @ Value w # rest" and i: "input ws w" using Cons(3) by (simp_all add: input_def)
  from Cons(1) [OF a i, of "count ?c s"] show ?case unfolding l by auto
qed

end

lemma getchar_byte: "getchar u = Some (c, u1) \<Longrightarrow> c \<noteq> - 1 \<Longrightarrow> \<exists>b :: byte. c = uint b"
  by (auto simp: getchar_def split: if_splits)

lemma uint_10: "uint (b :: byte) = 10 \<longleftrightarrow> b = 10"
  using word_uint_eq_iff [of b 10] by simp

interpretation cat_app: stream_app "\<lambda>(_ :: unit). cat_loop" "\<lambda>c. c \<noteq> 0" "\<lambda>_ s. s" "\<lambda>_ u. u"
  by unfold_locales (subst cat_loop.simps, use getchar_byte in \<open>fastforce simp: unsigned_eq_0_iff\<close>)+

interpretation filter: stream_app "\<lambda>(_ :: unit). filter_loop" "\<lambda>c. \<not> is_vowel c" "\<lambda>_ s. s" "\<lambda>_ u. u"
  by unfold_locales (subst filter_loop.simps, simp)+

interpretation wc_app: stream_app wc_loop "\<lambda>c. c \<noteq> 0" "\<lambda>c n. if c = 10 then n + 1 else n" Pair
  by unfold_locales (subst wc_loop.simps, use getchar_byte in \<open>fastforce simp: unsigned_eq_0_iff uint_10\<close>)+

section \<open>Properties\<close>

text \<open>
  Once its input ends, \<open>cat\<close> ends too: it has written every byte it read except zeros, in order, touched no
  memory, left the answers behind the end alone and exited.
\<close>

theorem cat_copies:
  assumes "answers u = map Value ws @ Value w # rest" and "input ws w"
  shows "\<exists>u'. cat u = Some u' \<and> written (calls u') = written (calls u) @ filter (\<lambda>c. c \<noteq> 0) (map ucast ws) \<and>
    umem u' = umem u \<and> answers u' = rest \<and> last (calls u') = Exit"
  using cat_app.runs [OF assms] by (auto simp: cat_def)

theorem cat_copies_witness:
  "\<exists>u'. cat (demo_user [Value 104, Value 0, Value 105, Value 255]) = Some u' \<and> written (calls u') = [104, 105]"
  using cat_copies [of "demo_user [Value 104, Value 0, Value 105, Value 255]" "[104, 0, 105]" 255 "[]"]
  by (auto simp: demo_user_def input_def)

text \<open>
  \<open>filter\<close> writes what it read without the vowels of either case, in order. Zeros are not vowels: unlike
  \<open>cat\<close> and \<open>wc\<close> it passes on the zeros that \<open>getchar\<close> returns when there is nothing to read.
\<close>

theorem filter_drops:
  assumes "answers u = map Value ws @ Value w # rest" and "input ws w"
  shows "\<exists>u'. filter_app u = Some u' \<and> written (calls u') = written (calls u) @ filter (\<lambda>c. \<not> is_vowel c) (map ucast ws) \<and>
    umem u' = umem u \<and> answers u' = rest \<and> last (calls u') = Exit"
  using filter.runs [OF assms] by (auto simp: filter_app_def)

theorem filter_drops_witness:
  "\<exists>u'. filter_app (demo_user (map Value [72, 111, 0, 108, 65, 255])) = Some u' \<and> written (calls u') = [72, 0, 108]"
  using filter_drops [of "demo_user (map Value [72, 111, 0, 108, 65, 255])" "[72, 111, 0, 108, 65]" 255 "[]"]
  by (auto simp: demo_user_def input_def is_vowel_def str_def)

lemma fold_lines:
  "fold (\<lambda>c n. if c = 10 then n + 1 else n) cs k = k + (of_nat (count_list cs (10 :: byte)) :: 32 word)"
  by (induction cs arbitrary: k) auto

text \<open>
  C39. \<open>wc\<close> writes the input without zeros and then one more than the number of its newlines, in decimal, as the
  number of lines: for a text that ends in a newline, as every line that was read does, one line too many.
\<close>

theorem wc_counts:
  assumes "answers u = map Value ws @ Value w # rest" and "input ws w"
    and "count_list (map ucast ws) (10 :: byte) + 1 < 2 ^ 32"
  shows "\<exists>u'. wc u = Some u' \<and> written (calls u') = written (calls u) @ filter (\<lambda>c. c \<noteq> 0) (map ucast ws) @
      str ''La cantidad de lineas es: '' @ map digit_char (digits 10 (count_list (map ucast ws) (10 :: byte) + 1)) @ [10] \<and>
    answers u' = rest \<and> last (calls u') = Exit"
proof -
  let ?k = "count_list (map ucast ws) (10 :: byte) + 1"
  obtain u1 where u1: "wc_loop 1 u = Some (1 + of_nat (count_list (map ucast ws) (10 :: byte)), u1)" "answers u1 = rest"
      "written (calls u1) = written (calls u) @ filter (\<lambda>c. c \<noteq> 0) (map ucast ws)"
    using wc_app.runs [OF assms(1,2), of 1] by (auto simp: fold_lines)
  have k: "unat (ucast (1 + of_nat (count_list (map ucast ws) (10 :: byte)) :: 32 word) :: 64 word) = ?k"
  proof -
    have "(1 + of_nat (count_list (map ucast ws) (10 :: byte)) :: 32 word) = of_nat ?k" by simp
    moreover have "unat (of_nat ?k :: 32 word) = ?k" using assms(3) by (simp only: unat_of_nat) simp
    moreover have "?k < 2 ^ 64" using assms(3) by simp
    ultimately show ?thesis by (simp add: unsigned_ucast_eq take_bit_nat_eq_self)
  qed
  let ?out = "str ''La cantidad de lineas es: '' @ number 10 0 (ucast (1 + of_nat (count_list (map ucast ws) (10 :: byte)) :: 32 word)) @ [10]"
  have num: "number 10 0 (ucast (1 + of_nat (count_list (map ucast ws) (10 :: byte)) :: 32 word)) = map digit_char (digits 10 ?k)"
    unfolding number_def k by simp
  have "printf (line ''La cantidad de lineas es: %d'') [Word (ucast (1 + of_nat (count_list (map ucast ws) (10 :: byte)) :: 32 word))] u1 =
      Some (say ?out u1)"
    by (rule printf_renders [where items = "[Num (ucast (1 + of_nat (count_list (map ucast ws) (10 :: byte)) :: 32 word))]"])
      (simp_all add: line_def str_def isNumber_def render_item.simps width_def dec_value_def)
  with u1(1) have w: "wc u = Some (tell Exit ((tell Yield ^^ 100) (say ?out u1)))" by (simp add: wc_def)
  have y: "answers ((tell Yield ^^ n) v) = answers v \<and> written (calls ((tell Yield ^^ n) v)) = written (calls v)" for n v
    by (induction n) simp_all
  show ?thesis unfolding w using u1(2,3) y [of 100] num by simp
qed

theorem wc_counts_witness:
  "\<exists>u'. wc (demo_user (map Value [97, 10, 255])) = Some u' \<and>
    written (calls u') = [97, 10] @ str ''La cantidad de lineas es: 2'' @ [10]"
proof -
  have d: "digits 10 2 = [2]" by (simp add: digits.simps)
  from wc_counts [of "demo_user (map Value [97, 10, 255])" "[97, 10]" 255 "[]"] show ?thesis
    by (auto simp: demo_user_def input_def d digit_char_def str_def numeral_2_eq_2 [symmetric])
qed

text \<open>
  In the background a command reports success whatever the kernel answered: each of the six
  applications returns 0 even when no process was created.
\<close>

theorem background_hides_failure:
  assumes "h \<in> {handle_clear, handle_ps, handle_loop, handle_cat, handle_wc, handle_filter}"
    and "answers u = Value (- 1) # rest" and "arg_vector (umem u) av (argc_or_1 argc) \<noteq> None"
  shows "\<exists>u'. h av argc False i out u = Some (0, u')"
  using assms by (auto simp: handle_clear_def handle_ps_def handle_loop_def handle_cat_def handle_wc_def handle_filter_def
      create_def ask_pid_def)

theorem background_hides_failure_witness:
  "\<exists>u'. handle_wc (\<lambda>_. 0) 0 False 0 1 (demo_user [Value (- 1)]) = Some (0, u')"
  using background_hides_failure [of handle_wc "demo_user [Value (- 1)]" "[]" "\<lambda>_. 0" 0 0 1]
  by (simp add: demo_user_def arg_vector_def argc_or_1_def)

end
