(* ===== verification/Builtins.thy ===== *)
theory Builtins
  imports Apps Interrupts
begin

text \<open>
  \<open>Userland/SampleCodeModule/builtinFunctions.c\<close>: the commands the shell runs itself. Their number of arguments does not
  count the name. \<open>bi_fontSize\<close> and \<open>bi_nice\<close> pass \<open>NULL\<close> to \<open>strtoi\<close>, which writes the end of the number to address 0,
  where the interrupt descriptor table is: the programs and the kernel share one address space.
\<close>

definition MIN_FONT_SIZE :: int where "MIN_FONT_SIZE = 1"
definition MAX_FONT_SIZE :: int where "MAX_FONT_SIZE = 3"

definition MANUAL :: "byte list" where
  "MANUAL =
     line ''-------------COMENTARIOS-------------'' @
     str ''Para ejecutar un proceso en segundo plano, escriba '' @ [39] @ str ''&'' @ [39] @ line '' al final del comando.'' @
     str ''Para conectar dos procesos mediante un pipe, utilice el simbolo '' @ [39] @ str ''|'' @ [39] @ str ''.'' @ [10, 10] @
     line ''-------------BUILT-INS-------------'' @
     line ''help               Muestra el listado de comandos disponibles. Uso: help'' @
     str ''font-size          Cambia el tama'' @ [195, 177] @ line ''o de la fuente. Uso: font-size <n>'' @
     line ''block              Bloquea un proceso dado su ID. Uso: block <pid>'' @
     line ''unblock            Desbloquea un proceso dado su ID. Uso: unblock <pid>'' @
     line ''kill               Mata un proceso dado su ID. Uso: kill <pid>'' @
     line ''nice               Cambia la prioridad de un proceso dado su ID y la nueva prioridad.'' @
     line ''                   Uso: nice <pid> <priority>'' @
     str ''mem                Muestra el estado de la memoria: total, ocupada y libre. Uso: mem'' @ [10, 10] @
     line ''-------------APLICACIONES DE USUARIO-------------'' @
     line ''clear              Limpia completamente la pantalla. Uso: clear'' @
     line ''ps                 Lista todos los procesos en ejecucion con sus propiedades. Uso: ps'' @
     line ''loop               Imprime su ID con un saludo cada cierta cantidad de segundos.'' @
     line ''                   Uso: loop <seconds>'' @
     line ''cat                Imprime el contenido recibido por la entrada estandar (stdin) o de un archivo.'' @
     line ''                   Uso: cat [archivo]'' @
     line ''wc                 Cuenta la cantidad de lineas recibidas por la entrada estandar. Uso: wc'' @
     line ''filter             Filtra las vocales del texto recibido por la entrada estandar. Uso: filter'' @
     line ''mvar               Simula multiples lectores y escritores sobre una variable compartida.'' @
     line ''                   Uso: mvar <iteraciones> <lectores> <escritores>'' @
     line ''                   - <iteraciones>: numero de operaciones por proceso'' @
     str ''                   - <lectores>, <escritores>: cantidad de procesos lectores/escritores a crear'' @ [10, 10] @
     line ''-------------TESTS DEL SISTEMA-------------'' @
     line ''testmem            Prueba el administrador de memoria fisica. Uso: testmem'' @
     line ''testproc           Crea, bloquea, desbloquea y mata procesos dummy aleatoriamente. Uso: testproc'' @
     line ''testprio           Crea 3 procesos que incrementan una variable desde 0 hasta un valor dado.'' @
     line ''                   Uso: testprio <tope>'' @
     line ''testsync           Prueba la sincronizacion usando semaforos. Uso: testsync <iteraciones> <usar_sem>'' @
     line ''                   - <iteraciones>: numero de incrementos/decrementos por proceso'' @
     line ''                   - <usar_sem>: 1 = con semaforos (resultado estable), 0 = sin semaforos (race condition)'' @
     [10]"

definition bi_help :: "int \<Rightarrow> argv \<Rightarrow> user \<Rightarrow> user option" where
  "bi_help ac av u =
     (if ac \<noteq> 0 then printf (line ''El comando help no requiere argumentos.'') [] u
      else printf (str ''%s'') [Str (lit MANUAL) 0] u)"

definition bi_fontSize :: "int \<Rightarrow> argv \<Rightarrow> user \<Rightarrow> user option" where
  "bi_fontSize ac av u =
     (if ac \<noteq> 1 \<or> av 0 = 0 then printf (line ''Uso: font-size <n>'') [] u
      else do {
        (v, m) \<leftarrow> user_strtoi (umem u) (av 0) 0;
        let u1 = u\<lparr>umem := m\<rparr>;
        if v < MIN_FONT_SIZE \<or> v > MAX_FONT_SIZE
        then printf (str ''Tama'' @ [195, 177] @ line ''o invalido. Rango: %d..%d'') [int_arg MIN_FONT_SIZE, int_arg MAX_FONT_SIZE] u1
        else Some (tell (Set_font_size (word_of_int v)) u1) })"

text \<open>A pid is read with \<open>atoi\<close> and cut to 16 bits.\<close>

definition pid_of :: "bytes \<Rightarrow> addr \<Rightarrow> int option" where
  "pid_of m p = map_option (\<lambda>v. sint (word_of_int v :: 16 word)) (atoi m p)"

definition bi_block :: "int \<Rightarrow> argv \<Rightarrow> user \<Rightarrow> user option" where
  "bi_block ac av u =
     (if ac < 1 \<or> av 0 = 0 then printf (line ''Uso: block <pid>'') [] u
      else do {
        p \<leftarrow> pid_of (umem u) (av 0);
        (shellPid, u1) \<leftarrow> ask_pid Get_pid u;
        if p = 0 \<or> p = 1 \<or> p = shellPid
        then printf (line ''Error: no se puede bloquear la shell ni el proceso idle.'') [] u1
        else do {
          (rc, u2) \<leftarrow> ask_int (Block_process p) u1;
          if rc = - 1 then printf (line ''Error al bloquear el proceso %d'') [int_arg p] u2
          else printf (line ''Proceso %d bloqueado correctamente'') [int_arg p] u2 } })"

definition bi_unblock :: "int \<Rightarrow> argv \<Rightarrow> user \<Rightarrow> user option" where
  "bi_unblock ac av u =
     (if ac < 1 \<or> av 0 = 0 then printf (line ''Uso: unblock <pid>'') [] u
      else do {
        p \<leftarrow> pid_of (umem u) (av 0);
        (w, u1) \<leftarrow> ask_word (Set_ready_process p) u;
        Some u1 })"

definition bi_kill :: "int \<Rightarrow> argv \<Rightarrow> user \<Rightarrow> user option" where
  "bi_kill ac av u =
     (if ac \<noteq> 1 \<or> av 0 = 0 then printf (line ''Uso: kill <pid>'') [] u
      else do {
        p \<leftarrow> pid_of (umem u) (av 0);
        if p \<le> 1 then printf (line ''PID debe ser mayor que 1'') [] u
        else do { (w, u1) \<leftarrow> ask_word (Kill_process p) u; Some u1 } })"

text \<open>\<open>MIN_PRIORITY\<close> and \<open>MAX_PRIORITY\<close> are those of \<open>include/shared.h\<close>.\<close>

definition USER_MIN_PRIORITY :: int where "USER_MIN_PRIORITY = 1"
definition USER_MAX_PRIORITY :: int where "USER_MAX_PRIORITY = 10"

definition bi_nice :: "int \<Rightarrow> argv \<Rightarrow> user \<Rightarrow> user option" where
  "bi_nice ac av u =
     (if ac < 2 \<or> av 0 = 0 \<or> av 1 = 0 then printf (line ''Uso: nice <pid> <priority>'') [] u
      else do {
        p \<leftarrow> pid_of (umem u) (av 0);
        (prio, m) \<leftarrow> user_strtoi (umem u) (av 1) 0;
        let u1 = u\<lparr>umem := m\<rparr>;
        if p = 0 \<or> p = 1 then printf (line ''No se pueden cambiar las prioridades de idle o de la shell.'') [] u1
        else if prio < USER_MIN_PRIORITY \<or> prio > USER_MAX_PRIORITY
        then printf (line ''Prioridad invalida (rango %d..%d)'') [int_arg USER_MIN_PRIORITY, int_arg USER_MAX_PRIORITY] u1
        else do {
          (out, u2) \<leftarrow> ask_int (Change_priority p (nat prio)) u1;
          if out = - 1 then printf (line ''Proceso %d no encontrado'') [int_arg p] u2 else Some u2 } })"

definition mem_report :: "mem_t \<Rightarrow> user \<Rightarrow> user option" where
  "mem_report info u = do {
     u1 \<leftarrow> printf (line ''Memoria total: %u bytes'') [Word (of_nat (info_size info))] u;
     u2 \<leftarrow> printf (line ''Usada: %u bytes'') [Word (of_nat (info_used info))] u1;
     printf (line ''Libre: %u bytes'') [Word (of_nat (info_free info))] u2 }"

fun mem_show :: "answer \<times> user \<Rightarrow> user option" where
  "mem_show (Memory info, u) = mem_report info u"
| "mem_show (a, u) = None"

definition bi_mem :: "int \<Rightarrow> user \<Rightarrow> user option" where
  "bi_mem ac u =
     (if ac \<noteq> 0 then printf (line ''Uso: mem'') [] u else Option.bind (ask Mm_info u) mem_show)"

section \<open>What a command asks for\<close>

text \<open>\<open>adds P u u'\<close>: all calls made between the two states satisfy P.\<close>

definition adds :: "(syscall \<Rightarrow> bool) \<Rightarrow> user \<Rightarrow> user \<Rightarrow> bool" where
  "adds P u u' = (\<exists>cs. calls u' = calls u @ cs \<and> (\<forall>c \<in> set cs. P c))"

lemma adds_refl: "adds P u u"
  by (simp add: adds_def)

lemma adds_trans: "adds P u v \<Longrightarrow> adds P v w \<Longrightarrow> adds P u w"
  unfolding adds_def by (metis append_assoc Un_iff set_append)

lemma adds_mem [simp]: "adds P (u\<lparr>umem := m\<rparr>) u' = adds P u u'" "adds P u (u'\<lparr>umem := m\<rparr>) = adds P u u'"
  by (simp_all add: adds_def)

lemma adds_tell: "P c \<Longrightarrow> adds P u (tell c u)"
  by (simp add: adds_def)

lemma adds_ask_word: "ask_word c u = Some (w, u') \<Longrightarrow> P c \<Longrightarrow> adds P u u'"
  by (auto simp: ask_word_def ask_def adds_def bind_eq_Some_conv split: list.splits elim!: the_value.elims)

lemma adds_ask:
  "ask_int c u = Some (i, u') \<Longrightarrow> P c \<Longrightarrow> adds P u u'" "ask_pid c u = Some (i, u') \<Longrightarrow> P c \<Longrightarrow> adds P u u'"
  by (auto simp: ask_int_def ask_pid_def dest: adds_ask_word)

text \<open>Printing only writes.\<close>

lemma adds_say: "(\<And>c. P (Write 1 c)) \<Longrightarrow> adds P u (say xs u)"
  by (auto simp: adds_def)

lemma adds_puts:
  assumes P: "\<And>c. P (Write 1 c)" and "puts m s u = Some u'"
  shows "adds P u u'"
proof (rule puts.raw_induct [where P = "\<lambda>m s u u'. adds P u u'", OF _ assms(2)])
  fix f and m :: bytes and s u u'
  assume IH: "\<And>m s u y. f m s u = Some y \<Longrightarrow> adds P u y" and e: "(if m s = 0 then Some u else f m (s + 1) (putchar (m s) u)) = Some u'"
  show "adds P u u'"
  proof (cases "m s = 0")
    case False
    then have "adds P (putchar (m s) u) u'" using e by (simp add: IH)
    then show ?thesis by (rule adds_trans [rotated]) (simp add: putchar_def adds_tell P)
  qed (use e in \<open>simp add: adds_refl\<close>)
qed

lemma adds_print_number:
  assumes P: "\<And>c. P (Write 1 c)" and "print_number w b dx buf u = Some (buf', u')"
  shows "adds P u u'"
proof -
  from assms(2) obtain n where "puts buf' 0 (printNChars 48 (dx - int n) u) = Some u'"
    by (auto simp: print_number_def bind_eq_Some_conv)
  from adds_puts [where P = P, OF P this] show ?thesis by (rule adds_trans [rotated]) (simp add: printNChars_say adds_say P)
qed

lemma adds_conversion:
  assumes P: "\<And>c. P (Write 1 c)" and c: "conversion f dx args buf u = Some (args', buf', u')"
  shows "adds P u u'"
proof -
  consider x where "u' = putchar x u" | w b where "print_number w b dx buf u = Some (buf', u')"
    | m p where "puts m p (printNChars 32 dx u) = Some u'"
    using c by (auto simp: conversion.simps split: if_splits list.splits arg.splits)
  then show ?thesis
  proof cases
    case 3
    from adds_puts [where P = P, OF P this] show ?thesis by (rule adds_trans [rotated]) (simp add: printNChars_say adds_say P)
  qed (simp_all add: putchar_def adds_tell P adds_print_number [where P = P, OF P])
qed

lemma adds_vprintf:
  assumes P: "\<And>c. P (Write 1 c)" and "vprintf_from buf fm fmt args u = Some u'"
  shows "adds P u u'"
proof (rule vprintf_from.raw_induct [where P = "\<lambda>buf fm fmt args u u'. adds P u u'", OF _ assms(2)])
  fix f and fm :: bytes and buf fmt args u u'
  assume IH: "\<And>fm fmt args u v y. f fm fmt args u v = Some y \<Longrightarrow> adds P v y"
    and e: "(if fm fmt = 0 then Some u
        else if fm fmt = 37 then
          do { (dx, p) \<leftarrow> strtoi fm (fmt + 1);
               (args', buf', u') \<leftarrow> conversion (fm p) dx args buf u;
               f buf' fm (p + 1) args' u' }
        else f buf fm (fmt + 1) args (putchar (fm fmt) u)) = Some u'"
  consider "fm fmt = 0" | "fm fmt = 37" | "fm fmt \<noteq> 0" "fm fmt \<noteq> 37" by blast
  then show "adds P u u'"
  proof cases
    case 2
    with e obtain dx p args' buf' v where v: "conversion (fm p) dx args buf u = Some (args', buf', v)"
      "f buf' fm (p + 1) args' v = Some u'" by (auto simp: bind_eq_Some_conv)
    from adds_trans [OF adds_conversion [where P = P, OF P v(1)] IH [OF v(2)]] show ?thesis .
  next
    case 3
    with e have "adds P (putchar (fm fmt) u) u'" by (simp add: IH)
    then show ?thesis by (rule adds_trans [rotated]) (simp add: putchar_def adds_tell P)
  qed (use e in \<open>simp add: adds_refl\<close>)
qed

lemma adds_printf: "printf fmt args u = Some u' \<Longrightarrow> (\<And>c. P (Write 1 c)) \<Longrightarrow> adds P u u'"
  by (simp add: printf_def vprintf_def adds_vprintf)

section \<open>Properties\<close>

text \<open>What may be asked of the kernel about other processes.\<close>

definition harmless :: "int \<Rightarrow> syscall \<Rightarrow> bool" where
  "harmless shell c = (case c of
     Kill_process p \<Rightarrow> 1 < p
   | Block_process p \<Rightarrow> p \<noteq> 0 \<and> p \<noteq> 1 \<and> p \<noteq> shell
   | Change_priority p n \<Rightarrow> p \<noteq> 0 \<and> p \<noteq> 1 \<and> 1 \<le> n \<and> n \<le> 10
   | _ \<Rightarrow> True)"

lemma harmless_write: "harmless i (Write 1 c)"
  by (simp add: harmless_def)

lemma bi_kill_harmless: "bi_kill ac av u = Some u' \<Longrightarrow> adds (harmless i) u u'"
  by (auto simp: bi_kill_def bind_eq_Some_conv harmless_def split: if_splits intro: adds_printf adds_ask_word)

lemma bi_nice_harmless:
  assumes n: "bi_nice ac av u = Some u'"
  shows "adds (harmless i) u u'"
proof (cases "ac < 2 \<or> av 0 = 0 \<or> av 1 = 0")
  case True
  with n show ?thesis by (auto simp: bi_nice_def harmless_write intro: adds_printf)
next
  case False
  with n obtain p prio m where r: "pid_of (umem u) (av 0) = Some p" "user_strtoi (umem u) (av 1) 0 = Some (prio, m)"
    by (auto simp: bi_nice_def bind_eq_Some_conv)
  let ?u = "u\<lparr>umem := m\<rparr>"
  consider msg args where "printf msg args ?u = Some u'"
    | out u2 where "p \<noteq> 0" "p \<noteq> 1" "1 \<le> prio" "prio \<le> 10" "ask_int (Change_priority p (nat prio)) ?u = Some (out, u2)"
        "u' = u2 \<or> printf (line ''Proceso %d no encontrado'') [int_arg p] u2 = Some u'"
    using n False r
    by (auto simp: bi_nice_def Let_def bind_eq_Some_conv USER_MIN_PRIORITY_def USER_MAX_PRIORITY_def split: if_splits)
  then have "adds (harmless i) ?u u'"
  proof cases
    case 1
    then show ?thesis by (rule adds_printf) (rule harmless_write)
  next
    case 2
    have "harmless i (Change_priority p (nat prio))" using 2(1-4) by (auto simp: harmless_def)
    from adds_ask(1) [where P = "harmless i", OF 2(5) this] have a: "adds (harmless i) ?u u2" .
    with 2(6) harmless_write show ?thesis using adds_printf [of _ _ u2 u' "harmless i"] adds_trans [OF a] by blast
  qed
  then show ?thesis by simp
qed

lemma bi_block_harmless:
  assumes "answers u = Value w # rest" and b: "bi_block ac av u = Some u'"
  defines "s \<equiv> sint (ucast w :: 16 word)"
  shows "adds (harmless s) u u'"
proof (cases "ac < 1 \<or> av 0 = 0")
  case True
  with b show ?thesis by (auto simp: bi_block_def harmless_write intro: adds_printf)
next
  case False
  let ?u = "tell Get_pid (u\<lparr>answers := rest\<rparr>)"
  have g: "ask_pid Get_pid u = Some (s, ?u)" using assms(1) by (simp add: ask_pid_def s_def)
  have a: "adds (harmless s) u ?u" using adds_ask(2) [where P = "harmless s", OF g] by (simp add: harmless_def)
  from b False g obtain p where "pid_of (umem u) (av 0) = Some p" by (auto simp: bi_block_def bind_eq_Some_conv)
  with b False g consider msg args where "printf msg args ?u = Some u'"
    | rc u2 msg args where "p \<noteq> 0" "p \<noteq> 1" "p \<noteq> s" "ask_int (Block_process p) ?u = Some (rc, u2)" "printf msg args u2 = Some u'"
    by (auto simp: bi_block_def bind_eq_Some_conv split: if_splits)
  then have "adds (harmless s) ?u u'"
  proof cases
    case 1
    then show ?thesis by (rule adds_printf) (rule harmless_write)
  next
    case 2
    have "harmless s (Block_process p)" using 2(1-3) by (auto simp: harmless_def)
    from adds_trans [OF adds_ask(1) [where P = "harmless s", OF 2(4) this] adds_printf [where P = "harmless s", OF 2(5) harmless_write]]
    show ?thesis .
  qed
  with adds_trans [OF a] show ?thesis .
qed

text \<open>
  C36. Whatever is typed, \<open>kill\<close>, \<open>block\<close> and \<open>nice\<close> never ask the kernel to kill a process with pid 0, 1
  or below, to block the idle process or the shell (the caller, whose pid the kernel said), or to change the
  priority of these two or to one outside 1 to 10.
\<close>

theorem builtins_protect:
  assumes "answers u = Value w # rest"
  shows "(bi_kill ac av u = Some u' \<longrightarrow> adds (harmless (sint (ucast w :: 16 word))) u u') \<and>
    (bi_nice ac av u = Some u' \<longrightarrow> adds (harmless (sint (ucast w :: 16 word))) u u') \<and>
    (bi_block ac av u = Some u' \<longrightarrow> adds (harmless (sint (ucast w :: 16 word))) u u')"
  using bi_kill_harmless bi_nice_harmless bi_block_harmless [OF assms] by blast

theorem builtins_protect_witness:
  "\<exists>u'. bi_kill 1 (\<lambda>_. 100) ((demo_user [Value 0])\<lparr>umem := (\<lambda>_. 0)(100 := 53)\<rparr>) = Some u' \<and> calls u' = [Kill_process 5] \<and>
    adds (harmless 0) ((demo_user [Value 0])\<lparr>umem := (\<lambda>_. 0)(100 := 53)\<rparr>) u'"
proof -
  let ?u = "(demo_user [Value 0])\<lparr>umem := (\<lambda>_. 0)(100 := 53)\<rparr>"
  have "strtoi_from (umem ?u) 100 0 = Some (5, 101)"
    using strtoi_from_digits [of "umem ?u" 100 "[53]" "[]" 0] by (simp add: isNumber_def number_end_def digit_val_def)
  then have "bi_kill 1 (\<lambda>_. 100) ?u = Some (tell (Kill_process 5) (?u\<lparr>answers := []\<rparr>))"
    by (simp add: bi_kill_def pid_of_def atoi_def demo_user_def)
  then show ?thesis using builtins_protect [of ?u 0 "[]" 1 "\<lambda>_. 100"] by (simp add: demo_user_def)
qed

text \<open>The descriptor table is at address 0 (\<open>idtLoader.c\<close>): the gate of the division error is its first 16 bytes.\<close>

definition gate_0 :: "bytes \<Rightarrow> byte list" where
  "gate_0 m = map m [0..<16]"

lemma write_ptr_gate:
  assumes "p < 2 ^ 47"
  shows "\<not> gate_present (gate_0 (write_ptr m 0 p))"
proof -
  have q: "p div 2 ^ 32 < 2 ^ 15" using assms by (simp add: less_mult_imp_div_less)
  have bit: "n < 2 ^ 15 \<Longrightarrow> \<not> bit (word_of_nat n :: 32 word) 15" for n
    by transfer (simp add: bit_take_bit_iff bit_iff_odd)
  have "\<not> bit (word_of_nat (p div 2 ^ 32) :: 32 word) 15" using q by (rule bit)
  moreover have "write_ptr m 0 p 5 = ucast (drop_bit 8 (word_of_nat (p div 2 ^ 32) :: 32 word))"
    by (simp add: write_ptr_def write32_def)
  ultimately show ?thesis
    by (simp add: gate_present_def gate_0_def bit_ucast_iff bit_drop_bit_eq)
qed

text \<open>
  C35. \<open>font-size\<close> with 1, 2 or 3 sets that size, and destroys the first interrupt gate: the end
  pointer that \<open>strtoi\<close> stores through \<open>NULL\<close> leaves the gate of the division error marked as not present (for a line buffer
  anywhere below \<open>2 ^ 47\<close>).
\<close>

theorem fontSize_breaks_gate:
  assumes "is_str (umem u) (av 0) ds" and "\<forall>c \<in> set ds. isNumber c" and "dec_value ds \<in> {1, 2, 3}"
    and "av 0 \<noteq> 0" and "av 0 + length ds < 2 ^ 47"
  shows "\<exists>u'. bi_fontSize 1 av u = Some u' \<and> calls u' = calls u @ [Set_font_size (of_nat (dec_value ds))] \<and>
    \<not> gate_present (gate_0 (umem u'))"
proof -
  have "strtoi_from (umem u) (av 0) 0 = Some (of_nat (dec_value ds), av 0 + length ds)"
    using strtoi_from_digits [of "umem u" "av 0" ds "[]" 0] assms(1,2) foldl_of_nat [of 0 ds, where 'a = 32]
    by (simp add: number_end_def dec_value_def)
  then have s: "user_strtoi (umem u) (av 0) 0 = Some (int (dec_value ds), write_ptr (umem u) 0 (av 0 + length ds))"
    using assms(3) by (auto simp: user_strtoi_def)
  have "bi_fontSize 1 av u = Some (tell (Set_font_size (of_nat (dec_value ds))) (u\<lparr>umem := write_ptr (umem u) 0 (av 0 + length ds)\<rparr>))"
    using assms(3,4) s by (auto simp: bi_fontSize_def MIN_FONT_SIZE_def MAX_FONT_SIZE_def)
  then show ?thesis using write_ptr_gate [OF assms(5)] by simp
qed

theorem fontSize_breaks_gate_witness:
  "\<exists>u'. bi_fontSize 1 (\<lambda>_. 100) ((demo_user [])\<lparr>umem := (\<lambda>_. 142)(100 := 50, 101 := 0)\<rparr>) = Some u' \<and>
    \<not> gate_present (gate_0 (umem u'))"
  using fontSize_breaks_gate [of "(demo_user [])\<lparr>umem := (\<lambda>_. 142)(100 := 50, 101 := 0)\<rparr>" "\<lambda>_. 100" "[50]"]
  by (auto simp: isNumber_def dec_value_def digit_val_def)

end
