(* ===== verification/Mvar.thy ===== *)
theory Mvar
  imports Apps
begin

text \<open>
  \<open>Userland/SampleCodeModule/mvar.c\<close>: writers and readers of one variable, which is a pipe. The handler starts the
  manager, the manager creates the pipe and the processes, and these run until the pipe fails. \<open>getUniform\<close> of
  \<open>tests/test_util.c\<close> computes with floating point numbers and is a parameter: the number drawn and the generator after.
\<close>

type_synonym uniform = "32 word \<Rightarrow> rng \<Rightarrow> 32 word \<times> rng"

definition MVAR_SEM_PRINT :: int where "MVAR_SEM_PRINT = 93"
definition MIN_PAUSE_STEPS :: int where "MIN_PAUSE_STEPS = 1"
definition PAUSE_SPREAD_STEPS :: "32 word" where "PAUSE_SPREAD_STEPS = 4"
definition MVAR_VALUE_BYTES :: int where "MVAR_VALUE_BYTES = 1"
definition READER_PALETTE_SIZE :: int where "READER_PALETTE_SIZE = 6"

text \<open>The colours of \<open>include/color.h\<close>: red, light green, dark green, pink, magenta and silver.\<close>

definition reader_palette :: "(color \<times> byte list) list" where
  "reader_palette = [
     (\<lparr>c_b = 0, c_g = 0, c_r = 255\<rparr>, str ''red''),
     (\<lparr>c_b = 100, c_g = 255, c_r = 100\<rparr>, str ''light-green''),
     (\<lparr>c_b = 100, c_g = 150, c_r = 100\<rparr>, str ''dark-green''),
     (\<lparr>c_b = 255, c_g = 153, c_r = 184\<rparr>, str ''pink''),
     (\<lparr>c_b = 255, c_g = 0, c_r = 184\<rparr>, str ''magenta''),
     (\<lparr>c_b = 173, c_g = 169, c_r = 170\<rparr>, str ''silver'')]"

text \<open>The remainder of C, which has the sign of the dividend.\<close>

definition c_rem :: "int \<Rightarrow> int \<Rightarrow> int" where
  "c_rem a b = sgn a * (\<bar>a\<bar> mod \<bar>b\<bar>)"

definition random_pause :: "uniform \<Rightarrow> rng \<Rightarrow> user \<Rightarrow> rng \<times> user" where
  "random_pause unif g u =
     (let (d, g') = unif PAUSE_SPREAD_STEPS g in (g', (tell Yield ^^ nat (MIN_PAUSE_STEPS + sint d)) u))"

definition writer_value :: "int \<Rightarrow> byte" where
  "writer_value writer_id = word_of_int (65 + c_rem writer_id 26)"

text \<open>A negative index is outside the palette.\<close>

definition palette_at :: "int \<Rightarrow> (color \<times> byte list) option" where
  "palette_at i = (let j = c_rem i READER_PALETTE_SIZE in if j < 0 then None else Some (reader_palette ! nat j))"

definition reader_color :: "int \<Rightarrow> color option" where
  "reader_color reader_id = map_option fst (palette_at reader_id)"

fun the_bytes :: "answer \<times> user \<Rightarrow> (int \<times> byte list \<times> user) option" where
  "the_bytes (Bytes w bs, u) = Some (sint (ucast w :: 32 word), bs, u)"
| "the_bytes (a, u) = None"

definition pipe_write_all :: "int \<Rightarrow> byte list \<Rightarrow> int \<Rightarrow> user \<Rightarrow> (bool \<times> user) option" where
  "pipe_write_all pipe_id buf byte_count u =
     (if pipe_id < 0 \<or> byte_count \<le> 0 then Some (False, u)
      else do { (n, u1) \<leftarrow> ask_int (Pipe_write pipe_id buf) u; Some (n = byte_count, u1) })"

definition pipe_read_all :: "int \<Rightarrow> int \<Rightarrow> user \<Rightarrow> (bool \<times> byte list \<times> user) option" where
  "pipe_read_all pipe_id byte_count u =
     (if pipe_id < 0 \<or> byte_count \<le> 0 then Some (False, [], u)
      else do { (n, bs, u1) \<leftarrow> Option.bind (ask (Pipe_read pipe_id byte_count) u) the_bytes; Some (n = byte_count, bs, u1) })"

definition ensure_print_semaphore :: "user \<Rightarrow> (int \<times> user) option" where
  "ensure_print_semaphore u = do {
     (r, u1) \<leftarrow> ask_int (Sem_destroy MVAR_SEM_PRINT) u;
     ask_int (Sem_create MVAR_SEM_PRINT 1) u1 }"

definition spawn_message :: "byte list \<Rightarrow> int \<Rightarrow> user \<Rightarrow> user option" where
  "spawn_message role i u = printf (line ''[mvar] Error al crear %s %u.'') [Str (lit role) 0, Word (word_of_int i)] u"

definition log_spawn_error :: "byte list \<Rightarrow> int \<Rightarrow> user \<Rightarrow> user option" where
  "log_spawn_error role i u = do {
     (r, u1) \<leftarrow> ask_int (Sem_wait MVAR_SEM_PRINT) u;
     if r = 0 then do {
       u2 \<leftarrow> spawn_message role i u1;
       (r', u3) \<leftarrow> ask_int (Sem_post MVAR_SEM_PRINT) u2;
       Some u3 }
     else spawn_message role i u1 }"

text \<open>The arrays of \<open>spawn_writer\<close> and \<open>spawn_reader\<close> on the stack, and the literals they copy.\<close>

record frame =
  name_buf :: addr
  id_buf :: addr
  value_pipe_buf :: addr
  ro :: "byte list \<Rightarrow> addr"

definition out_argv :: "frame \<Rightarrow> argv" where
  "out_argv f = (\<lambda>i. if i = 0 then name_buf f else if i = 1 then id_buf f else if i = 2 then value_pipe_buf f else 0)"

definition compose_writer_args :: "int \<Rightarrow> int \<Rightarrow> frame \<Rightarrow> bytes \<Rightarrow> bytes option" where
  "compose_writer_args i value_pipe_id f m = do {
     (m1, n1) \<leftarrow> user_itoa m (unat (word_of_int i :: 64 word)) (id_buf f) 10;
     (m2, n2) \<leftarrow> user_itoa m1 (unat (word_of_int value_pipe_id :: 64 word)) (value_pipe_buf f) 10;
     (m3, n3) \<leftarrow> user_strcpy m2 (name_buf f) (ro f (str ''writer-''));
     Some (m3(name_buf f + 7 := writer_value i, name_buf f + 8 := 0)) }"

definition compose_reader_args :: "int \<Rightarrow> int \<Rightarrow> frame \<Rightarrow> bytes \<Rightarrow> bytes option" where
  "compose_reader_args i value_pipe_id f m = do {
     (c, reader_label) \<leftarrow> palette_at i;
     (m1, n1) \<leftarrow> user_itoa m (unat (word_of_int i :: 64 word)) (id_buf f) 10;
     (m2, n2) \<leftarrow> user_itoa m1 (unat (word_of_int value_pipe_id :: 64 word)) (value_pipe_buf f) 10;
     (m3, n3) \<leftarrow> user_strcpy m2 (name_buf f) (ro f (str ''reader-''));
     (m4, n4) \<leftarrow> user_strcpy m3 (name_buf f + 7) (ro f reader_label);
     Some m4 }"

text \<open>What the two share: the process is created on the composed arguments, and a failure is logged.\<close>

definition spawn :: "entry \<Rightarrow> byte list \<Rightarrow> int \<Rightarrow> frame \<Rightarrow> int list \<Rightarrow> nat \<Rightarrow> bool \<Rightarrow> user \<Rightarrow> user option" where
  "spawn e role i f descriptors prio background u = do {
     args \<leftarrow> arg_vector (umem u) (out_argv f) 3;
     (p, u1) \<leftarrow> ask_pid (Create_process e args 3 prio background descriptors) u;
     if p < 0 then log_spawn_error role i u1 else Some u1 }"

definition spawn_writer :: "frame \<Rightarrow> int \<Rightarrow> int \<Rightarrow> int list \<Rightarrow> nat \<Rightarrow> bool \<Rightarrow> user \<Rightarrow> user option" where
  "spawn_writer f i value_pipe_id descriptors prio background u = do {
     m \<leftarrow> compose_writer_args i value_pipe_id f (umem u);
     spawn Mvar_writer (str ''escritor'') i f descriptors prio background (u\<lparr>umem := m\<rparr>) }"

definition spawn_reader :: "frame \<Rightarrow> int \<Rightarrow> int \<Rightarrow> int list \<Rightarrow> nat \<Rightarrow> bool \<Rightarrow> user \<Rightarrow> user option" where
  "spawn_reader f i value_pipe_id descriptors prio background u = do {
     m \<leftarrow> compose_reader_args i value_pipe_id f (umem u);
     spawn Mvar_reader (str ''lector'') i f descriptors prio background (u\<lparr>umem := m\<rparr>) }"

fun spawn_all :: "(int \<Rightarrow> user \<Rightarrow> user option) \<Rightarrow> int list \<Rightarrow> user \<Rightarrow> user option" where
  "spawn_all s [] u = Some u"
| "spawn_all s (i # is) u = do { u1 \<leftarrow> s i u; spawn_all s is u1 }"

definition leave :: "byte list \<Rightarrow> user \<Rightarrow> user option" where
  "leave msg u = map_option (tell Exit) (printf msg [] u)"

text \<open>A count is an unsigned number read as an int.\<close>

definition count_of :: "bytes \<Rightarrow> addr \<Rightarrow> int option" where
  "count_of m p = map_option sint (str_to_uint32 m p)"

definition mvar_manager :: "frame \<Rightarrow> int \<Rightarrow> argv \<Rightarrow> user \<Rightarrow> user option" where
  "mvar_manager f ac av u =
     (if ac < 3 \<or> av 1 = 0 \<or> av 2 = 0 then leave (line ''Uso: mvar <writers> <readers>'') u
      else do {
        writer_count \<leftarrow> count_of (umem u) (av 1);
        reader_count \<leftarrow> count_of (umem u) (av 2);
        if writer_count = 0 \<or> reader_count = 0 then leave (line ''Uso: mvar <writers> <readers> (valores > 0)'') u
        else do {
          (e, u1) \<leftarrow> ensure_print_semaphore u;
          if e \<noteq> 0 then leave (line ''[mvar] Error creando semaforo de impresion.'') u1
          else do {
            (value_pipe_id, u2) \<leftarrow> ask_int Pipe_create u1;
            if value_pipe_id < 0 then leave (line ''[mvar] Error creando pipe principal.'') u2
            else do {
              u3 \<leftarrow> spawn_all (\<lambda>i. spawn_writer f i value_pipe_id [0, 1, 2] 3 True) [0..writer_count - 1] u2;
              u4 \<leftarrow> spawn_all (\<lambda>i. spawn_reader f i value_pipe_id [0, 1, 2] 3 True) [0..reader_count - 1] u3;
              Some (tell Exit u4) } } } })"

text \<open>The loops of the two processes run until the pipe or the semaphore fails.\<close>

partial_function (option) writer_loop :: "uniform \<Rightarrow> int \<Rightarrow> int \<Rightarrow> rng \<Rightarrow> user \<Rightarrow> user option" where
  "writer_loop unif writer_id value_pipe g u = (case random_pause unif g u of
     (g1, u1) \<Rightarrow> do {
       (ok, u2) \<leftarrow> pipe_write_all value_pipe [writer_value writer_id] MVAR_VALUE_BYTES u1;
       if ok then writer_loop unif writer_id value_pipe g1 u2 else Some u2 })"

definition mvar_writer :: "uniform \<Rightarrow> rng \<Rightarrow> int \<Rightarrow> argv \<Rightarrow> user \<Rightarrow> user option" where
  "mvar_writer unif g ac av u =
     (if ac < 3 \<or> av 1 = 0 \<or> av 2 = 0 then Some (tell Exit u)
      else do {
        writer_id \<leftarrow> count_of (umem u) (av 1);
        value_pipe \<leftarrow> atoi (umem u) (av 2);
        u1 \<leftarrow> writer_loop unif writer_id value_pipe g u;
        Some (tell Exit u1) })"

definition print_value :: "color \<Rightarrow> byte \<Rightarrow> user \<Rightarrow> user option" where
  "print_value reader_font c u = do {
     (previous_font, u1) \<leftarrow> ask_color u;
     let u2 = tell (Set_font_color previous_font) (putchar c (tell (Set_font_color reader_font) u1));
     (r, u3) \<leftarrow> ask_int (Sem_post MVAR_SEM_PRINT) u2;
     Some u3 }"

partial_function (option) reader_loop :: "uniform \<Rightarrow> color \<Rightarrow> int \<Rightarrow> rng \<Rightarrow> user \<Rightarrow> user option" where
  "reader_loop unif reader_font value_pipe g u = (case random_pause unif g u of
     (g1, u1) \<Rightarrow> do {
       (ok, bs, u2) \<leftarrow> pipe_read_all value_pipe MVAR_VALUE_BYTES u1;
       if \<not> ok then Some u2
       else do {
         (r, u3) \<leftarrow> ask_int (Sem_wait MVAR_SEM_PRINT) u2;
         if r \<noteq> 0 then Some u3
         else do {
           u4 \<leftarrow> print_value reader_font (hd bs) u3;
           reader_loop unif reader_font value_pipe g1 u4 } } })"

definition mvar_reader :: "uniform \<Rightarrow> rng \<Rightarrow> int \<Rightarrow> argv \<Rightarrow> user \<Rightarrow> user option" where
  "mvar_reader unif g ac av u =
     (if ac < 3 \<or> av 1 = 0 \<or> av 2 = 0 then Some (tell Exit u)
      else do {
        reader_id \<leftarrow> count_of (umem u) (av 1);
        value_pipe \<leftarrow> atoi (umem u) (av 2);
        reader_font \<leftarrow> reader_color reader_id;
        u1 \<leftarrow> reader_loop unif reader_font value_pipe g u;
        Some (tell Exit u1) })"

definition handle_mvar :: "argv \<Rightarrow> int \<Rightarrow> bool \<Rightarrow> int \<Rightarrow> int \<Rightarrow> user \<Rightarrow> (int \<times> user) option" where
  "handle_mvar av ac ground stdin stdout u =
     (if ac < 3 \<or> av 1 = 0 \<or> av 2 = 0 then usage (line ''Uso: mvar <writers> <readers>'') u
      else do {
        writer_count \<leftarrow> count_of (umem u) (av 1);
        reader_count \<leftarrow> count_of (umem u) (av 2);
        if writer_count = 0 \<or> reader_count = 0 then usage (line ''Uso: mvar <writers> <readers> (valores > 0)'') u
        else if writer_count > 26 then usage (line ''Uso: mvar <writers> <readers> (max writers = 26)'') u
        else create Mvar_manager av ac 2 ground stdin stdout u })"

declare writer_loop.simps [code] reader_loop.simps [code]

section \<open>The arguments of a process\<close>

lemma digits_length_10: "n < 10 ^ k \<Longrightarrow> 0 < k \<Longrightarrow> length (digits 10 n) \<le> k"
proof (induction k arbitrary: n)
  case (Suc k)
  show ?case
  proof (cases "n < 10")
    case True
    then show ?thesis by (subst digits.simps) simp
  next
    case False
    then have "digits 10 n = digits 10 (n div 10) @ [n mod 10]" by (subst digits.simps) simp
    moreover have "n div 10 < 10 ^ k" using Suc(2) by (simp add: less_mult_imp_div_less)
    moreover have "0 < k" using False Suc(2) by (cases k) simp_all
    ultimately show ?thesis using Suc(1) by simp
  qed
qed simp

definition decimal :: "int \<Rightarrow> byte list" where
  "decimal i = map digit_char (digits 10 (nat i))"

lemma decimal_length: "0 \<le> i \<Longrightarrow> i < 2 ^ 31 \<Longrightarrow> length (decimal i) \<le> 10"
  using digits_length_10 [of "nat i" 10] by (simp add: decimal_def)

lemma decimal_numbers: "\<forall>c \<in> set (decimal i). isNumber c"
  using digits_less [of 10 _ "nat i"] isNumber_digit_char by (fastforce simp: decimal_def)

lemma itoa_decimal:
  assumes "0 \<le> i" and "i < 2 ^ 31"
  obtains m' n where "user_itoa m (unat (word_of_int i :: 64 word)) buf 10 = Some (m', n)" "is_str m' buf (decimal i)"
    "\<And>a. a < buf \<or> buf + 12 \<le> a \<Longrightarrow> m' a = m a"
proof -
  have u: "unat (word_of_int i :: 64 word) = nat i"
    using assms by (simp add: unsigned_of_int take_bit_int_eq_self)
  have "nat i < 2 ^ 64" using assms by simp
  from itoa_digits [of 10 "nat i" m buf, OF _ _ this] obtain m' where
    m: "itoa m (nat i) buf 10 = Some (m', length (decimal i))" "is_str m' buf (decimal i)"
      "\<And>a. a < buf \<or> buf + length (decimal i) < a \<Longrightarrow> m' a = m a" by (auto simp: decimal_def)
  have "buf + length (decimal i) < a" if "buf + 12 \<le> a" for a using that decimal_length [OF assms] by simp
  with m show ?thesis by (intro that [of m' "length (decimal i)"]) (auto simp: user_itoa_def u)
qed

lemma decimal_value: "0 \<le> i \<Longrightarrow> dec_value (decimal i) = nat i"
  using dec_value_digits [of "nat i"] by (simp add: decimal_def dec_value_def)

lemma count_of_decimal:
  assumes "is_str m p (decimal i)" and "0 \<le> i" and "i < 2 ^ 31"
  shows "count_of m p = Some i" and "atoi m p = Some i"
proof -
  have "(word_of_nat (nat i) :: 32 word) = word_of_int i" using assms(2) by simp
  moreover have "sint (word_of_int i :: 32 word) = i"
    using assms(2,3) by (simp add: signed_of_int signed_take_bit_int_eq_self)
  ultimately have s: "sint (word_of_nat (nat i) :: 32 word) = i" by (simp only:)
  have e: "strtoi_from m p 0 = Some (word_of_nat (nat i), p + length (decimal i))"
    using strtoi_from_digits [of m p "decimal i" "[]" 0] assms(1,2) decimal_numbers [of i] decimal_value [of i]
      foldl_of_nat [of 0 "decimal i", where 'a = 32]
    by (simp add: number_end_def dec_value_def)
  then show "atoi m p = Some i" by (simp add: atoi_def s)
  have d: "takeWhile isNumber (decimal i) = decimal i" "dropWhile isNumber (decimal i) = []"
    using decimal_numbers [of i] by simp_all
  have b: "dropWhile blank (decimal i) = decimal i"
  proof (cases "decimal i")
    case (Cons c cs)
    then have "isNumber c" using decimal_numbers [of i] by simp
    then have "\<not> blank c" by (auto simp: isNumber_def blank_def)
    with Cons show ?thesis by simp
  qed simp
  have "decimal i \<noteq> []" by (simp add: decimal_def)
  with str_to_uint32_parses [OF assms(1)] show "count_of m p = Some i"
    by (simp add: count_of_def b d decimal_value [OF assms(2)] s)
qed

lemma strcpy_copies:
  assumes "is_str m src xs" and "dest + length xs < src \<or> src + length xs < dest"
  obtains m' n where "user_strcpy m dest src = Some (m', n)" "is_str m' dest xs" "\<And>a. a < dest \<or> dest + length xs < a \<Longrightarrow> m' a = m a"
proof -
  have t: "takeWhile (\<lambda>c. c \<noteq> 0) xs = xs" using is_strD [OF assms(1)] by (auto simp: takeWhile_eq_all_conv)
  let ?m = "\<lambda>a. if dest \<le> a \<and> a < dest + length xs then xs ! (a - dest) else if a = dest + length xs then 0 else m a"
  have "user_strcpy m dest src = Some (?m, length xs)"
    using strcpychar_from_str [OF assms(1), of 0 0 dest m] assms(2)
    by (auto simp: user_strcpy_def user_strcpychar_def strcpychar_def t cong: if_cong)
  moreover have "is_str ?m dest xs" by (rule is_strI) (use is_strD [OF assms(1)] in simp_all)
  ultimately show ?thesis by (rule that) auto
qed

lemma writer_value_letter: "writer_value i \<noteq> 0"
proof
  assume "writer_value i = 0"
  then have "(word_of_int (65 + c_rem i 26) :: byte) = 0" by (simp only: writer_value_def)
  then have "256 dvd 65 + c_rem i 26" by (simp only: word_of_int_eq_0_iff) simp
  moreover have "\<bar>c_rem i 26\<bar> < 26" by (simp add: c_rem_def abs_mult abs_sgn_eq)
  then have "0 < 65 + c_rem i 26" "65 + c_rem i 26 < 256" by linarith+
  ultimately show False using zdvd_imp_le by fastforce
qed

text \<open>Arrays of 16, 12 and 12 bytes and a literal of 8, apart from each other.\<close>

definition separate :: "(addr \<times> nat) list \<Rightarrow> bool" where
  "separate rs = (\<forall>i < length rs. \<forall>j < length rs. i \<noteq> j \<longrightarrow>
     fst (rs ! i) + snd (rs ! i) \<le> fst (rs ! j) \<or> fst (rs ! j) + snd (rs ! j) \<le> fst (rs ! i))"

lemma separateD:
  "separate rs \<Longrightarrow> i < length rs \<Longrightarrow> j < length rs \<Longrightarrow> i \<noteq> j \<Longrightarrow>
    fst (rs ! i) + snd (rs ! i) \<le> fst (rs ! j) \<or> fst (rs ! j) + snd (rs ! j) \<le> fst (rs ! i)"
  by (simp add: separate_def)

section \<open>Properties\<close>

text \<open>A write to an area apart from a string's leaves the string.\<close>

lemma is_str_apart:
  assumes "is_str m p s" and "length s < n" and "p + n \<le> q \<or> q + k \<le> p" and "\<And>a. a < q \<or> q + k \<le> a \<Longrightarrow> m' a = m a"
  shows "is_str m' p s"
proof (rule is_str_frame [OF assms(1)])
  fix a
  assume "p \<le> a" "a \<le> p + length s"
  then have "a < q \<or> q + k \<le> a" using assms(2,3) by linarith
  then show "m' a = m a" by (rule assms(4))
qed

lemma is_str_snoc:
  assumes "is_str m p s" and "b \<noteq> 0"
  shows "is_str (m(p + length s := b, p + length s + 1 := 0)) p (s @ [b])"
proof (rule is_strI)
  fix j
  assume "j < length (s @ [b])"
  then have "j < length s \<or> j = length s" by auto
  then show "(m(p + length s := b, p + length s + 1 := 0)) (p + j) = (s @ [b]) ! j"
    using is_strD [OF assms(1)] by (auto simp: nth_append)
qed (use assms is_strD [OF assms(1)] in auto)

text \<open>
  C38. The arguments \<open>compose_writer_args\<close> writes fit in their arrays of 16, 12 and 12 bytes, nothing else is
  written, and the process that is created on them reads back its number with \<open>str_to_uint32\<close> and its pipe with
  \<open>atoi\<close>; its name ends in the letter it will write.
\<close>

theorem writer_args_fit:
  assumes "0 \<le> i" and "i < 2 ^ 31" and "0 \<le> p" and "p < 2 ^ 31" and "is_str m (ro f (str ''writer-'')) (str ''writer-'')"
    and "separate [(name_buf f, 16), (id_buf f, 12), (value_pipe_buf f, 12), (ro f (str ''writer-''), 8)]"
  shows "\<exists>m'. compose_writer_args i p f m = Some m' \<and>
    is_str m' (name_buf f) (str ''writer-'' @ [writer_value i]) \<and>
    count_of m' (id_buf f) = Some i \<and> atoi m' (value_pipe_buf f) = Some p \<and>
    (\<forall>a. (a < name_buf f \<or> name_buf f + 16 \<le> a) \<and> (a < id_buf f \<or> id_buf f + 12 \<le> a) \<and>
      (a < value_pipe_buf f \<or> value_pipe_buf f + 12 \<le> a) \<longrightarrow> m' a = m a)"
proof -
  let ?N = "name_buf f" and ?I = "id_buf f" and ?P = "value_pipe_buf f" and ?L = "ro f (str ''writer-'')"
  note s = separateD [OF assms(6)]
  have ni: "?N + 16 \<le> ?I \<or> ?I + 12 \<le> ?N" using s [of 0 1] by simp
  have np: "?N + 16 \<le> ?P \<or> ?P + 12 \<le> ?N" using s [of 0 2] by simp
  have nl: "?N + 16 \<le> ?L \<or> ?L + 8 \<le> ?N" using s [of 0 3] by (simp add: numeral_3_eq_3)
  have ip: "?I + 12 \<le> ?P \<or> ?P + 12 \<le> ?I" using s [of 1 2] by (simp add: numeral_2_eq_2)
  have il: "?I + 12 \<le> ?L \<or> ?L + 8 \<le> ?I" using s [of 1 3] by (simp add: numeral_3_eq_3)
  have pl: "?P + 12 \<le> ?L \<or> ?L + 8 \<le> ?P" using s [of 2 3] by (simp add: numeral_3_eq_3 numeral_2_eq_2)
  have len: "length (str ''writer-'') = 7" "length (decimal i) \<le> 10" "length (decimal p) \<le> 10"
    using decimal_length assms(1-4) by (simp_all add: str_def)
  obtain m1 n1 where m1: "user_itoa m (unat (word_of_int i :: 64 word)) ?I 10 = Some (m1, n1)" "is_str m1 ?I (decimal i)"
    "\<And>a. a < ?I \<or> ?I + 12 \<le> a \<Longrightarrow> m1 a = m a" by (rule itoa_decimal [where m = m and buf = ?I, OF assms(1,2)]) blast
  obtain m2 n2 where m2: "user_itoa m1 (unat (word_of_int p :: 64 word)) ?P 10 = Some (m2, n2)" "is_str m2 ?P (decimal p)"
    "\<And>a. a < ?P \<or> ?P + 12 \<le> a \<Longrightarrow> m2 a = m1 a" by (rule itoa_decimal [where m = m1 and buf = ?P, OF assms(3,4)]) blast
  have "is_str m1 ?L (str ''writer-'')" by (rule is_str_apart [OF assms(5), of 8 ?I 12]) (use il len(1) m1(3) in auto)
  then have lit: "is_str m2 ?L (str ''writer-'')" by (rule is_str_apart [of _ _ _ 8 ?P 12]) (use pl len(1) m2(3) in auto)
  have d: "?N + length (str ''writer-'') < ?L \<or> ?L + length (str ''writer-'') < ?N" using nl len(1) by linarith
  obtain m3 n3 where m3: "user_strcpy m2 ?N ?L = Some (m3, n3)" "is_str m3 ?N (str ''writer-'')"
    "\<And>a. a < ?N \<or> ?N + length (str ''writer-'') < a \<Longrightarrow> m3 a = m2 a" by (rule strcpy_copies [OF lit d]) blast
  let ?m = "m3(?N + 7 := writer_value i, ?N + 8 := 0)"
  have out: "?m a = m2 a" if "a < ?N \<or> ?N + 16 \<le> a" for a using that m3(3) [of a] len(1) by auto
  have "is_str ?m ?N (str ''writer-'' @ [writer_value i])"
    using is_str_snoc [OF m3(2) writer_value_letter [of i], unfolded len(1)] unfolding add.assoc by simp
  moreover have "is_str m2 ?I (decimal i)" by (rule is_str_apart [OF m1(2), of 12 ?P 12]) (use ip len(2) m2(3) in auto)
  then have "is_str ?m ?I (decimal i)" by (rule is_str_apart [of _ _ _ 12 ?N 16]) (use ni len(2) out in auto)
  then have "count_of ?m ?I = Some i" using count_of_decimal(1) assms(1,2) by blast
  moreover have "is_str ?m ?P (decimal p)" by (rule is_str_apart [OF m2(2), of 12 ?N 16]) (use np len(3) out in auto)
  then have "atoi ?m ?P = Some p" using count_of_decimal(2) assms(3,4) by blast
  moreover have "?m a = m a" if "a < ?N \<or> ?N + 16 \<le> a" "a < ?I \<or> ?I + 12 \<le> a" "a < ?P \<or> ?P + 12 \<le> a" for a
    using out [OF that(1)] m2(3) [OF that(3)] m1(3) [OF that(2)] by simp
  moreover have "compose_writer_args i p f m = Some ?m"
    using m1(1) m2(1) m3(1) by (simp add: compose_writer_args_def)
  ultimately show ?thesis by blast
qed

definition demo_frame :: frame where
  "demo_frame = \<lparr>name_buf = 100, id_buf = 200, value_pipe_buf = 300, ro = (\<lambda>_. 400)\<rparr>"

theorem writer_args_fit_witness:
  "\<exists>m'. compose_writer_args 2 5 demo_frame (placed (\<lambda>_. 0) 400 (str ''writer-'')) = Some m' \<and> is_str m' 100 (str ''writer-C'') \<and>
    count_of m' 200 = Some 2 \<and> atoi m' 300 = Some 5"
proof -
  have s: "separate [(name_buf demo_frame, 16), (id_buf demo_frame, 12), (value_pipe_buf demo_frame, 12), (ro demo_frame (str ''writer-''), 8)]"
    by (simp add: separate_def demo_frame_def All_less_Suc nth_Cons')
  have l: "is_str (placed (\<lambda>_. 0) 400 (str ''writer-'')) (ro demo_frame (str ''writer-'')) (str ''writer-'')"
    by (simp add: demo_frame_def placed_def str_def)
  have n: "str ''writer-'' @ [writer_value 2] = str ''writer-C''" by (simp add: str_def writer_value_def c_rem_def)
  from writer_args_fit [of 2 5, OF _ _ _ _ l s] show ?thesis unfolding n by (auto simp: demo_frame_def)
qed

text \<open>What a reader does for one value b while the font is c.\<close>

definition show_value :: "int \<Rightarrow> color \<Rightarrow> byte \<times> color \<Rightarrow> syscall list" where
  "show_value vp fnt = (\<lambda>(b, c). [Pipe_read vp 1, Sem_wait 93, Get_font_color, Set_font_color fnt, Write 1 b,
     Set_font_color c, Sem_post 93])"

definition value_answers :: "byte \<times> color \<Rightarrow> answer list" where
  "value_answers = (\<lambda>(b, c). [Bytes 1 [b], Value 0, Font_color c, Value 0])"

lemma random_pause_yields:
  "random_pause unif g u = (g', u') \<Longrightarrow> answers u' = answers u \<and> filter (\<lambda>c. c \<noteq> Yield) (calls u') = filter (\<lambda>c. c \<noteq> Yield) (calls u)"
proof -
  have "answers ((tell Yield ^^ n) u) = answers u \<and>
      filter (\<lambda>c. c \<noteq> Yield) (calls ((tell Yield ^^ n) u)) = filter (\<lambda>c. c \<noteq> Yield) (calls u)" for n
    by (induction n) simp_all
  then show "random_pause unif g u = (g', u') \<Longrightarrow> ?thesis" by (auto simp: random_pause_def Let_def split: prod.splits)
qed

lemma ask_simp: "answers u = a # as \<Longrightarrow> ask c u = Some (a, tell c (u\<lparr>answers := as\<rparr>))"
  by (simp add: ask_def)

text \<open>
  C37. A reader prints each value of the pipe once and in order, every time holding the print
  semaphore, in its own colour, and it restores the colour it found before it releases the semaphore; it ends when
  the pipe fails. Its pauses, whatever the random numbers, are only yields in between.
\<close>

theorem reader_prints_guarded:
  assumes "answers u = concat (map value_answers xs) @ Bytes w [] # rest" and "sint (ucast w :: 32 word) \<noteq> 1" and "0 \<le> vp"
  shows "\<exists>u'. reader_loop unif fnt vp g u = Some u' \<and> answers u' = rest \<and>
    filter (\<lambda>c. c \<noteq> Yield) (calls u') =
      filter (\<lambda>c. c \<noteq> Yield) (calls u) @ concat (map (show_value vp fnt) xs) @ [Pipe_read vp 1]"
  using assms(1)
proof (induction xs arbitrary: g u)
  case Nil
  obtain g1 u1 where p: "random_pause unif g u = (g1, u1)" by force
  note y = random_pause_yields [OF p]
  from y Nil have "answers u1 = Bytes w [] # rest" by simp
  from ask_simp [OF this, of "Pipe_read vp 1"] p conjunct2 [OF y] assms(2,3) show ?case
    by (subst reader_loop.simps) (simp add: pipe_read_all_def MVAR_VALUE_BYTES_def)
next
  case (Cons x xs)
  obtain b c where x: "x = (b, c)" by force
  obtain g1 u1 where p: "random_pause unif g u = (g1, u1)" by force
  note y = random_pause_yields [OF p]
  let ?rest = "concat (map value_answers xs) @ Bytes w [] # rest"
  from y Cons(2) x have a: "answers u1 = Bytes 1 [b] # Value 0 # Font_color c # Value 0 # ?rest" by (simp add: value_answers_def)
  let ?u = "u1\<lparr>answers := ?rest, calls := calls u1 @ show_value vp fnt (b, c)\<rparr>"
  have "reader_loop unif fnt vp g u = reader_loop unif fnt vp g1 ?u"
    using p a assms(3)
    by (subst reader_loop.simps)
      (simp add: pipe_read_all_def MVAR_VALUE_BYTES_def MVAR_SEM_PRINT_def ask_simp ask_int_def print_value_def ask_color_def
        show_value_def tell_def putchar_def)
  moreover from Cons(1) [of ?u g1] obtain u' where "reader_loop unif fnt vp g1 ?u = Some u'" "answers u' = rest"
    "filter (\<lambda>c. c \<noteq> Yield) (calls u') =
      filter (\<lambda>c. c \<noteq> Yield) (calls ?u) @ concat (map (show_value vp fnt) xs) @ [Pipe_read vp 1]" by auto
  ultimately show ?case using y by (auto simp: x show_value_def)
qed

theorem reader_prints_guarded_witness:
  "\<exists>u'. reader_loop (\<lambda>n g. (0, g)) BLACK 5 rng_init
      (demo_user [Bytes 1 [65], Value 0, Font_color DEFAULT_COLOR, Value 0, Bytes 0 []]) = Some u' \<and> answers u' = []"
proof -
  have w: "sint (ucast (0 :: 64 word) :: 32 word) \<noteq> 1" by simp
  have a: "answers (demo_user [Bytes 1 [65], Value 0, Font_color DEFAULT_COLOR, Value 0, Bytes 0 []]) =
      concat (map value_answers [(65, DEFAULT_COLOR)]) @ Bytes 0 [] # []"
    by (simp add: demo_user_def value_answers_def)
  from reader_prints_guarded [OF a w, of 5 "\<lambda>n g. (0, g)" BLACK rng_init] show ?thesis by auto
qed

end
