(* ===== verification/Shell.thy ===== *)
theory Shell
  imports Builtins Mvar
begin

text \<open>
  \<open>Userland/SampleCodeModule/shell.c\<close>: the lines the user types are split in place into an array of 16 pointers, looked
  up in the table of commands and run. Arrays on the stack are functions of the index; the memory they are not given a
  value in is \<open>junk\<close>. The string literals and the table of names are in the program's data.
\<close>

definition CANT_INSTRUCTIONS :: int where "CANT_INSTRUCTIONS = 21"
definition CANT_BUILTIN :: nat where "CANT_BUILTIN = 7"
definition MAX_ARGS :: nat where "MAX_ARGS = 16"
definition FONT_SIZE :: int where "FONT_SIZE = 6"
definition CLEAR :: int where "CLEAR = 7"

definition IS_BUILT_IN :: "int \<Rightarrow> bool" where
  "IS_BUILT_IN i = (0 \<le> i \<and> i \<le> FONT_SIZE)"

definition WELCOME :: "byte list" where
  "WELCOME = str ''Bienvenido! Ingrese '' @ [39] @ str ''help'' @ [39] @ line '' para ver los comandos disponibles''"

definition commands :: "byte list list" where
  "commands = [str ''help'', str ''mem'', str ''kill'', str ''block'', str ''unblock'', str ''nice'', str ''font-size'',
     str ''clear'', str ''ps'', str ''loop'', str ''cat'', str ''wc'', str ''filter'', str ''mvar'', str ''testmem'',
     str ''testproc'', str ''testprio'', str ''testsync'']"

text \<open>Where the literals lie, what is behind the 18 entries of the table, and the arrays \<open>cmd1\<close> and \<open>cmd2\<close>.\<close>

record layout =
  literal :: "byte list \<Rightarrow> addr"
  behind :: "nat \<Rightarrow> addr"
  cmd1_at :: addr
  cmd2_at :: addr
  junk :: argv

definition instruction_list :: "layout \<Rightarrow> nat \<Rightarrow> addr" where
  "instruction_list l i = (if i < length commands then literal l (commands ! i) else behind l i)"

type_synonym handler = "argv \<Rightarrow> int \<Rightarrow> bool \<Rightarrow> int \<Rightarrow> int \<Rightarrow> user \<Rightarrow> (int \<times> user) option"

definition handlers_list :: "handler list" where
  "handlers_list = [handle_clear, handle_ps, handle_loop, handle_cat, handle_wc, handle_filter, handle_mvar, handle_test_mm,
     handle_test_processes, handle_test_priority, handle_test_sync]"

text \<open>The array has 13 entries, two of them null: calling one is a fault, as is an index outside.\<close>

definition instruction_handlers :: "int \<Rightarrow> handler" where
  "instruction_handlers i = (if 0 \<le> i \<and> i < int (length handlers_list) then handlers_list ! nat i else (\<lambda>_ _ _ _ _ _. None))"

definition built_in_handlers :: "(int \<Rightarrow> argv \<Rightarrow> user \<Rightarrow> user option) list" where
  "built_in_handlers = [bi_help, (\<lambda>ac av. bi_mem ac), bi_kill, bi_block, bi_unblock, bi_nice, bi_fontSize]"

section \<open>Splitting a line\<close>

partial_function (option) skip_spaces :: "bytes \<Rightarrow> addr \<Rightarrow> addr option" where
  "skip_spaces m p = (if m p = 32 then skip_spaces m (p + 1) else Some p)"

partial_function (option) skip_word :: "bytes \<Rightarrow> addr \<Rightarrow> addr option" where
  "skip_word m p = (if m p \<noteq> 0 \<and> m p \<noteq> 32 then skip_word m (p + 1) else Some p)"

text \<open>The loop over the words: \<open>n\<close> of them were found, the next begins at p.\<close>

partial_function (option) split_loop :: "bytes \<Rightarrow> addr \<Rightarrow> argv \<Rightarrow> nat \<Rightarrow> (nat \<times> argv \<times> bytes) option" where
  "split_loop m p av n =
     (if m p \<noteq> 0 \<and> n < MAX_ARGS then do {
        q \<leftarrow> skip_word m p;
        if m q = 32 then do {
          r \<leftarrow> skip_spaces (m(q := 0)) (q + 1);
          split_loop (m(q := 0)) r (av(n := p)) (n + 1) }
        else split_loop m q (av(n := p)) (n + 1) }
      else Some (n, av, m))"

definition split_args :: "addr \<Rightarrow> argv \<Rightarrow> bytes \<Rightarrow> (int \<times> argv \<times> bytes) option" where
  "split_args args av m =
     (if args = 0 then Some (- 1, av, m)
      else do {
        p \<leftarrow> skip_spaces m args;
        (n, av', m') \<leftarrow> split_loop m p av 0;
        Some (int n, (\<lambda>i. if n \<le> i \<and> i < MAX_ARGS then 0 else av' i), m') })"

section \<open>Pipes and background\<close>

text \<open>The two loops that copy arguments: the first one runs to the bar, the second to the first null pointer.\<close>

function copy_before :: "argv \<Rightarrow> nat \<Rightarrow> nat \<Rightarrow> argv \<Rightarrow> nat \<times> argv" where
  "copy_before av j n dst = (if j < n \<and> j < MAX_ARGS then copy_before av (j + 1) n (dst(j := av j)) else (j, dst))"
  by pat_completeness auto
termination by (relation "measure (\<lambda>(av, j, n, dst). n - j)") auto

function copy_after :: "argv \<Rightarrow> nat \<Rightarrow> nat \<Rightarrow> argv \<Rightarrow> nat \<times> argv" where
  "copy_after av j c dst = (if j < MAX_ARGS \<and> av j \<noteq> 0 then copy_after av (j + 1) (c + 1) (dst(c := av j)) else (c, dst))"
  by pat_completeness auto
termination by (relation "measure (\<lambda>(av, j, c, dst). MAX_ARGS - j)") auto

declare copy_before.simps [simp del] copy_after.simps [simp del]

definition bar :: "layout \<Rightarrow> argv \<Rightarrow> bytes \<Rightarrow> int option" where
  "bar l av m = str_in_list m (literal l (str ''|'')) (Some av) (int MAX_ARGS)"

definition separate_cmds :: "layout \<Rightarrow> argv \<Rightarrow> argv \<Rightarrow> argv \<Rightarrow> bytes \<Rightarrow> (argv \<times> argv) option" where
  "separate_cmds l av cmd1 cmd2 m = do {
     sep \<leftarrow> bar l av m;
     let (c, cmd1) = copy_before av 0 (nat sep) cmd1;
     let cmd1 = cmd1(c := 0);
     let (c, cmd2) = copy_after av (nat (sep + 1)) 0 cmd2;
     Some (cmd1, cmd2(c := 0)) }"

text \<open>The last flag of the result is the value returned: whether the command runs in the foreground.\<close>

definition check_fore :: "bytes \<Rightarrow> argv \<Rightarrow> int \<Rightarrow> argv \<times> int \<times> bool" where
  "check_fore m av ac =
     (if ac \<le> 0 then (av, ac, True)
      else
        let j = nat (ac - 1); res = (av j \<noteq> 0 \<and> m (av j) = 38) in
        if res then (av(j := 0), ac - 1, False) else (av, ac, True))"

function shift_args :: "argv \<Rightarrow> nat \<Rightarrow> int \<Rightarrow> argv" where
  "shift_args av i ac = (if int i < ac - 1 \<and> i < MAX_ARGS - 1 then shift_args (av(i := av (i + 1))) (i + 1) ac else av)"
  by pat_completeness auto
termination by (relation "measure (\<lambda>(av, i, ac). MAX_ARGS - i)") auto

declare shift_args.simps [simp del]

definition remove_name :: "argv \<Rightarrow> int \<Rightarrow> argv \<times> int" where
  "remove_name av ac =
     (if ac \<le> 0 then (av, ac)
      else
        let av' = shift_args av 0 ac; j = nat (ac - 1) in
        (if j < MAX_ARGS then av'(j := 0) else av', ac - 1))"

record cmd =
  instruction :: int
  arguments :: addr
  arg_array :: argv
  cmd_argc :: int
  cmd_ground :: bool

function arg_total :: "argv \<Rightarrow> nat \<Rightarrow> nat" where
  "arg_total av c = (if c < MAX_ARGS \<and> av c \<noteq> 0 then arg_total av (c + 1) else c)"
  by pat_completeness auto
termination by (relation "measure (\<lambda>(av, c). MAX_ARGS - c)") auto

declare arg_total.simps [simp del]

definition find_command :: "layout \<Rightarrow> addr \<Rightarrow> bytes \<Rightarrow> int option" where
  "find_command l p m = str_in_list m p (Some (instruction_list l)) CANT_INSTRUCTIONS"

definition set_cmd :: "layout \<Rightarrow> argv \<Rightarrow> addr \<Rightarrow> bytes \<Rightarrow> cmd option" where
  "set_cmd l av at m =
     (let (av', ac, gnd) = check_fore m av (int (arg_total av 0)) in
      map_option (\<lambda>i. \<lparr>instruction = i, arguments = at, arg_array = av', cmd_argc = ac, cmd_ground = gnd\<rparr>)
        (find_command l (av' 0) m))"

definition say_error :: "byte list \<Rightarrow> user \<Rightarrow> user option" where
  "say_error msg u = printErr (lit msg) 0 u"

definition free_commands :: "cmd \<Rightarrow> cmd \<Rightarrow> addr \<Rightarrow> user \<Rightarrow> user" where
  "free_commands c1 c2 pipe_cmd u = tell (Mm_free pipe_cmd) (tell (Mm_free (arguments c2)) (tell (Mm_free (arguments c1)) u))"

definition run_cmd :: "cmd \<Rightarrow> int \<Rightarrow> int \<Rightarrow> user \<Rightarrow> (int \<times> user) option" where
  "run_cmd c stdin stdout u =
     instruction_handlers (instruction c - FONT_SIZE - 1) (arg_array c) (cmd_argc c) (cmd_ground c) stdin stdout u"

definition handle_piped_commands :: "cmd \<Rightarrow> cmd \<Rightarrow> addr \<Rightarrow> user \<Rightarrow> user option" where
  "handle_piped_commands c1 c2 pipe_cmd u =
     (if instruction c1 = - 1 \<or> instruction c2 = - 1
      then map_option (free_commands c1 c2 pipe_cmd) (say_error (line ''Comando invalido.'') u)
      else if IS_BUILT_IN (instruction c1) \<or> IS_BUILT_IN (instruction c2)
      then map_option (free_commands c1 c2 pipe_cmd) (say_error (line ''No se pueden usar comandos built-in con pipes.'') u)
      else do {
        (pipe_fd, u1) \<leftarrow> ask_int Pipe_create u;
        if pipe_fd < 0
        then map_option (free_commands c1 c2 pipe_cmd) (say_error (line ''Error al crear el pipe'') u1)
        else do {
          (p0, u2) \<leftarrow> run_cmd c1 0 pipe_fd u1;
          (p1, u3) \<leftarrow> run_cmd c2 pipe_fd 1 u2;
          (r0, u4) \<leftarrow> ask_word (Wait_process p0) u3;
          (r1, u5) \<leftarrow> ask_word (Wait_process p1) (tell (Mm_free (arguments c1)) u4);
          (r2, u6) \<leftarrow> ask_word (Pipe_close pipe_fd) (tell (Mm_free (arguments c2)) u5);
          Some (tell (Mm_free pipe_cmd) u6) } })"

definition handle_process_command :: "layout \<Rightarrow> argv \<Rightarrow> int \<Rightarrow> int \<Rightarrow> user \<Rightarrow> user option" where
  "handle_process_command l av ac inst_n u =
     (case check_fore (umem u) av ac of (av', ac', gnd) \<Rightarrow> do {
        (p, u1) \<leftarrow> instruction_handlers (inst_n - CLEAR) av' ac' gnd 0 1 u;
        if p < 0 then say_error (line ''Error al ejecutar el comando.'') u1
        else if p = 0
        then printf (line ''Proceso %s ejecutado en background.'') [Str (umem u1) (instruction_list l (nat inst_n))] u1
        else map_option snd (ask_word (Wait_process p) u1) })"

section \<open>The shell\<close>

definition sizeof_pipeCmd :: nat where "sizeof_pipeCmd = 48"

definition piped_line :: "layout \<Rightarrow> argv \<Rightarrow> user \<Rightarrow> user option" where
  "piped_line l av u = do {
     (w, u1) \<leftarrow> ask_word (Mm_alloc sizeof_pipeCmd) u;
     if w = 0 then say_error (line ''Error al asignar memoria para pipeCmd'') u1
     else do {
       (cmd1, cmd2) \<leftarrow> separate_cmds l av (junk l) (junk l) (umem u1);
       c1 \<leftarrow> set_cmd l cmd1 (cmd1_at l) (umem u1);
       c2 \<leftarrow> set_cmd l cmd2 (cmd2_at l) (umem u1);
       handle_piped_commands c1 c2 (unat w) u1 } }"

definition single_line :: "layout \<Rightarrow> argv \<Rightarrow> int \<Rightarrow> user \<Rightarrow> user option" where
  "single_line l av ac u = do {
     instruction_n \<leftarrow> find_command l (av 0) (umem u);
     if instruction_n = - 1
     then say_error (str ''Comando invalido, ejecuta '' @ [39] @ str ''help'' @ [39] @ line '' para conocer los comandos'') u
     else if IS_BUILT_IN instruction_n
     then (case remove_name av ac of (av', ac') \<Rightarrow> (built_in_handlers ! nat instruction_n) ac' av' u)
     else handle_process_command l av ac instruction_n u }"

text \<open>One round of the endless loop, on the line buffer at \<open>p\<close>.\<close>

definition run_line :: "layout \<Rightarrow> addr \<Rightarrow> user \<Rightarrow> user option" where
  "run_line l p u = do {
     (ac, av, m) \<leftarrow> split_args p (junk l) (umem u);
     let u1 = u\<lparr>umem := m\<rparr>;
     if ac = 0 then Some u1
     else do {
       b \<leftarrow> bar l av m;
       if b \<noteq> - 1 then piped_line l av u1 else single_line l av ac u1 } }"

definition shell_round :: "layout \<Rightarrow> addr \<Rightarrow> user \<Rightarrow> user option" where
  "shell_round l p u = do {
     (n, u1) \<leftarrow> read_line p (int MAX_CHARS) (putchar 62 u);
     if n \<le> 0 then Some u1 else run_line l p u1 }"

fun shell_rounds :: "nat \<Rightarrow> layout \<Rightarrow> addr \<Rightarrow> user \<Rightarrow> user option" where
  "shell_rounds 0 l p u = Some u"
| "shell_rounds (Suc n) l p u = do { u1 \<leftarrow> shell_round l p u; shell_rounds n l p u1 }"

text \<open>\<open>run_shell\<close> after n rounds.\<close>

definition run_shell :: "nat \<Rightarrow> layout \<Rightarrow> user \<Rightarrow> user option" where
  "run_shell n l u = do {
     u1 \<leftarrow> puts (lit WELCOME) 0 (tell Clear_screen u);
     (w, u2) \<leftarrow> ask_word (Mm_alloc MAX_CHARS) u1;
     if w = 0 then say_error (line ''Error al asignar memoria para la linea de comandos'') u2
     else shell_rounds n l (unat w) u2 }"

declare skip_spaces.simps [code] skip_word.simps [code] split_loop.simps [code]

section \<open>What splitting finds\<close>

text \<open>The words of a line: what blanks separate.\<close>

function words :: "byte list \<Rightarrow> byte list list" where
  "words xs = (case dropWhile (\<lambda>c. c = 32) xs of
     [] \<Rightarrow> []
   | y # ys \<Rightarrow> takeWhile (\<lambda>c. c \<noteq> 32) (y # ys) # words (dropWhile (\<lambda>c. c \<noteq> 32) (y # ys)))"
  by pat_completeness auto
termination
proof (relation "measure length", simp)
  fix xs :: "byte list" and y ys
  assume e: "dropWhile (\<lambda>c. c = 32) xs = y # ys"
  then have "y \<noteq> 32" using hd_dropWhile [of "\<lambda>c. c = 32" xs] by auto
  then have "length (dropWhile (\<lambda>c. c \<noteq> 32) (y # ys)) \<le> length ys" by (simp add: length_dropWhile_le)
  also have "\<dots> < length xs" using length_dropWhile_le [of "\<lambda>c. c = 32" xs] e by simp
  finally show "(dropWhile (\<lambda>c. c \<noteq> 32) (y # ys), xs) \<in> measure length" by simp
qed

declare words.simps [simp del]

lemma words_Nil [simp]: "words [] = []"
  by (simp add: words.simps)

lemma words_blank [simp]: "words (32 # xs) = words xs"
  by (simp add: words.simps [of "32 # xs"] words.simps [of xs])

lemma words_dropWhile: "words (dropWhile (\<lambda>c. c = 32) xs) = words xs"
  by (induction xs) (auto simp: words.simps)

lemma words_Cons: "y \<noteq> 32 \<Longrightarrow> words (y # ys) = takeWhile (\<lambda>c. c \<noteq> 32) (y # ys) # words (dropWhile (\<lambda>c. c \<noteq> 32) (y # ys))"
  by (subst words.simps) simp

lemma not_blank_first: "dropWhile (\<lambda>c. c = x) xs = [] \<or> hd (dropWhile (\<lambda>c. c = x) xs) \<noteq> x"
  by (induction xs) auto

lemma skip_spaces_str:
  "is_str m p xs \<Longrightarrow> skip_spaces m p = Some (p + length (takeWhile (\<lambda>c. c = 32) xs)) \<and>
    is_str m (p + length (takeWhile (\<lambda>c. c = 32) xs)) (dropWhile (\<lambda>c. c = 32) xs)"
proof (induction xs arbitrary: p)
  case (Cons x xs)
  then show ?case using Cons(1) [of "p + 1"] by (cases "x = 32") (simp_all add: skip_spaces.simps [of m p])
qed (simp add: skip_spaces.simps)

lemma skip_word_str:
  "is_str m p xs \<Longrightarrow> skip_word m p = Some (p + length (takeWhile (\<lambda>c. c \<noteq> 32) xs)) \<and>
    is_str m (p + length (takeWhile (\<lambda>c. c \<noteq> 32) xs)) (dropWhile (\<lambda>c. c \<noteq> 32) xs)"
proof (induction xs arbitrary: p)
  case (Cons x xs)
  then show ?case using Cons(1) [of "p + 1"] by (cases "x = 32") (simp_all add: skip_word.simps [of m p])
qed (simp add: skip_word.simps)

text \<open>Entries n to n + length ws of an array point to the words ws, inside the memory from lo to hi.\<close>

definition args_at :: "bytes \<Rightarrow> argv \<Rightarrow> nat \<Rightarrow> byte list list \<Rightarrow> addr \<Rightarrow> addr \<Rightarrow> bool" where
  "args_at m av n ws lo hi = (\<forall>i < length ws. is_str m (av (n + i)) (ws ! i) \<and> lo \<le> av (n + i) \<and>
     av (n + i) + length (ws ! i) \<le> hi)"

lemma args_at_Cons:
  "is_str m (av n) w \<Longrightarrow> lo \<le> av n \<Longrightarrow> av n + length w \<le> hi \<Longrightarrow> args_at m av (n + 1) ws lo' hi \<Longrightarrow> lo \<le> lo' \<Longrightarrow>
    args_at m av n (w # ws) lo hi"
  unfolding args_at_def by (auto simp: less_Suc_eq_0_disj)

lemma args_at_frame:
  "args_at m av n ws lo hi \<Longrightarrow> (\<And>a. lo \<le> a \<Longrightarrow> a \<le> hi \<Longrightarrow> m' a = m a) \<Longrightarrow> args_at m' av n ws lo hi"
  unfolding args_at_def by (blast intro: is_str_frame le_trans)

lemma split_loop_words:
  assumes "is_str m p xs" and "xs = [] \<or> hd xs \<noteq> 32" and "n \<le> MAX_ARGS"
  shows "\<exists>av' m'. split_loop m p av n = Some (n + length (take (MAX_ARGS - n) (words xs)), av', m') \<and>
    args_at m' av' n (take (MAX_ARGS - n) (words xs)) p (p + length xs) \<and>
    (\<forall>i. i < n \<or> MAX_ARGS \<le> i \<longrightarrow> av' i = av i) \<and> (\<forall>a. a < p \<or> p + length xs < a \<longrightarrow> m' a = m a)"
  using assms
proof (induction "length xs" arbitrary: m p xs av n rule: less_induct)
  case less
  show ?case
  proof (cases "xs = [] \<or> n = MAX_ARGS")
    case True
    then have "m p = 0 \<or> \<not> n < MAX_ARGS" using less(2) by auto
    then show ?thesis using True by (subst split_loop.simps) (auto simp: args_at_def)
  next
    case False
    then obtain y ys where xs: "xs = y # ys" "y \<noteq> 32" and n: "n < MAX_ARGS" using less(3,4) by (cases xs) auto
    let ?w = "takeWhile (\<lambda>c. c \<noteq> 32) xs" and ?r = "dropWhile (\<lambda>c. c \<noteq> 32) xs"
    let ?q = "p + length ?w"
    have wr: "xs = ?w @ ?r" by simp
    have len: "0 < length ?w" "length xs = length ?w + length ?r"
      using xs length_append [of ?w ?r] by (simp, metis wr)
    have w: "skip_word m p = Some ?q" "is_str m ?q ?r" using skip_word_str [OF less(2)] by simp_all
    have m0: "m p \<noteq> 0" using less(2) xs by simp
    have ws: "take (MAX_ARGS - n) (words xs) = ?w # take (MAX_ARGS - (n + 1)) (words ?r)"
      using words_Cons [OF xs(2), of ys] xs(1) n by (simp add: take_Cons')
    have low: "m (p + i) = ?w ! i" if "i < length ?w" for i
      using is_strD [OF less(2)] that len(2) takeWhile_nth [of i "\<lambda>c. c \<noteq> 32" xs] by simp
    have w0: "0 \<notin> set ?w" using is_strD [OF less(2)] set_takeWhileD [of 0] by metis
    show ?thesis
    proof (cases ?r)
      case Nil
      then have q: "m ?q = 0" using w(2) unfolding Nil by simp
      have r: "split_loop m ?q (av(n := p)) (n + 1) = Some (n + 1, av(n := p), m)" using q by (subst split_loop.simps) simp
      have "is_str m p ?w" using less(2) Nil wr by (metis append_Nil2)
      then have "args_at m (av(n := p)) n [?w] p (p + length xs)" using len(2) by (simp add: args_at_def)
      moreover have "take (MAX_ARGS - n) (words xs) = [?w]" using ws unfolding Nil by simp
      moreover have "split_loop m p av n = Some (n + 1, av(n := p), m)"
        using m0 n w(1) q r by (subst split_loop.simps) simp
      ultimately show ?thesis using n by auto
    next
      case (Cons z zs)
      then have z: "z = 32" using hd_dropWhile [of "\<lambda>c. c \<noteq> 32" xs] by auto
      let ?m = "m(?q := 0)" and ?s = "dropWhile (\<lambda>c. c = 32) zs" and ?k = "length (takeWhile (\<lambda>c. c = 32) zs)"
      have q: "m ?q = 32" using w(2) Cons z by simp
      have zs: "is_str ?m (?q + 1) zs"
        by (rule is_str_frame [where m = m]) (use w(2) Cons in auto)
      let ?p = "?q + 1 + ?k"
      have sp: "skip_spaces ?m (?q + 1) = Some ?p" "is_str ?m ?p ?s" using skip_spaces_str [OF zs] by simp_all
      have ls: "length zs = ?k + length ?s" by (metis length_append takeWhile_dropWhile_id)
      have lr: "length ?r = Suc (length zs)" using Cons by simp
      have less_s: "length ?s < length xs" using ls lr len by linarith
      have hd_s: "?s = [] \<or> hd ?s \<noteq> 32" by (rule not_blank_first)
      have wds: "words ?s = words ?r" using Cons z by (simp add: words_dropWhile)
      obtain av' m' where r: "split_loop ?m ?p (av(n := p)) (n + 1) =
            Some (n + 1 + length (take (MAX_ARGS - (n + 1)) (words ?r)), av', m')"
          "args_at m' av' (n + 1) (take (MAX_ARGS - (n + 1)) (words ?r)) ?p (?p + length ?s)"
          "\<forall>i. i < n + 1 \<or> MAX_ARGS \<le> i \<longrightarrow> av' i = (av(n := p)) i" "\<forall>a. a < ?p \<or> ?p + length ?s < a \<longrightarrow> m' a = ?m a"
        using less(1) [OF less_s sp(2) hd_s, of "n + 1" "av(n := p)"] n unfolding wds by auto
      have e: "?p + length ?s = p + length xs" using ls lr len by linarith
      have "is_str m' p ?w"
      proof (rule is_strI)
        show "m' (p + i) = ?w ! i" if "i < length ?w" for i using r(4) that low by auto
        show "m' (p + length ?w) = 0" using r(4) by auto
      qed (rule w0)
      then have "args_at m' av' n (?w # take (MAX_ARGS - (n + 1)) (words ?r)) p (p + length xs)"
        using r(2,3) len(2) unfolding e by (intro args_at_Cons) auto
      moreover have "split_loop m p av n =
          Some (n + length (?w # take (MAX_ARGS - (n + 1)) (words ?r)), av', m')"
        using m0 n w(1) q sp(1) r(1) by (subst split_loop.simps) simp
      moreover have "m' a = m a" if "a < p \<or> p + length xs < a" for a
      proof -
        have "a < ?p \<or> ?p + length ?s < a" "a \<noteq> ?q" using that len(2) unfolding e by linarith+
        with r(4) have "m' a = ?m a" "a \<noteq> ?q" by blast+
        then show ?thesis by simp
      qed
      moreover have "\<forall>i. i < n \<or> MAX_ARGS \<le> i \<longrightarrow> av' i = av i" using r(3) n by auto
      ultimately show ?thesis unfolding ws by blast
    qed
  qed
qed

lemma split_args_finds:
  assumes "is_str m p xs" and "p \<noteq> 0"
  defines "ws \<equiv> take MAX_ARGS (words xs)"
  obtains av' m' where "split_args p av m = Some (int (length ws), av', m')" "args_at m' av' 0 ws p (p + length xs)"
    "\<forall>i. length ws \<le> i \<and> i < MAX_ARGS \<longrightarrow> av' i = 0" "\<forall>i. MAX_ARGS \<le> i \<longrightarrow> av' i = av i"
    "\<forall>a. a < p \<or> p + length xs < a \<longrightarrow> m' a = m a"
proof -
  let ?k = "length (takeWhile (\<lambda>c. c = 32) xs)" and ?s = "dropWhile (\<lambda>c. c = 32) xs"
  have s: "skip_spaces m p = Some (p + ?k)" "is_str m (p + ?k) ?s" using skip_spaces_str [OF assms(1)] by simp_all
  have l: "length xs = ?k + length ?s" by (metis length_append takeWhile_dropWhile_id)
  have h: "?s = [] \<or> hd ?s \<noteq> 32" by (rule not_blank_first)
  from split_loop_words [OF s(2) h, of 0 av] obtain av' m' where
    r: "split_loop m (p + ?k) av 0 = Some (length ws, av', m')" "args_at m' av' 0 ws (p + ?k) (p + ?k + length ?s)"
      "\<forall>i. MAX_ARGS \<le> i \<longrightarrow> av' i = av i" "\<forall>a. a < p + ?k \<or> p + ?k + length ?s < a \<longrightarrow> m' a = m a"
    by (auto simp: ws_def words_dropWhile)
  let ?av = "\<lambda>i. if length ws \<le> i \<and> i < MAX_ARGS then 0 else av' i"
  have "args_at m' ?av 0 ws p (p + length xs)" using r(2) l by (auto simp: args_at_def)
  then show ?thesis
    by (rule that [rotated]) (use r(1,3,4) s(1) assms(2) l in \<open>auto simp: split_args_def\<close>)
qed

section \<open>Looking up arguments\<close>

text \<open>The first entry that equals the needle is found whatever is behind it.\<close>

lemma str_in_list_first:
  assumes "is_str m needle s" and "\<forall>j < k. lst j \<noteq> 0 \<longrightarrow> (\<exists>t. is_str m (lst j) t \<and> t \<noteq> s)" and "lst k \<noteq> 0" and "is_str m (lst k) s"
    and "k < n" and "i \<le> k"
  shows "str_in_list_from m needle lst n i = Some (int k)"
  using assms(6)
proof (induction "k - i" arbitrary: i)
  case 0
  then have "i = k" by simp
  moreover obtain r where "strcmp m needle (lst k) = Some r" "r = 0" using strcmp_str [OF assms(1,4)] by blast
  ultimately show ?case using assms(3,5) by (subst str_in_list_from.simps) (simp add: user_strcmp_def)
next
  case (Suc d)
  then have i: "i < k" by simp
  have IH: "str_in_list_from m needle lst n (i + 1) = Some (int k)" by (rule Suc(1)) (use Suc in simp_all)
  show ?case
  proof (cases "lst i = 0")
    case False
    then obtain t where "is_str m (lst i) t" "t \<noteq> s" using assms(2) i by blast
    with strcmp_str [OF assms(1), of "lst i" t] obtain r where "strcmp m needle (lst i) = Some r" "r \<noteq> 0" by blast
    then show ?thesis using i assms(5) IH False by (subst str_in_list_from.simps) (simp add: user_strcmp_def)
  qed (use i assms(5) IH in \<open>subst str_in_list_from.simps, simp\<close>)
qed

lemma str_in_list_none:
  assumes "is_str m needle s" and "\<forall>j < n. lst j \<noteq> 0 \<longrightarrow> (\<exists>t. is_str m (lst j) t \<and> t \<noteq> s)"
  shows "str_in_list_from m needle lst n 0 = Some (- 1)"
proof -
  define strs where "strs j = (SOME t. is_str m (lst j) t \<and> t \<noteq> s)" for j
  have s: "is_str m (lst j) (strs j)" "strs j \<noteq> s" if "j < n" "lst j \<noteq> 0" for j
    using someI_ex [of "\<lambda>t. is_str m (lst j) t \<and> t \<noteq> s"] assms(2) that by (auto simp: strs_def)
  have "List.find (\<lambda>j. lst j \<noteq> 0 \<and> strs j = s) [0 ..< n] = None" using s(2) by (auto simp: find_None_iff)
  with str_in_list_from_spec [OF assms(1), of n lst strs 0] s(1) show ?thesis by simp
qed

text \<open>An argument vector that holds the words ws, with null pointers behind them.\<close>

definition holds_args :: "bytes \<Rightarrow> argv \<Rightarrow> byte list list \<Rightarrow> bool" where
  "holds_args m av ws = (length ws \<le> MAX_ARGS \<and> (\<forall>i < length ws. av i \<noteq> 0 \<and> is_str m (av i) (ws ! i)) \<and>
     (\<forall>i. length ws \<le> i \<and> i < MAX_ARGS \<longrightarrow> av i = 0))"

text \<open>The literals of the shell, outside the memory from lo to hi.\<close>

definition data_ok :: "layout \<Rightarrow> bytes \<Rightarrow> addr \<Rightarrow> addr \<Rightarrow> bool" where
  "data_ok l m lo hi = (\<forall>s \<in> insert (str ''|'') (set commands).
     literal l s \<noteq> 0 \<and> is_str m (literal l s) s \<and> (literal l s + length s < lo \<or> hi < literal l s))"

lemma data_ok_frame:
  assumes "data_ok l m lo hi" and "\<And>a. a < lo \<or> hi < a \<Longrightarrow> m' a = m a"
  shows "data_ok l m' lo hi"
  unfolding data_ok_def
proof
  fix s
  assume s: "s \<in> insert (str ''|'') (set commands)"
  have "is_str m' (literal l s) s"
    by (rule is_str_frame [of m]) (use assms s in \<open>auto simp: data_ok_def\<close>)
  then show "literal l s \<noteq> 0 \<and> is_str m' (literal l s) s \<and> (literal l s + length s < lo \<or> hi < literal l s)"
    using assms(1) s by (auto simp: data_ok_def)
qed

lemma bar_none:
  assumes "data_ok l m lo hi" and "holds_args m av ws" and "str ''|'' \<notin> set ws"
  shows "bar l av m = Some (- 1)"
proof -
  have "\<exists>t. is_str m (av j) t \<and> t \<noteq> str ''|''" if "j < MAX_ARGS" "av j \<noteq> 0" for j
  proof -
    have "j < length ws" using assms(2) that by (auto simp: holds_args_def not_less)
    then show ?thesis using assms(2,3) by (metis holds_args_def nth_mem)
  qed
  then show ?thesis
    using assms(1) str_in_list_none [of m "literal l (str ''|'')" "str ''|''" MAX_ARGS av]
    by (simp add: bar_def str_in_list_def data_ok_def MAX_ARGS_def)
qed

lemma bar_first:
  assumes "data_ok l m lo hi" and "holds_args m av (as @ str ''|'' # bs)" and "str ''|'' \<notin> set as"
  shows "bar l av m = Some (int (length as))"
proof -
  let ?ws = "as @ str ''|'' # bs"
  have k: "length as < MAX_ARGS" "av (length as) \<noteq> 0" "is_str m (av (length as)) (str ''|'')"
    using assms(2) by (auto simp: holds_args_def nth_append dest: spec [of _ "length as"])
  have "\<exists>t. is_str m (av j) t \<and> t \<noteq> str ''|''" if "j < length as" for j
  proof -
    have "is_str m (av j) (?ws ! j)" using assms(2) that by (simp add: holds_args_def)
    moreover have "?ws ! j = as ! j" using that by (simp add: nth_append)
    ultimately show ?thesis using assms(3) that nth_mem by metis
  qed
  with k show ?thesis
    using assms(1) str_in_list_first [of m "literal l (str ''|'')" "str ''|''" "length as" av MAX_ARGS 0]
    by (simp add: bar_def str_in_list_def data_ok_def MAX_ARGS_def)
qed

lemma distinct_commands: "distinct commands"
  by (simp add: commands_def str_def)

lemma find_command_index:
  assumes "data_ok l m lo hi" and "i < length commands" and "p \<noteq> 0" and "is_str m p (commands ! i)"
  shows "find_command l p m = Some (int i)"
proof -
  have c: "instruction_list l j \<noteq> 0 \<and> is_str m (instruction_list l j) (commands ! j)" if "j < length commands" for j
    using assms(1) that nth_mem [OF that] by (auto simp: data_ok_def instruction_list_def)
  have "\<exists>t. is_str m (instruction_list l j) t \<and> t \<noteq> commands ! i" if "j < i" for j
    using c [of j] that assms(2) distinct_commands by (metis less_trans nth_eq_iff_index_eq nat_neq_iff)
  moreover have "length commands = 18" by (simp add: commands_def)
  ultimately show ?thesis
    using str_in_list_first [OF assms(4), of i "instruction_list l" 21 0] c [OF assms(2)] assms(2,3)
    by (simp add: find_command_def str_in_list_def CANT_INSTRUCTIONS_def)
qed

section \<open>Separating two commands\<close>

lemma copy_before_eq:
  "n \<le> MAX_ARGS \<Longrightarrow> j \<le> n \<Longrightarrow> copy_before av j n dst = (n, \<lambda>i. if j \<le> i \<and> i < n then av i else dst i)"
proof (induction av j n dst rule: copy_before.induct)
  case (1 av j n dst)
  show ?case
  proof (cases "j < n")
    case True
    have "copy_before av j n dst = copy_before av (j + 1) n (dst(j := av j))"
      using True 1(2) by (subst copy_before.simps) simp
    also have "\<dots> = (n, \<lambda>i. if j + 1 \<le> i \<and> i < n then av i else (dst(j := av j)) i)"
      by (rule 1(1)) (use 1(2) True in simp_all)
    finally show ?thesis using True by (auto simp: fun_eq_iff)
  next
    case False
    then show ?thesis using 1(3) by (subst copy_before.simps) (auto simp: fun_eq_iff)
  qed
qed

lemma copy_after_eq:
  "e \<le> MAX_ARGS \<Longrightarrow> j \<le> e \<Longrightarrow> \<forall>i. j \<le> i \<and> i < e \<longrightarrow> av i \<noteq> 0 \<Longrightarrow> e < MAX_ARGS \<longrightarrow> av e = 0 \<Longrightarrow>
   copy_after av j c dst = (c + (e - j), \<lambda>i. if c \<le> i \<and> i < c + (e - j) then av (j + (i - c)) else dst i)"
proof (induction av j c dst rule: copy_after.induct)
  case (1 av j c dst)
  show ?case
  proof (cases "j < e")
    case True
    then have "j < MAX_ARGS \<and> av j \<noteq> 0" using 1(2,4) by simp
    moreover have "copy_after av (j + 1) (c + 1) (dst(c := av j)) = (c + 1 + (e - (j + 1)),
        \<lambda>i. if c + 1 \<le> i \<and> i < c + 1 + (e - (j + 1)) then av (j + 1 + (i - (c + 1))) else (dst(c := av j)) i)"
      by (rule 1(1)) (use 1 True calculation in auto)
    moreover have "c + 1 + (e - (j + 1)) = c + (e - j)" using True by simp
    moreover have "j + 1 + (i - (c + 1)) = j + (i - c)" if "c + 1 \<le> i" for i using that by simp
    ultimately show ?thesis using True by (subst copy_after.simps) (auto simp: fun_eq_iff Suc_le_eq)
  next
    case False
    then have "\<not> (j < MAX_ARGS \<and> av j \<noteq> 0)" using 1(3,5) by auto
    then show ?thesis using False by (subst copy_after.simps) (auto simp: fun_eq_iff)
  qed
qed

lemma separate_cmds_splits:
  assumes "data_ok l m lo hi" and "holds_args m av (as @ str ''|'' # bs)" and "str ''|'' \<notin> set as"
  obtains c1 c2 where "separate_cmds l av d1 d2 m = Some (c1, c2)"
    "\<forall>i < length as. c1 i \<noteq> 0 \<and> is_str m (c1 i) (as ! i)" "c1 (length as) = 0"
    "\<forall>i < length bs. c2 i \<noteq> 0 \<and> is_str m (c2 i) (bs ! i)" "c2 (length bs) = 0"
    "\<forall>i. MAX_ARGS \<le> i \<longrightarrow> c1 i = d1 i \<and> c2 i = d2 i"
proof -
  let ?ws = "as @ str ''|'' # bs" and ?a = "length as" and ?e = "length as + 1 + length bs"
  have h: "?e \<le> MAX_ARGS" "\<forall>i < ?e. av i \<noteq> 0 \<and> is_str m (av i) (?ws ! i)" "\<forall>i. ?e \<le> i \<and> i < MAX_ARGS \<longrightarrow> av i = 0"
    using assms(2) by (simp_all add: holds_args_def)
  let ?c1 = "(\<lambda>i. if i < ?a then av i else d1 i)(?a := 0)"
  let ?c2 = "(\<lambda>i. if i < length bs then av (?a + 1 + i) else d2 i)(length bs := 0)"
  have "copy_before av 0 ?a d1 = (?a, \<lambda>i. if i < ?a then av i else d1 i)" using copy_before_eq [of ?a 0 av d1] h(1) by simp
  moreover have "copy_after av (?a + 1) 0 d2 = (length bs, \<lambda>i. if i < length bs then av (?a + 1 + i) else d2 i)"
    using copy_after_eq [of ?e "?a + 1" av 0 d2] h by (simp cong: if_cong)
  ultimately have "separate_cmds l av d1 d2 m = Some (?c1, ?c2)"
    using bar_first [OF assms] by (simp add: separate_cmds_def nat_add_distrib)
  then show ?thesis
  proof (rule that)
    show "\<forall>i < ?a. ?c1 i \<noteq> 0 \<and> is_str m (?c1 i) (as ! i)"
    proof (intro allI impI)
      fix i
      assume i: "i < ?a"
      have "av i \<noteq> 0 \<and> is_str m (av i) (?ws ! i)" using h(2) i by simp
      with i show "?c1 i \<noteq> 0 \<and> is_str m (?c1 i) (as ! i)" by (simp add: nth_append)
    qed
    show "\<forall>i < length bs. ?c2 i \<noteq> 0 \<and> is_str m (?c2 i) (bs ! i)"
    proof (intro allI impI)
      fix i
      assume i: "i < length bs"
      have "av (?a + 1 + i) \<noteq> 0 \<and> is_str m (av (?a + 1 + i)) (?ws ! (?a + 1 + i))" using h(2) i by simp
      with i show "?c2 i \<noteq> 0 \<and> is_str m (?c2 i) (bs ! i)" by (simp add: nth_append)
    qed
    show "\<forall>i. MAX_ARGS \<le> i \<longrightarrow> ?c1 i = d1 i \<and> ?c2 i = d2 i" using h(1) by auto
  qed simp_all
qed

section \<open>From the line to the command\<close>

lemma string_at_str: "is_str m p s \<Longrightarrow> string_at m p = Some s"
  using my_strlen_from_str [of m p 0 s] is_strD [of m p s] by (auto simp: string_at_def intro: nth_equalityI)

lemma arg_vector_args:
  assumes "holds_args m av ws"
  shows "arg_vector m av (int (length ws)) = Some (map Some ws)"
proof -
  have "map (\<lambda>i. if av i = 0 then Some None else map_option Some (string_at m (av i))) [0..<length ws] = map Some (map Some ws)"
    by (rule nth_equalityI) (use assms in \<open>auto simp: holds_args_def string_at_str\<close>)
  moreover have "those (map Some ys) = Some ys" for ys :: "byte list option list" by (induction ys) simp_all
  ultimately show ?thesis by (simp only: arg_vector_def nat_int)
qed

lemma args_at_holds:
  assumes "args_at m av 0 ws lo hi" and "0 < lo" and "length ws \<le> MAX_ARGS" and "\<forall>i. length ws \<le> i \<and> i < MAX_ARGS \<longrightarrow> av i = 0"
  shows "holds_args m av ws"
  using assms by (auto simp: holds_args_def args_at_def)

lemma edited_nonzero: "0 \<notin> set xs \<Longrightarrow> 0 \<notin> set (fold (edit_key n) cs xs)"
  by (induction cs arbitrary: xs) (auto simp: edit_key_def dest: in_set_butlastD)

lemma edited_short: "0 < n \<Longrightarrow> length xs < n \<Longrightarrow> length (fold (edit_key n) cs xs) < n"
  by (induction cs arbitrary: xs) (auto intro: edit_length)

definition apps :: "entry list" where
  "apps = [Clear, Ps, Loop, Cat, Wc, Filter_app]"

lemma handler_of_app:
  assumes "i < length apps" and "0 < ac"
  shows "instruction_handlers (int i) av ac g si so u = create (apps ! i) av ac 1 g si so u"
proof -
  have "i \<in> {0, 1, 2, 3, 4, 5}" using assms(1) by (auto simp: apps_def)
  then show ?thesis
    using assms(2)
    by (auto simp: instruction_handlers_def handlers_list_def apps_def handle_clear_def handle_ps_def handle_loop_def
        handle_cat_def handle_wc_def handle_filter_def argc_or_1_def)
qed

text \<open>A line in memory whose words name an application is run.\<close>

lemma run_line_app:
  assumes "is_str (umem u) p xs" and "p \<noteq> 0" and "data_ok l (umem u) p (p + length xs)" and "length (words xs) \<le> MAX_ARGS"
    and "str ''|'' \<notin> set (words xs)" and "words xs \<noteq> []" and "i < length apps" and "hd (words xs) = commands ! (7 + i)"
    and "last (words xs) \<noteq> []" and "hd (last (words xs)) \<noteq> 38"
    and "answers u = Value w # Value r # rest" and "0 < sint (ucast w :: 16 word)"
  shows "\<exists>u'. run_line l p u = Some u' \<and> answers u' = rest \<and>
    calls u' = calls u @ [Create_process (apps ! i) (map Some (words xs)) (int (length (words xs))) 1 False [0, 1, 2],
      Wait_process (sint (ucast w :: 16 word))]"
proof -
  let ?ws = "words xs" and ?pid = "sint (ucast w :: 16 word)"
  have t: "take MAX_ARGS ?ws = ?ws" using assms(4) by simp
  obtain av m' where s: "split_args p (junk l) (umem u) = Some (int (length ?ws), av, m')" "args_at m' av 0 ?ws p (p + length xs)"
    "\<forall>i. length ?ws \<le> i \<and> i < MAX_ARGS \<longrightarrow> av i = 0" "\<forall>a. a < p \<or> p + length xs < a \<longrightarrow> m' a = umem u a"
    by (rule split_args_finds [OF assms(1,2), of "junk l", unfolded t]) blast
  have h: "holds_args m' av ?ws" by (rule args_at_holds [OF s(2) _ assms(4) s(3)]) (use assms(2) in simp)
  have d: "data_ok l m' p (p + length xs)" by (rule data_ok_frame [OF assms(3)]) (use s(4) in blast)
  have n: "0 < length ?ws" using assms(6) by simp
  have c: "length commands = 18" "length apps = 6" by (simp_all add: commands_def apps_def)
  have a0: "av 0 \<noteq> 0" "is_str m' (av 0) (commands ! (7 + i))"
    using h n assms(6,8) by (auto simp: holds_args_def hd_conv_nth)
  have f: "find_command l (av 0) m' = Some (7 + int i)"
    using find_command_index [OF d _ a0(1), of "7 + i"] a0(2) assms(7) c by simp
  have last: "is_str m' (av (length ?ws - 1)) (last ?ws)" using h n assms(6) by (auto simp: holds_args_def last_conv_nth)
  then have "m' (av (length ?ws - 1)) \<noteq> 38" using assms(9,10) by (cases "last ?ws") auto
  moreover have "nat (int (length ?ws) - 1) = length ?ws - 1" using n by simp
  ultimately have fore: "check_fore m' av (int (length ?ws)) = (av, int (length ?ws), True)"
    using n by (simp add: check_fore_def Let_def)
  let ?u = "u\<lparr>umem := m'\<rparr>" and ?cp = "Create_process (apps ! i) (map Some ?ws) (int (length ?ws)) 1 False [0, 1, 2]"
  have cr: "create (apps ! i) av (int (length ?ws)) 1 True 0 1 ?u = Some (?pid, tell ?cp (?u\<lparr>answers := Value r # rest\<rparr>))"
    using arg_vector_args [OF h] assms(11) by (simp add: create_def ask_pid_def)
  have "handle_process_command l av (int (length ?ws)) (7 + int i) ?u =
      Some (tell (Wait_process ?pid) (tell ?cp (?u\<lparr>answers := rest\<rparr>)))"
    using fore cr handler_of_app [OF assms(7), of "int (length ?ws)"] n assms(12)
    by (simp add: handle_process_command_def CLEAR_def)
  moreover have "\<not> IS_BUILT_IN (7 + int i)" by (simp add: IS_BUILT_IN_def FONT_SIZE_def)
  ultimately have "single_line l av (int (length ?ws)) ?u = Some (tell (Wait_process ?pid) (tell ?cp (?u\<lparr>answers := rest\<rparr>)))"
    using f by (simp add: single_line_def)
  then have "run_line l p u = Some (tell (Wait_process ?pid) (tell ?cp (?u\<lparr>answers := rest\<rparr>)))"
    using s(1) n bar_none [OF d h assms(5)] by (simp add: run_line_def)
  then show ?thesis by simp
qed

section \<open>Properties\<close>

text \<open>
  C23. \<open>split_args\<close> finds the words of the line, the first 16 of them: each entry points to a terminated
  copy in the line itself, the entries behind are null, and neither an entry outside the 16 nor a byte outside the
  line is written.
\<close>

theorem split_args_words:
  assumes "is_str m p xs" and "p \<noteq> 0"
  shows "\<exists>av' m'. split_args p av m = Some (int (length (take 16 (words xs))), av', m') \<and>
    (\<forall>i < length (take 16 (words xs)). is_str m' (av' i) (words xs ! i) \<and> p \<le> av' i \<and>
       av' i + length (words xs ! i) \<le> p + length xs) \<and>
    (\<forall>i. length (take 16 (words xs)) \<le> i \<and> i < 16 \<longrightarrow> av' i = 0) \<and> (\<forall>i. 16 \<le> i \<longrightarrow> av' i = av i) \<and>
    (\<forall>a. a < p \<or> p + length xs < a \<longrightarrow> m' a = m a)"
  by (rule split_args_finds [OF assms, of av]) (auto simp: MAX_ARGS_def args_at_def)

theorem split_args_words_witness:
  "\<exists>av' m'. split_args 50 (\<lambda>_. 0) (placed (\<lambda>_. 0) 50 (str '' wc  & '')) = Some (2, av', m') \<and>
    is_str m' (av' 0) (str ''wc'') \<and> is_str m' (av' 1) (str ''&'')"
proof -
  have s: "is_str (placed (\<lambda>_. 0) 50 (str '' wc  & '')) 50 (str '' wc  & '')" by (simp add: str_def placed_def)
  have w: "words (str '' wc  & '') = [str ''wc'', str ''&'']" by (simp add: str_def words_Cons)
  have l: "length (take 16 [str ''wc'', str ''&'']) = 2" by simp
  from split_args_words [OF s, of "\<lambda>_. 0"] show ?thesis unfolding w l by (auto simp: less_2_cases_iff)
qed

text \<open>
  C24. For a line with a bar \<open>separate_cmds\<close> puts the words before the first one into the first array and
  those behind it into the second, ends both with a null pointer and writes no entry outside their 16, also when all
  16 arguments are there.
\<close>

theorem separate_cmds_parts:
  assumes "data_ok l m lo hi" and "holds_args m av (as @ str ''|'' # bs)" and "str ''|'' \<notin> set as"
  shows "\<exists>c1 c2. separate_cmds l av d1 d2 m = Some (c1, c2) \<and>
    (\<forall>i < length as. is_str m (c1 i) (as ! i)) \<and> c1 (length as) = 0 \<and>
    (\<forall>i < length bs. is_str m (c2 i) (bs ! i)) \<and> c2 (length bs) = 0 \<and>
    (\<forall>i. MAX_ARGS \<le> i \<longrightarrow> c1 i = d1 i \<and> c2 i = d2 i)"
  by (rule separate_cmds_splits [OF assms, of d1 d2]) blast

text \<open>
  C5. A line that was typed with any corrections and names an application is run as it reads: in one round the
  shell shows the prompt and the line, creates a process on that application with the words of the line as
  its arguments, in the foreground and on the terminal, waits for the pid it was given and is back at the prompt.
\<close>

theorem shell_runs_app:
  assumes keys: "answers u = map Value ks @ Value k # Value w # Value r # rest"
    and "ucast k = (10 :: byte)" and "\<forall>v \<in> set ks. ucast v \<noteq> (10 :: byte)"
    and line: "xs = fold (edit_key 256) (map ucast ks) []" and "length (words xs) \<le> 16"
    and "str ''|'' \<notin> set (words xs)" and "words xs \<noteq> []" and "i < length apps" and "hd (words xs) = commands ! (7 + i)"
    and "last (words xs) \<noteq> []" and "hd (last (words xs)) \<noteq> 38"
    and "p \<noteq> 0" and data: "data_ok l (umem u) p (p + 255)" and "0 < sint (ucast w :: 16 word)"
  shows "\<exists>u' cs. shell_round l p u = Some u' \<and> answers u' = rest \<and> shown cs [] = xs @ [10] \<and>
    calls u' = calls u @ Write 1 62 # cs @
      [Create_process (apps ! i) (map Some (words xs)) (int (length (words xs))) 1 False [0, 1, 2],
       Wait_process (sint (ucast w :: 16 word))]"
proof -
  have a: "answers (putchar 62 u) = map Value ks @ Value k # Value w # Value r # rest" using keys by simp
  obtain u1 cs where r: "read_line p (int 256) (putchar 62 u) = Some (int (length xs), u1)" "answers u1 = Value w # Value r # rest"
    "length xs < 256" "\<forall>i < length xs. umem u1 (p + i) = xs ! i" "umem u1 (p + length xs) = 0"
    "\<forall>a. a < p \<or> p + 256 \<le> a \<longrightarrow> umem u1 a = umem u a" "calls u1 = calls (putchar 62 u) @ cs" "shown cs [] = xs @ [10]"
    using read_line_text [OF a assms(2,3,12), of 256] unfolding line by auto
  have nz: "0 \<notin> set xs" unfolding line by (rule edited_nonzero) simp
  have s: "is_str (umem u1) p xs" by (rule is_strI) (use r(4,5) nz in auto)
  have "data_ok l (umem u1) p (p + 255)" by (rule data_ok_frame [OF data]) (use r(6) in auto)
  then have d: "data_ok l (umem u1) p (p + length xs)" using r(3) by (force simp: data_ok_def)
  have m: "length (words xs) \<le> MAX_ARGS" using assms(5) by (simp add: MAX_ARGS_def)
  from run_line_app [OF s assms(12) d m assms(6-11) r(2) assms(14)] obtain u' where u': "run_line l p u1 = Some u'" "answers u' = rest"
    "calls u' = calls u1 @ [Create_process (apps ! i) (map Some (words xs)) (int (length (words xs))) 1 False [0, 1, 2],
      Wait_process (sint (ucast w :: 16 word))]" by blast
  have "xs \<noteq> []" using assms(7) by auto
  then have "shell_round l p u = Some u'" using r(1) u'(1) by (simp add: shell_round_def MAX_CHARS_def)
  with u'(2,3) r(7,8) show ?thesis by auto
qed

text \<open>The program with its literals at 1000, 1020 and so on, and the line buffer at 100.\<close>

definition demo_literals :: "byte list list" where
  "demo_literals = str ''|'' # commands"

definition demo_layout :: layout where
  "demo_layout = \<lparr>literal = (\<lambda>s. 1000 + 20 * (length (takeWhile (\<lambda>t. t \<noteq> s) demo_literals))), behind = (\<lambda>_. 0),
     cmd1_at = 3000, cmd2_at = 3200, junk = (\<lambda>_. 0)\<rparr>"

definition demo_data :: bytes where
  "demo_data a = (let s = demo_literals ! ((a - 1000) div 20); i = (a - 1000) mod 20 in if i < length s then s ! i else 0)"

lemma takeWhile_index: "distinct xs \<Longrightarrow> k < length xs \<Longrightarrow> length (takeWhile (\<lambda>t. t \<noteq> xs ! k) xs) = k"
proof (induction xs arbitrary: k)
  case (Cons x xs)
  then show ?case by (cases k) auto
qed simp

lemma demo_literals_ok:
  "distinct demo_literals" "length demo_literals = 19" "list_all (\<lambda>s. length s < 20 \<and> 0 \<notin> set s) demo_literals"
  by (simp_all add: demo_literals_def commands_def str_def)

lemma demo_literal:
  assumes "s \<in> set demo_literals"
  shows "1000 \<le> literal demo_layout s \<and> is_str demo_data (literal demo_layout s) s"
proof -
  obtain k where k: "k < length demo_literals" "s = demo_literals ! k" using assms by (auto simp: in_set_conv_nth)
  have s: "length s < 20" "0 \<notin> set s" using demo_literals_ok(3) assms by (simp_all add: list_all_iff)
  have "literal demo_layout s = 1000 + 20 * k" using takeWhile_index [OF demo_literals_ok(1) k(1)] k(2) by (simp add: demo_layout_def)
  moreover have "is_str demo_data (1000 + 20 * k) s"
    by (rule is_strI) (use s k(2) in \<open>simp_all add: demo_data_def Let_def\<close>)
  ultimately show ?thesis by simp
qed

lemma demo_data_ok: "data_ok demo_layout demo_data 100 355"
  unfolding data_ok_def
proof
  fix s
  assume "s \<in> insert (str ''|'') (set commands)"
  then have "s \<in> set demo_literals" by (simp add: demo_literals_def)
  then show "literal demo_layout s \<noteq> 0 \<and> is_str demo_data (literal demo_layout s) s \<and>
      (literal demo_layout s + length s < 100 \<or> 355 < literal demo_layout s)" using demo_literal by fastforce
qed

theorem shell_runs_app_witness:
  "\<exists>u'. shell_round demo_layout 100 ((demo_user (map Value [119, 99, 120, 8, 10, 7, 0]))\<lparr>umem := demo_data\<rparr>) = Some u' \<and>
    last (calls u') = Wait_process 7"
proof -
  let ?u = "(demo_user (map Value [119, 99, 120, 8, 10, 7, 0]))\<lparr>umem := demo_data\<rparr>"
  have a: "answers ?u = map Value [119, 99, 120, 8] @ Value 10 # Value 7 # Value 0 # []" by (simp add: demo_user_def)
  have x: "str ''wc'' = fold (edit_key 256) (map ucast [119, 99, 120, 8 :: 64 word]) []" by (simp add: edit_key_def str_def)
  have w: "words (str ''wc'') = [str ''wc'']" by (simp add: str_def words_Cons)
  have c: "commands ! (7 + 4) = str ''wc''" by (simp add: commands_def)
  have e: "length apps = 6" by (simp add: apps_def)
  have d: "data_ok demo_layout (umem ?u) 100 (100 + 255)" using demo_data_ok by simp
  have "\<exists>u' cs. shell_round demo_layout 100 ?u = Some u' \<and> answers u' = [] \<and> shown cs [] = str ''wc'' @ [10] \<and>
    calls u' = calls ?u @ Write 1 62 # cs @ [Create_process (apps ! 4) (map Some (words (str ''wc'')))
      (int (length (words (str ''wc'')))) 1 False [0, 1, 2], Wait_process (sint (ucast (7 :: 64 word) :: 16 word))]"
    by (rule shell_runs_app [OF a _ _ x, where i = 4]) (use d in \<open>simp_all only: w c e\<close>, simp_all add: str_def)
  then show ?thesis by auto
qed

definition demo_line :: argv where
  "demo_line = (\<lambda>_. 0)(0 := literal demo_layout (str ''cat''), 1 := literal demo_layout (str ''|''),
     2 := literal demo_layout (str ''wc''))"

lemma demo_line_holds: "holds_args demo_data demo_line ([str ''cat''] @ str ''|'' # [str ''wc''])"
proof -
  have l: "{str ''cat'', str ''|'', str ''wc''} \<subseteq> set demo_literals" by (simp add: demo_literals_def commands_def)
  have "demo_line i \<noteq> 0 \<and> is_str demo_data (demo_line i) ([str ''cat'', str ''|'', str ''wc''] ! i)" if "i < 3" for i
  proof -
    from that consider "i = 0" | "i = 1" | "i = 2" by linarith
    then show ?thesis using demo_literal l by cases (force simp: demo_line_def)+
  qed
  then show ?thesis by (simp add: holds_args_def MAX_ARGS_def demo_line_def)
qed

theorem separate_cmds_parts_witness:
  "\<exists>c1 c2. separate_cmds demo_layout demo_line (\<lambda>_. 9) (\<lambda>_. 9) demo_data = Some (c1, c2) \<and>
     is_str demo_data (c1 0) (str ''cat'') \<and> c1 1 = 0 \<and> is_str demo_data (c2 0) (str ''wc'')"
proof -
  have "str ''|'' \<notin> set [str ''cat'']" by (simp add: str_def)
  from separate_cmds_parts [OF demo_data_ok demo_line_holds this, of "\<lambda>_. 9" "\<lambda>_. 9"] show ?thesis by fastforce
qed

end
