(* ===== verification/Whole_System.thy ===== *)
theory Whole_System
  imports Syscalls Shell
begin

text \<open>
  A program on the kernel: what a program asks for goes through the stubs of the userland's \<open>asm/syscalls.asm\<close> and the
  handler of \<open>Kernel/asm/interrupts.asm\<close> into \<open>syscallDispatcher\<close>, and the answers come from the kernel's model. Interrupts
  are off while a system call runs, and a process whose call does not have to wait keeps the processor.
\<close>

section \<open>The trap\<close>

text \<open>The registers that carry a call; the others are saved and restored around it.\<close>

record registers =
  rax :: "64 word"
  rdi :: "64 word"
  rsi :: "64 word"
  rdx :: "64 word"
  rcx :: "64 word"
  r8 :: "64 word"
  r9 :: "64 word"

primrec call_number :: "syscall \<Rightarrow> nat" where
  "call_number (Read fd) = 0"
| "call_number (Write fd c) = 1"
| "call_number Clear_screen = 2"
| "call_number (Set_font_size s) = 7"
| "call_number Get_ticks = 9"
| "call_number (Set_font_color c) = 11"
| "call_number Get_font_color = 12"
| "call_number (Mm_alloc n) = 13"
| "call_number (Mm_free a) = 14"
| "call_number Mm_info = 15"
| "call_number (Create_process e args n prio bg fds) = 16"
| "call_number Get_pid = 17"
| "call_number Process_info = 18"
| "call_number (Kill_process p) = 19"
| "call_number (Change_priority p n) = 20"
| "call_number (Block_process p) = 21"
| "call_number (Set_ready_process p) = 22"
| "call_number Yield = 23"
| "call_number (Wait_process p) = 24"
| "call_number Exit = 25"
| "call_number (Sleep s) = 26"
| "call_number (Sem_create i v) = 27"
| "call_number (Sem_open i) = 28"
| "call_number (Sem_wait i) = 29"
| "call_number (Sem_post i) = 30"
| "call_number (Sem_destroy i) = 31"
| "call_number Pipe_create = 32"
| "call_number (Pipe_read i n) = 33"
| "call_number (Pipe_write i bs) = 34"
| "call_number (Pipe_close i) = 35"

text \<open>A stub of \<open>syscalls.asm\<close> sets \<open>rax\<close> and traps.\<close>

definition stub :: "syscall \<Rightarrow> registers \<Rightarrow> registers" where
  "stub c g = g\<lparr>rax := of_nat (call_number c)\<rparr>"

text \<open>The moves of \<open>_syscallHandler\<close>: the first six arguments of the dispatcher are in registers, the last on the stack.\<close>

definition syscall_trap :: "nat \<Rightarrow> clock \<Rightarrow> registers \<Rightarrow> 'a machine_scheme \<Rightarrow> (activity \<times> 'a machine_scheme) option" where
  "syscall_trap r now g0 m =
     (let pushed = r9 g0;
          g = g0\<lparr>r9 := r8 g0\<rparr>;
          g = g\<lparr>r8 := rcx g\<rparr>;
          g = g\<lparr>rcx := rdx g\<rparr>;
          g = g\<lparr>rdx := rsi g\<rparr>;
          g = g\<lparr>rsi := rdi g\<rparr>;
          g = g\<lparr>rdi := rax g\<rparr>
      in syscallDispatcher (rdi g) r now
           (\<lambda>i. if i = 0 then rsi g else if i = 1 then rdx g else if i = 2 then rcx g else if i = 3 then r8 g
                else if i = 4 then r9 g else pushed) m)"

text \<open>What a call is meant to reach, by name, with the arguments where the calling convention puts them.\<close>

primrec meant :: "syscall \<Rightarrow> nat \<Rightarrow> clock \<Rightarrow> registers \<Rightarrow> 'a machine_scheme \<Rightarrow> (activity \<times> 'a machine_scheme) option" where
  "meant (Read fd) r now g m = syscall_read (ucast (rdi g)) m"
| "meant (Write fd c) r now g m = syscall_write (ucast (rdi g)) (ucast (rsi g)) m"
| "meant Clear_screen r now g m = returns 0 (on_video videoClear m)"
| "meant (Set_font_size s) r now g m = returns 0 (syscall_fontSize (ucast (rdi g)) m)"
| "meant Get_ticks r now g m = returns (ticksElapsed m) m"
| "meant (Set_font_color c) r now g m = returns 0 (syscall_setFontColor (ucast (rdi g)) (ucast (rsi g)) (ucast (rdx g)) m)"
| "meant Get_font_color r now g m = returns (ucast (syscall_getFontColor m)) m"
| "meant (Mm_alloc n) r now g m = Some (syscall_mm_alloc (rdi g) m)"
| "meant (Mm_free a) r now g m = returns 0 (syscall_mm_free (unat (rdi g)) m)"
| "meant Mm_info r now g m = returns 0 (syscall_mm_info (unat (rdi g)) m)"
| "meant (Create_process e args n prio bg fds) r now g m = syscall_create_process (rdi g) (unat (rsi g))
     (arg32 (rdx g)) (ucast (rcx g)) (ucast (r8 g)) (unat (r9 g)) m"
| "meant Get_pid r now g m = Option.bind (getPid m) (\<lambda>c. returns (word_of_int c) m)"
| "meant Process_info r now g m = syscall_process_info (unat (rdi g)) m"
| "meant (Kill_process p) r now g m = returning word_of_int (killProcess (arg16 (rdi g)) m)"
| "meant (Change_priority p n) r now g m = returning ret32 (changePriority (arg16 (rdi g)) (unat (ucast (rsi g) :: byte)) m)"
| "meant (Block_process p) r now g m = returning word_of_int (blockProcess (arg16 (rdi g)) r m)"
| "meant (Set_ready_process p) r now g m = returning word_of_int (setReadyProcess (arg16 (rdi g)) m)"
| "meant Yield r now g m = map_option (Pair (Finished 0)) (sys_yield r m)"
| "meant (Wait_process p) r now g m = returning ret32 (waitProcess (arg16 (rdi g)) r m)"
| "meant Exit r now g m = syscall_exit m"
| "meant (Sleep s) r now g m = Some (syscall_sleep (ucast (rdi g)) now, m)"
| "meant (Sem_create i v) r now g m = returning word_of_int (syscall_sem_init (arg32 (rdi g)) (ucast (rsi g)) m)"
| "meant (Sem_open i) r now g m = returning word_of_int (syscall_sem_open (arg32 (rdi g)) m)"
| "meant (Sem_wait i) r now g m = returning word_of_int (syscall_sem_wait (arg32 (rdi g)) r m)"
| "meant (Sem_post i) r now g m = returning word_of_int (syscall_sem_post (arg32 (rdi g)) m)"
| "meant (Sem_destroy i) r now g m = returning word_of_int (syscall_sem_close (arg32 (rdi g)) m)"
| "meant Pipe_create r now g m = returning word_of_int (createPipe m)"
| "meant (Pipe_read i n) r now g m = Some (syscall_pipe_read (arg32 (rdi g)) (unat (rsi g)) (arg32 (rdx g)) m, m)"
| "meant (Pipe_write i bs) r now g m = Some (syscall_pipe_write (arg32 (rdi g)) (unat (rsi g)) (arg32 (rdx g)) m, m)"
| "meant (Pipe_close i) r now g m = Some (Pipe_closing (Called (arg32 (rdi g))), m)"

lemma handler_call:
  "syscall_trap r now g m = syscallDispatcher (rax g) r now
     (\<lambda>i. if i = 0 then rdi g else if i = 1 then rsi g else if i = 2 then rdx g else if i = 3 then rcx g
        else if i = 4 then r8 g else r9 g) m"
  by (simp add: syscall_trap_def Let_def cong: if_cong)

lemma stub_reaches: "syscall_trap r now (stub c g) m = meant c r now g m"
proof -
  define a where "a = (\<lambda>i :: nat. if i = 0 then rdi g else if i = 1 then rsi g else if i = 2 then rdx g else if i = 3 then rcx g
        else if i = 4 then r8 g else r9 g)"
  have a: "a 0 = rdi g" "a 1 = rsi g" "a (Suc 0) = rsi g" "a 2 = rdx g" "a 3 = rcx g" "a 4 = r8 g" "a 5 = r9 g" by (simp_all add: a_def)
  have "syscall_trap r now (stub c g) m = syscallDispatcher (of_nat (call_number c)) r now a m"
    by (simp add: handler_call stub_def a_def cong: if_cong)
  then show ?thesis by (cases c) (simp_all add: syscallDispatcher_def SYSCALL_COUNT_def syscalls_def a)
qed

section \<open>Serving a program\<close>

text \<open>
  A call that does not wait for another process is carried on by its own: \<open>settle\<close>, with n steps at most. \<open>serve\<close> runs the
  kernel on the calls of a program, in order, and collects what it answers to those that return something. The
  program has the arguments in the registers \<open>abi\<close> gives for the call; of a register that holds a narrower argument
  the upper bits are anything.
\<close>

fun settle :: "nat \<Rightarrow> nat \<Rightarrow> clock \<Rightarrow> activity \<Rightarrow> 'a machine_scheme \<Rightarrow> (64 word \<times> 'a machine_scheme) option" where
  "settle 0 r now a m = (case a of Finished v \<Rightarrow> Some (v, m) | _ \<Rightarrow> None)"
| "settle (Suc n) r now a m = (case a of Finished v \<Rightarrow> Some (v, m)
     | _ \<Rightarrow> do { (a', m1) \<leftarrow> syscall_step r now a m; settle n r now a' m1 })"

definition passes :: "(syscall \<Rightarrow> registers) \<Rightarrow> bool" where
  "passes abi = (\<forall>fd c. ucast (rdi (abi (Read fd))) = (word_of_int fd :: 32 word) \<and>
     ucast (rdi (abi (Write fd c))) = (word_of_int fd :: 32 word) \<and> ucast (rsi (abi (Write fd c))) = c)"

definition is_void :: "syscall \<Rightarrow> bool" where
  "is_void c = (case c of Write fd x \<Rightarrow> True | Clear_screen \<Rightarrow> True | Set_font_size s \<Rightarrow> True | Set_font_color k \<Rightarrow> True
     | Mm_free a \<Rightarrow> True | Yield \<Rightarrow> True | Exit \<Rightarrow> True | Sleep s \<Rightarrow> True | _ \<Rightarrow> False)"

fun serve :: "nat \<Rightarrow> clock \<Rightarrow> (syscall \<Rightarrow> registers) \<Rightarrow> syscall list \<Rightarrow> 'a machine_scheme \<Rightarrow>
    (64 word list \<times> 'a machine_scheme) option" where
  "serve r now abi [] m = Some ([], m)"
| "serve r now abi (c # cs) m = do {
     (a, m1) \<leftarrow> syscall_trap r now (stub c (abi c)) m;
     (v, m2) \<leftarrow> settle 3 r now a m1;
     (vs, m3) \<leftarrow> serve r now abi cs m2;
     Some (if is_void c then vs else v # vs, m3) }"

lemma serve_append:
  "serve r now abi cs m = Some (vs, m1) \<Longrightarrow> serve r now abi ds m1 = Some (ws, m2) \<Longrightarrow>
   serve r now abi (cs @ ds) m = Some (vs @ ws, m2)"
  by (induction cs arbitrary: m vs) (auto simp: bind_eq_Some_conv split: if_splits)

text \<open>
  The running process is on a terminal: its standard input is the keyboard and its standard output the screen, nobody is
  blocked on the keyboard, and the keys ks wait.
\<close>

definition terminal :: "'a machine_scheme \<Rightarrow> byte list \<Rightarrow> bool" where
  "terminal m ks = (kb_ok m \<and> kb_keys m = ks \<and> quiet m KEYBOARD_SEM_ID (length ks) \<and> getFd 0 m = Some (int STDIN) \<and>
     getFd 1 m = Some (int STDOUT) \<and> video_ok (vid m))"

lemma getFd_view:
  assumes "sched_view k' = sched_view k"
  shows "getFd i k' = getFd i k"
  using sched_view_D(1,5,7) [OF assms] by (simp add: getFd_def)

lemma serve_write:
  assumes t: "terminal m ks" and "c \<noteq> 8" and "c \<noteq> - 1" and abi: "passes abi"
  shows "serve r now abi [Write 1 c] m = Some ([], m\<lparr>vid := printChar c (vid m)\<rparr>)"
    and "terminal (m\<lparr>vid := printChar c (vid m)\<rparr>) ks"
proof -
  have v: "video_ok (vid m)" and d: "getFd 1 m = Some (int STDOUT)" using t by (simp_all add: terminal_def)
  note p = printChar_ok [OF v assms(2)]
  have "fontColor (printChar c (vid m)) = fontColor (vid m)" using p by (simp add: draws_def)
  then have "on_video (setFontColor (getFontColor (vid m)) \<circ> printChar c) m = m\<lparr>vid := printChar c (vid m)\<rparr>"
    by (simp add: on_video_def setFontColor_def getFontColor_def)
  then have "syscall_write 1 c m = Some (Finished 0, m\<lparr>vid := printChar c (vid m)\<rparr>)"
    using d assms(3) by (simp add: syscall_write_def STDOUT_def STDERR_def)
  moreover have "ucast (rdi (abi (Write 1 c))) = (1 :: 32 word)" "ucast (rsi (abi (Write 1 c))) = c"
    using abi by (simp_all add: passes_def)
  ultimately show "serve r now abi [Write 1 c] m = Some ([], m\<lparr>vid := printChar c (vid m)\<rparr>)"
    by (simp add: stub_reaches is_void_def eval_nat_numeral)
  have "kb_ok (m\<lparr>vid := x\<rparr>) = kb_ok m \<and> kb_keys (m\<lparr>vid := x\<rparr>) = kb_keys m \<and> quiet (m\<lparr>vid := x\<rparr>) i n = quiet m i n \<and>
      getFd j (m\<lparr>vid := x\<rparr>) = getFd j m" for x i n j
    by (simp add: kb_ok_def kb_keys_def quiet_def sem_ok_def getFd_def)
  then show "terminal (m\<lparr>vid := printChar c (vid m)\<rparr>) ks" using t p by (simp add: terminal_def)
qed

section \<open>Keys\<close>

text \<open>The character a key is: the entry of the table that the shift key selects.\<close>

definition plain_key :: "byte \<Rightarrow> bool" where
  "plain_key key = (key \<noteq> LCTRL \<and> key \<noteq> LSHIFT \<and> charHexMap ! unat key \<noteq> 0)"

definition char_of_key :: "bool \<Rightarrow> byte \<Rightarrow> byte" where
  "char_of_key sh key = (if sh then charHexMapShift else charHexMap) ! unat key"

definition key_code_of :: "bool \<Rightarrow> byte \<Rightarrow> byte" where
  "key_code_of sh key = (if sh then SHIFTED OR key else key)"

lemma plain_key_code:
  assumes "plain_key key"
  shows "key AND RELEASED = 0" and "key_accepted (key_code_of sh key)"
    and "word_of_int (ascii_of (key_code_of sh key)) = char_of_key sh key"
proof -
  have "unat key < 256" using unsigned_less [of key] by simp
  then have "unat key < 64" using charHexMap_index [of "unat key"] assms by (simp add: plain_key_def charHexMapShift_def)
  note c = key_code [OF this]
  show "key AND RELEASED = 0" by (rule c(1))
  show "key_accepted (key_code_of sh key)" using c(2,3) assms by (simp add: key_accepted_def key_code_of_def plain_key_def)
  show "word_of_int (ascii_of (key_code_of sh key)) = char_of_key sh key"
    using c(4,5) by (simp add: key_code_of_def char_of_key_def)
qed

text \<open>The interrupt of a key that is typed ahead.\<close>

lemma press_key:
  assumes t: "terminal m ks" and "ctrl m = 0" and "length ks < 9" and "plain_key key"
  shows "\<exists>m'. irqDispatcher 1 key m = Some m' \<and> terminal m' (ks @ [key_code_of (shift m \<noteq> 0) key]) \<and> ctrl m' = 0 \<and>
    shift m' = shift m \<and> vid m' = vid m"
proof -
  let ?x = "key_code_of (shift m \<noteq> 0) key" and ?i = KEYBOARD_SEM_ID
  have ok: "kb_ok m" and ks: "kb_keys m = ks" and q0: "quiet m ?i (length ks)" using t by (simp_all add: terminal_def)
  have b: "bufferSize m = length ks" using ks kb_length [of m] by simp
  note code = plain_key_code [OF assms(4)]
  define k where "k = m\<lparr>key_buffer := (key_buffer m)(getBufferIndex (bufferSize m) m := ?x), bufferSize := bufferSize m + 1\<rparr>"
  have q: "quiet k ?i (length ks)" using q0 by (simp add: quiet_def sem_ok_def k_def)
  have n: "Suc (length ks) < 2 ^ 32" using assms(3) by simp
  note p = quiet_post [OF q n]
  let ?m = "update_sem ?i (counter_update (\<lambda>c. c + 1)) k"
  have room: "bufferSize m < BUFFER_CAPACITY - 1" using b assms(3) by (simp add: BUFFER_CAPACITY_def)
  have w: "writeKey ?x m = Some ?m" using code(2) p(1) by (simp add: writeKey_def k_def)
  have "keyboardHandler key m = Some ?m"
    using assms(2,4) code(1) room w by (simp add: keyboardHandler_def plain_key_def key_code_of_def split del: if_split)
  then have h: "irqDispatcher 1 key m = Some ?m" by (simp add: irqDispatcher_def)
  have a: "kb_ok ?m" "kb_keys ?m = ks @ [?x]" using writeKey_lemma [OF ok room w] code(2) ks by (simp_all add: kb_abs_def)
  have v: "vid ?m = vid m" "ctrl ?m = 0" "shift ?m = shift m" "sched_view ?m = sched_view m"
    using assms(2) by (simp_all add: update_sem_def k_def sched_view_def)
  have "terminal ?m (ks @ [?x])"
    using t a p(2) v(1) getFd_view [OF v(4)] by (simp add: terminal_def)
  with h v show ?thesis by blast
qed

fun type_keys :: "byte list \<Rightarrow> 'a machine_scheme \<Rightarrow> 'a machine_scheme option" where
  "type_keys [] m = Some m"
| "type_keys (k # ks) m = Option.bind (irqDispatcher 1 k m) (type_keys ks)"

lemma type_keys_ahead:
  assumes "terminal m ks" and "ctrl m = 0" and "length ks + length keys \<le> 9" and "\<forall>k \<in> set keys. plain_key k"
  shows "\<exists>m'. type_keys keys m = Some m' \<and> terminal m' (ks @ map (key_code_of (shift m \<noteq> 0)) keys) \<and> vid m' = vid m"
  using assms
proof (induction keys arbitrary: m ks)
  case (Cons k keys)
  have l: "length ks < 9" and k: "plain_key k" using Cons.prems(3,4) by simp_all
  from press_key [OF Cons.prems(1,2) l k] obtain m1 where m1: "irqDispatcher 1 k m = Some m1"
    "terminal m1 (ks @ [key_code_of (shift m \<noteq> 0) k])" "ctrl m1 = 0" "shift m1 = shift m" "vid m1 = vid m" by blast
  from Cons.IH [OF m1(2,3)] Cons.prems(3,4) m1(4) obtain m2 where "type_keys keys m1 = Some m2"
    "terminal m2 (ks @ [key_code_of (shift m \<noteq> 0) k] @ map (key_code_of (shift m \<noteq> 0)) keys)" "vid m2 = vid m1" by auto
  then show ?case using m1 by simp
qed simp

lemma serve_read:
  assumes t: "terminal m (x # xs)" and abi: "passes abi"
  shows "\<exists>m'. serve r now abi [Read 0] m = Some ([ucast (word_of_int (ascii_of x) :: byte)], m') \<and> terminal m' xs \<and> vid m' = vid m"
proof -
  let ?i = KEYBOARD_SEM_ID
  have ok: "kb_ok m" and ks: "kb_keys m = x # xs" and q: "quiet m ?i (Suc (length xs))" and d: "getFd 0 m = Some (int STDIN)"
    using t by (simp_all add: terminal_def)
  note w = quiet_wait [OF q]
  define m1 where "m1 = update_sem ?i (counter_update (\<lambda>c. c - 1)) m"
  have same: "bufferStart m1 = bufferStart m" "bufferSize m1 = bufferSize m" "key_buffer m1 = key_buffer m" "vid m1 = vid m"
    "sched_view m1 = sched_view m"
    by (simp_all add: m1_def update_sem_def sched_view_def)
  have ok1: "kb_ok m1" and ks1: "kb_keys m1 = x # xs" using ok ks same by (simp_all add: kb_ok_def kb_keys_def)
  obtain c m2 where g: "getScancode m1 = (c, m2)" by force
  have m2: "c = x" "kb_ok m2" "kb_keys m2 = xs" using getScancode_lemma(1,2) [OF ok1 g] ks1 by simp_all
  have "bufferSize m1 > 0" using ks1 kb_length [of m1] by simp
  then have e: "m2 = m1\<lparr>bufferStart := getBufferIndex 1 m1, bufferSize := bufferSize m1 - 1\<rparr>"
    using g by (simp add: getScancode_def)
  have v: "vid m2 = vid m" "sched_view m2 = sched_view m" using same by (simp_all add: e sched_view_def)
  have "quiet m2 ?i (length xs)" using w(2) by (simp add: e quiet_def sem_ok_def m1_def)
  then have t2: "terminal m2 xs" using t m2 v(1) getFd_view [OF v(2)] by (simp add: terminal_def)
  have "syscall_read 0 m = Some (Asking_key AskKey, m)" using d by (simp add: syscall_read_def STDIN_def)
  moreover have "settle 3 r now (Asking_key AskKey) m = Some (ucast (word_of_int (ascii_of x) :: byte), m2)"
    using w(1) [of r] g m2(1) by (simp add: numeral_3_eq_3 getAscii_step_def m1_def)
  moreover have "ucast (rdi (abi (Read 0))) = (0 :: 32 word)" using abi by (simp add: passes_def)
  ultimately have "serve r now abi [Read 0] m = Some ([ucast (word_of_int (ascii_of x) :: byte)], m2)"
    by (simp add: stub_reaches is_void_def del: settle.simps)
  with t2 v(1) show ?thesis by blast
qed

section \<open>Properties\<close>


text \<open>What is printed reaches the screen.\<close>

lemma serve_writes:
  assumes "terminal m ks" and "8 \<notin> set xs" and "- 1 \<notin> set xs" and abi: "passes abi"
  shows "serve r now abi (map (Write 1) xs) m = Some ([], m\<lparr>vid := print_text xs (vid m)\<rparr>) \<and>
    terminal (m\<lparr>vid := print_text xs (vid m)\<rparr>) ks"
  using assms(1-3)
proof (induction xs arbitrary: m)
  case (Cons x xs)
  have x: "x \<noteq> 8" "x \<noteq> - 1" and xs: "8 \<notin> set xs" "- 1 \<notin> set xs" using Cons.prems(2,3) by auto
  note one = serve_write [OF Cons.prems(1) x abi]
  note rest = Cons.IH [OF one(2) xs]
  have "serve r now abi ([Write 1 x] @ map (Write 1) xs) m = Some ([] @ [], (m\<lparr>vid := printChar x (vid m)\<rparr>)
      \<lparr>vid := print_text xs (vid (m\<lparr>vid := printChar x (vid m)\<rparr>))\<rparr>)"
    using serve_append [OF one(1) conjunct1 [OF rest]] .
  then show ?case using rest by (simp add: print_text_def)
qed (simp add: print_text_def)

text \<open>
  C6. What a program prints is what the screen shows: for a format and arguments of the kinds it names,
  the system calls \<open>printf\<close> makes, run by the kernel for a process on the terminal, all return and leave on
  the screen the rendered text, printed behind what was there; nothing else of the machine changes, and of its memory only the frame
  buffer.
\<close>

theorem printf_on_screen:
  assumes "0 \<notin> set fmt" and "list_all2 arg_is args items" and "render fmt items = Some out"
    and "8 \<notin> set out" and "- 1 \<notin> set out" and t: "terminal m ks" and abi: "passes abi"
  shows "\<exists>u' cs. User_IO.printf fmt args u = Some u' \<and> calls u' = calls u @ cs \<and>
    serve r now abi cs m = Some ([], m\<lparr>vid := print_text out (vid m)\<rparr>) \<and>
    (\<forall>a. a \<notin> on_screen (vid m) \<longrightarrow> vmem (print_text out (vid m)) a = vmem (vid m) a)"
proof -
  have "User_IO.printf fmt args u = Some (say out u)" using assms(1-3) by (rule printf_renders)
  moreover have "calls (say out u) = calls u @ map (Write 1) out" by simp
  moreover have "video_ok (vid m)" using t by (simp add: terminal_def)
  note p = print_text_ok [OF this assms(4)]
  ultimately show ?thesis using serve_writes [OF t assms(4,5) abi] p by (auto simp: draws_def)
qed

text \<open>The calls of \<open>read_line\<close> on a line without corrections: each character is read and echoed.\<close>

definition echo :: "byte list \<Rightarrow> syscall list" where
  "echo xs = concat (map (\<lambda>x. [Read 0, Write 1 x]) xs)"

definition plain_char :: "byte \<Rightarrow> bool" where
  "plain_char x = (x \<notin> {0, 8, 10, 0xFF})"

lemma byte_there_and_back: "ucast (ucast x :: 64 word) = (x :: byte)"
  by transfer simp

lemma uint_other: "(x :: byte) \<noteq> word_of_int i \<Longrightarrow> uint x \<noteq> i"
  by auto

lemma getchar_plain:
  "answers u = Value (ucast (x :: byte)) # as \<Longrightarrow> x \<noteq> 0xFF \<Longrightarrow> getchar u = Some (uint x, tell (Read 0) (u\<lparr>answers := as\<rparr>))"
  by (simp add: getchar_Value byte_there_and_back)

lemma read_loop_plain:
  assumes "answers u = map (Value \<circ> ucast) xs @ Value (ucast (10 :: byte)) # rest" and "\<forall>x \<in> set xs. plain_char x"
    and "int i + int (length xs) < maxlen"
  shows "\<exists>u'. read_loop dst maxlen (int i) u = Some (int (i + length xs), u') \<and>
    calls u' = calls u @ echo xs @ [Read 0, Write 1 10]"
  using assms
proof (induction xs arbitrary: u i)
  case Nil
  have "getchar u = Some (10, tell (Read 0) (u\<lparr>answers := rest\<rparr>))" using getchar_plain [of u 10] Nil by simp
  then show ?case by (subst read_loop.simps) (simp add: echo_def)
next
  case (Cons x xs)
  let ?u = "tell (Read 0) (u\<lparr>answers := map (Value \<circ> ucast) xs @ Value (ucast (10 :: byte)) # rest\<rparr>)"
  let ?v = "putchar x (?u\<lparr>umem := (umem ?u)(dst + i := x)\<rparr>)"
  have x: "x \<noteq> 0" "x \<noteq> 8" "x \<noteq> 10" "x \<noteq> 0xFF" using Cons.prems(2) by (simp_all add: plain_char_def)
  have g: "getchar u = Some (uint x, ?u)" using getchar_plain [OF _ x(4), of u] Cons.prems(1) by simp
  have lt: "int i < maxlen - 1" using Cons.prems(3) by simp
  have ne: "uint x \<noteq> 0" "uint x \<noteq> 10" "uint x \<noteq> 8" by (rule uint_other, use x in simp)+
  have step: "read_loop dst maxlen (int i) u = read_loop dst maxlen (int i + 1) ?v"
    by (subst read_loop.simps) (use lt in \<open>simp add: g ne\<close>)
  have "\<exists>u'. read_loop dst maxlen (int (i + 1)) ?v = Some (int (i + 1 + length xs), u') \<and>
      calls u' = calls ?v @ echo xs @ [Read 0, Write 1 10]"
    by (rule Cons.IH) (use Cons.prems in simp_all)
  then obtain u' where u': "read_loop dst maxlen (int (i + 1)) ?v = Some (int (i + 1 + length xs), u')"
    "calls u' = calls ?v @ echo xs @ [Read 0, Write 1 10]" by blast
  have e: "int (i + 1) = int i + 1" "i + 1 + length xs = i + length (x # xs)" by simp_all
  have "read_loop dst maxlen (int i) u = Some (int (i + length (x # xs)), u')"
    using u'(1) unfolding step e .
  with u'(2) show ?case by (simp add: echo_def)
qed

lemma read_line_plain:
  assumes "answers u = map (Value \<circ> ucast) xs @ Value (ucast (10 :: byte)) # rest" and "\<forall>x \<in> set xs. plain_char x"
    and "length xs < n" and "1 < n" and "dst \<noteq> 0" and "read_line dst (int n) u = Some (l, u')"
  shows "calls u' = calls u @ echo xs @ [Read 0, Write 1 10]"
proof -
  have "int 0 + int (length xs) < int n" using assms(3) by simp
  from read_loop_plain [OF assms(1,2) this, of dst] obtain u1 where
    "read_loop dst (int n) 0 u = Some (int (length xs), u1)" "calls u1 = calls u @ echo xs @ [Read 0, Write 1 10]" by auto
  then show ?thesis using assms(4-6) by (auto simp: read_line_def)
qed

lemma edit_plain:
  "\<forall>x \<in> set xs. plain_char x \<Longrightarrow> length ys + length xs < n \<Longrightarrow> fold (edit_key n) xs ys = ys @ xs"
  by (induction xs arbitrary: ys) (simp_all add: edit_key_def plain_char_def)

lemma serve_echo:
  assumes "terminal m (map (key_code_of sh) keys @ ks)" and abi: "passes abi"
    and "\<forall>k \<in> set keys. plain_key k \<and> plain_char (char_of_key sh k)"
  shows "\<exists>m'. serve r now abi (echo (map (char_of_key sh) keys)) m = Some (map (ucast \<circ> char_of_key sh) keys, m') \<and>
    terminal m' ks \<and> vid m' = print_text (map (char_of_key sh) keys) (vid m)"
  using assms(1,3)
proof (induction keys arbitrary: m)
  case (Cons k keys)
  let ?x = "char_of_key sh k"
  have k: "plain_key k" "?x \<noteq> 8" "?x \<noteq> - 1" using Cons.prems(2) by (auto simp: plain_char_def)
  have "terminal m (key_code_of sh k # (map (key_code_of sh) keys @ ks))" using Cons.prems(1) by simp
  from serve_read [OF this abi, of r now] plain_key_code(3) [OF k(1), of sh] obtain m1 where
    r1: "serve r now abi [Read 0] m = Some ([ucast ?x], m1)" and t1: "terminal m1 (map (key_code_of sh) keys @ ks)"
    and v1: "vid m1 = vid m" by auto
  note w1 = serve_write(1) [OF t1 k(2,3) abi, of r now] serve_write(2) [OF t1 k(2,3) abi]
  let ?m2 = "m1\<lparr>vid := printChar ?x (vid m1)\<rparr>"
  from Cons.IH [OF w1(2)] Cons.prems(2) obtain m3 where
    r3: "serve r now abi (echo (map (char_of_key sh) keys)) ?m2 = Some (map (ucast \<circ> char_of_key sh) keys, m3)"
    and t3: "terminal m3 ks" and v3: "vid m3 = print_text (map (char_of_key sh) keys) (vid ?m2)" by auto
  from serve_append [OF serve_append [OF r1 w1(1)] r3] t3 v3 v1 show ?case
    by (simp add: echo_def print_text_def)
qed (simp add: echo_def print_text_def)

definition ENTER_KEY :: byte where "ENTER_KEY = 28"

lemma enter_key: "plain_key ENTER_KEY" "char_of_key sh ENTER_KEY = 10"
  by (simp_all add: plain_key_def ENTER_KEY_def char_of_key_def LCTRL_def LSHIFT_def charHexMap_def charHexMapShift_def nth_append)

text \<open>
  C2. A line typed at the keyboard is the line the program gets and the line the screen shows. With up to eight
  character keys and the enter key pressed while nobody waits for them, each key passes through its interrupt, the ring buffer and
  the semaphore; \<open>read_line\<close>, its system calls run by the kernel one after the other, returns the characters the keyboard table
  has for the keys, terminated in the program's buffer; the screen has them and the newline printed behind what was there, and no key is left.
\<close>

theorem typed_line_read:
  fixes m :: "'a machine_scheme"
  assumes t: "terminal m []" and "ctrl m = 0" and keys: "\<forall>k \<in> set keys. plain_key k \<and> plain_char (char_of_key (shift m \<noteq> 0) k)"
    and "length keys \<le> 8" and n: "length keys < n" "1 < n" and dst: "dst \<noteq> 0" and abi: "passes abi"
  defines "xs \<equiv> map (char_of_key (shift m \<noteq> 0)) keys"
  shows "\<exists>m1 m2 vs u' cs. type_keys (keys @ [ENTER_KEY]) m = Some m1 \<and>
    read_line dst (int n) (u\<lparr>answers := map Value vs @ rest\<rparr>) = Some (int (length xs), u') \<and> answers u' = rest \<and>
    (\<forall>i < length xs. umem u' (dst + i) = xs ! i) \<and> umem u' (dst + length xs) = 0 \<and>
    calls u' = calls u @ cs \<and> serve r now abi cs m1 = Some (vs, m2) \<and>
    terminal m2 [] \<and> vid m2 = print_text (xs @ [10]) (vid m)"
proof -
  let ?sh = "shift m \<noteq> 0" and ?vs = "map ucast xs @ [ucast (10 :: byte)] :: 64 word list"
  have "length [] + length (keys @ [ENTER_KEY]) \<le> 9" "\<forall>k \<in> set (keys @ [ENTER_KEY]). plain_key k"
    using assms(4) keys enter_key(1) by auto
  from type_keys_ahead [OF t assms(2) this] obtain m1 where m1: "type_keys (keys @ [ENTER_KEY]) m = Some m1"
    "terminal m1 (map (key_code_of ?sh) keys @ [key_code_of ?sh ENTER_KEY])" "vid m1 = vid m" by auto
  from serve_echo [OF m1(2) abi keys, of r now] obtain m2 where m2: "serve r now abi (echo xs) m1 = Some (map ucast xs, m2)"
    "terminal m2 [key_code_of ?sh ENTER_KEY]" "vid m2 = print_text xs (vid m1)" by (auto simp: xs_def)
  from serve_read [OF m2(2) abi, of r now] plain_key_code(3) [OF enter_key(1), of ?sh] obtain m3 where
    m3: "serve r now abi [Read 0] m2 = Some ([ucast (10 :: byte)], m3)" "terminal m3 []" "vid m3 = vid m2"
    by (auto simp: enter_key)
  have nl: "(10 :: byte) \<noteq> 8" "(10 :: byte) \<noteq> - 1" by simp_all
  note w = serve_write(1) [OF m3(2) nl abi, of r now] serve_write(2) [OF m3(2) nl abi]
  have served: "serve r now abi (echo xs @ [Read 0, Write 1 10]) m1 = Some (?vs, m3\<lparr>vid := printChar 10 (vid m3)\<rparr>)"
    using serve_append [OF m2(1) serve_append [OF m3(1) w(1)]] by simp
  let ?u = "u\<lparr>answers := map Value ?vs @ rest\<rparr>"
  have pc: "\<forall>x \<in> set xs. plain_char x" and len: "length xs < n" using keys n by (auto simp: xs_def)
  have a: "answers ?u = map Value (map ucast xs) @ Value (ucast (10 :: byte)) # rest" by simp
  have nn: "\<forall>v \<in> set (map ucast xs). ucast (v :: 64 word) \<noteq> (10 :: byte)" using pc by (auto simp: byte_there_and_back plain_char_def)
  have ed: "fold (edit_key n) (map ucast (map ucast xs :: 64 word list)) [] = xs"
    using edit_plain [OF pc, of "[]" n] len by (simp add: comp_def byte_there_and_back)
  from read_line_text [OF a byte_there_and_back nn dst n(2)] obtain u' where
    u': "read_line dst (int n) ?u = Some (int (length xs), u')" "answers u' = rest" "\<forall>i < length xs. umem u' (dst + i) = xs ! i"
    "umem u' (dst + length xs) = 0" unfolding ed by blast
  have "calls u' = calls u @ echo xs @ [Read 0, Write 1 10]"
    using read_line_plain [OF _ pc len n(2) dst u'(1)] by simp
  with m1(1) u' served w(2) m1(3) m2(3) m3(3) show ?thesis by (intro exI conjI) (auto simp: print_text_append print_text_def)
qed

section \<open>Concrete runs\<close>

definition demo_abi :: "syscall \<Rightarrow> registers" where
  "demo_abi c = (let z = \<lparr>rax = 0, rdi = 0, rsi = 0, rdx = 0, rcx = 0, r8 = 0, r9 = 0\<rparr> in case c of
     Read fd \<Rightarrow> z\<lparr>rdi := word_of_int fd\<rparr> | Write fd x \<Rightarrow> z\<lparr>rdi := word_of_int fd, rsi := ucast x\<rparr> | _ \<Rightarrow> z)"

lemma narrow: "ucast (word_of_int i :: 64 word) = (word_of_int i :: 32 word)"
  by transfer simp

lemma demo_passes: "passes demo_abi"
  by (simp add: passes_def demo_abi_def Let_def narrow byte_there_and_back)

lemma demo_machine_fields:
  "bufferStart (demo_machine ks) = 0" "bufferSize (demo_machine ks) = length ks" "ctrl (demo_machine ks) = 0" "shift (demo_machine ks) = 0"
  "semManager (demo_machine ks) = 500" "semaphores (demo_machine ks) = semaphores (demo_keys (length ks) ks 0)"
  "vid (demo_machine ks) = demo_video" "sched_view (demo_machine ks) = sched_view demo_kernel"
proof -
  show "sched_view (demo_machine ks) = sched_view demo_kernel"
    using demo_keys_view [of "length ks" ks 0] by (simp add: sched_view_def demo_machine_def machine.defs kb_kernel.defs)
qed (simp_all add: demo_machine_def machine.defs kb_kernel.defs demo_keys_fields)

lemma demo_terminal: "terminal (demo_machine []) []"
proof -
  note f = demo_machine_fields [of "[]"]
  have "kb_keys (demo_machine []) = []" by (simp add: kb_keys_def ring_def f)
  moreover from this have "kb_ok (demo_machine [])" by (simp add: kb_ok_def f BUFFER_CAPACITY_def)
  moreover have "quiet (demo_machine []) KEYBOARD_SEM_ID 0"
    by (simp add: quiet_def sem_ok_def f demo_keys_fields KEYBOARD_SEM_ID_def isValidSemId_def NUM_SEMS_def)
  moreover have "scheduler (demo_machine []) = 10" "procs (demo_machine []) = procs demo_kernel" "currentProcess (demo_machine []) = 200"
    using f(8) by (simp_all add: sched_view_def demo_kernel_def)
  then have "getFd 0 (demo_machine []) = Some 0 \<and> getFd 1 (demo_machine []) = Some 1"
    by (simp add: getFd_def deref_def demo_procs demo_pcb_def CANT_FILE_DESCRIPTORS_def)
  ultimately show ?thesis by (simp add: terminal_def f demo_video_ok STDIN_def STDOUT_def)
qed

theorem printf_on_screen_witness:
  "\<exists>u' cs. User_IO.printf (str ''%2d'') [Word 7] (demo_user []) = Some u' \<and> calls u' = cs \<and>
     serve 0 (0, 0, 0) demo_abi cs (demo_machine []) = Some ([], (demo_machine [])\<lparr>vid := print_text (str ''07'') demo_video\<rparr>)"
proof -
  have "0 \<notin> set (str ''%2d'')" "8 \<notin> set (str ''07'')" "- 1 \<notin> set (str ''07'')" by (simp_all add: str_def)
  moreover have "list_all2 arg_is [Word 7] [Num 7]" by simp
  moreover have d: "digits 10 (unat (7 :: 64 word)) = [7]" by (simp add: digits.simps)
  have pad: "replicate (nat (2 - int (length [7 :: nat]))) (48 :: byte) = [48]" by simp
  have "number 10 2 7 = str ''07''" unfolding number_def d Let_def pad by (simp add: digit_char_def str_def)
  then have "render (str ''%2d'') [Num 7] = Some (str ''07'')"
    by (simp add: str_def width_def dec_value_def digit_val_def isNumber_def render_item.simps)
  ultimately have "\<exists>u' cs. User_IO.printf (str ''%2d'') [Word 7] (demo_user []) = Some u' \<and> calls u' = calls (demo_user []) @ cs \<and>
     serve 0 (0, 0, 0) demo_abi cs (demo_machine []) =
       Some ([], (demo_machine [])\<lparr>vid := print_text (str ''07'') (vid (demo_machine []))\<rparr>)"
    using printf_on_screen [OF _ _ _ _ _ demo_terminal demo_passes, of "str ''%2d''" "[Word 7]" "[Num 7]" "str ''07''"] by blast
  then show ?thesis by (simp add: demo_machine_fields) (simp add: demo_user_def)
qed

theorem typed_line_read_witness:
  "\<exists>m1 m2 vs u'. type_keys [30, 48, ENTER_KEY] (demo_machine []) = Some m1 \<and>
     read_line 64 (int 4) ((demo_user [])\<lparr>answers := map Value vs\<rparr>) = Some (2, u') \<and> umem u' 64 = 97 \<and> umem u' 65 = 98 \<and> umem u' 66 = 0 \<and>
     serve 0 (0, 0, 0) demo_abi (calls u') m1 = Some (vs, m2) \<and> vid m2 = print_text (str ''ab'' @ [10]) demo_video"
proof -
  have k: "\<forall>k \<in> set [30, 48]. plain_key k \<and> plain_char (char_of_key (shift (demo_machine []) \<noteq> 0) k)"
    by (simp add: plain_key_def plain_char_def char_of_key_def demo_machine_fields LCTRL_def LSHIFT_def charHexMap_def nth_append)
  have xs: "map (char_of_key (shift (demo_machine []) \<noteq> 0)) [30, 48] = str ''ab''"
    by (simp add: char_of_key_def demo_machine_fields charHexMap_def nth_append str_def)
  have c: "ctrl (demo_machine []) = 0" "length [30, 48 :: byte] \<le> 8" "length [30, 48 :: byte] < 4" "(1 :: nat) < 4" "(64 :: nat) \<noteq> 0"
    by (simp_all add: demo_machine_fields)
  have l: "length (str ''ab'') = 2" "str ''ab'' ! 0 = 97" "str ''ab'' ! 1 = 98" "calls (demo_user []) = []"
    by (simp_all add: str_def demo_user_def)
  obtain m1 m2 vs u' cs where r: "type_keys ([30, 48] @ [ENTER_KEY]) (demo_machine []) = Some m1"
    "read_line 64 (int 4) ((demo_user [])\<lparr>answers := map Value vs @ []\<rparr>) = Some (int 2, u')"
    "\<forall>i < 2. umem u' (64 + i) = str ''ab'' ! i" "umem u' (64 + 2) = 0" "calls u' = calls (demo_user []) @ cs"
    "serve 0 (0, 0, 0) demo_abi cs m1 = Some (vs, m2)" "vid m2 = print_text (str ''ab'' @ [10]) (vid (demo_machine []))"
    using typed_line_read [OF demo_terminal c(1) k c(2-5) demo_passes, of "[]" "demo_user []" 0 "(0, 0, 0)"] unfolding xs l(1) by blast
  have "umem u' 64 = 97" "umem u' 65 = 98" using r(3) [rule_format, of 0] r(3) [rule_format, of 1] l by simp_all
  then show ?thesis using r by (intro exI [of _ m1] exI [of _ m2] exI [of _ vs] exI [of _ u']) (simp add: l demo_machine_fields)
qed

end
