(* ===== verification/Sync_Test.thy ===== *)
theory Sync_Test
  imports Semaphores
begin

text \<open>
  \<open>Userland/SampleCodeModule/tests/test_sync.c\<close>: four processes that each add to one shared variable n times, two of them -1
  and two 1, with or without a semaphore. A process is what it does next; the timer may switch between any two of the steps, not
  only at the yield. The semaphore is the abstract one that \<open>sem_wait\<close> and \<open>sem_post\<close> refine (\<open>Semaphores\<close>), with all
  waiters alive: a process either takes a unit or joins the queue and is let in by a post.
\<close>

section \<open>The workers\<close>

definition TOTAL_PAIR_PROCESSES :: nat where "TOTAL_PAIR_PROCESSES = 2"

datatype worker_pc = At_loop | At_wait | Queued | At_read | At_write "64 word" | At_post | Finished

record worker =
  w_pc :: worker_pc
  turns :: nat
  inc :: "64 word"

record sync =
  shared :: "64 word"
  sem :: "32 word \<times> int list"
  workers :: "int \<Rightarrow> worker"

definition set_worker :: "int \<Rightarrow> (worker \<Rightarrow> worker) \<Rightarrow> sync \<Rightarrow> sync" where
  "set_worker p f s = s\<lparr>workers := (workers s)(p := f (workers s p))\<rparr>"

text \<open>
  One step of \<open>my_process_inc\<close> with its argument n. \<open>slowInc\<close> is the two steps \<open>At_read\<close> and \<open>At_write\<close>, which has the value
  read; the one that posts hands its unit to the first in the queue, who goes on behind its \<open>sem_wait\<close>.
\<close>

definition worker_step :: "bool \<Rightarrow> nat \<Rightarrow> int \<Rightarrow> sync \<Rightarrow> sync option" where
  "worker_step use_sem n p s = (let w = workers s p; go = (\<lambda>c. set_worker p (w_pc_update (\<lambda>_. c))) in
     case w_pc w of
       At_loop \<Rightarrow> Some (go (if turns w < n then (if use_sem then At_wait else At_read) else Finished) s)
     | At_wait \<Rightarrow> Some (go (if fst (sem s) \<noteq> 0 then At_read else Queued) (s\<lparr>sem := asem_wait p (sem s)\<rparr>))
     | At_read \<Rightarrow> Some (go (At_write (shared s)) s)
     | At_write aux \<Rightarrow>
         (let s1 = s\<lparr>shared := aux + inc w\<rparr> in
          Some (if use_sem then go At_post s1 else set_worker p (turns_update Suc) (go At_loop s1)))
     | At_post \<Rightarrow>
         (let s1 = set_worker p (turns_update Suc) (go At_loop (s\<lparr>sem := asem_post (\<lambda>_. True) (sem s)\<rparr>)) in
          Some (case snd (sem s) of [] \<Rightarrow> s1 | c # cs \<Rightarrow> set_worker c (w_pc_update (\<lambda>_. At_read)) s1))
     | _ \<Rightarrow> None)"

inductive sync_step :: "bool \<Rightarrow> nat \<Rightarrow> int set \<Rightarrow> sync \<Rightarrow> sync \<Rightarrow> bool" for use_sem n P where
  "p \<in> P \<Longrightarrow> worker_step use_sem n p s = Some s' \<Longrightarrow> sync_step use_sem n P s s'"

text \<open>The state \<open>test_sync\<close> starts the workers in: the pids of those that decrement and of those that increment.\<close>

definition sync_start :: "int set \<Rightarrow> sync" where
  "sync_start dec = \<lparr>shared = 0, sem = (1, []), workers = (\<lambda>p. \<lparr>w_pc = At_loop, turns = 0, inc = (if p \<in> dec then - 1 else 1)\<rparr>)\<rparr>"

section \<open>With the semaphore\<close>

definition inside :: "worker_pc \<Rightarrow> bool" where
  "inside c = (case c of At_read \<Rightarrow> True | At_write aux \<Rightarrow> True | At_post \<Rightarrow> True | _ \<Rightarrow> False)"

text \<open>The additions a worker has made.\<close>

definition added :: "worker \<Rightarrow> nat" where
  "added w = turns w + (if w_pc w = At_post then 1 else 0)"

definition worker_ok :: "nat \<Rightarrow> 64 word \<Rightarrow> worker \<Rightarrow> bool" where
  "worker_ok n v w = (turns w \<le> n \<and> (case w_pc w of At_loop \<Rightarrow> True | Finished \<Rightarrow> turns w = n
     | At_write aux \<Rightarrow> turns w < n \<and> aux = v | _ \<Rightarrow> turns w < n))"

definition total :: "int set \<Rightarrow> (int \<Rightarrow> worker) \<Rightarrow> 64 word" where
  "total P ws = (\<Sum>p \<in> P. of_nat (added (ws p)) * inc (ws p))"

text \<open>At most one process is inside, and it is the one that has the unit.\<close>

definition sync_inv :: "nat \<Rightarrow> int set \<Rightarrow> (int \<Rightarrow> 64 word) \<Rightarrow> sync \<Rightarrow> bool" where
  "sync_inv n P i s = (
     (fst (sem s) = 1 \<and> snd (sem s) = [] \<and> (\<forall>p \<in> P. \<not> inside (w_pc (workers s p))) \<or>
      fst (sem s) = 0 \<and> (\<exists>p \<in> P. inside (w_pc (workers s p)) \<and> (\<forall>q \<in> P. inside (w_pc (workers s q)) \<longrightarrow> q = p))) \<and>
     distinct (snd (sem s)) \<and> set (snd (sem s)) = {p \<in> P. w_pc (workers s p) = Queued} \<and>
     (\<forall>p \<in> P. worker_ok n (shared s) (workers s p) \<and> inc (workers s p) = i p) \<and>
     shared s = total P (workers s))"

lemma total_update:
  assumes "finite P" and "p \<in> P"
  shows "total P (ws(p := w)) = total P ws - of_nat (added (ws p)) * inc (ws p) + of_nat (added w) * inc w"
proof -
  have "(\<Sum>q \<in> P - {p}. of_nat (added ((ws(p := w)) q)) * inc ((ws(p := w)) q)) = (\<Sum>q \<in> P - {p}. of_nat (added (ws q)) * inc (ws q))"
    by (rule sum.cong) auto
  then show ?thesis using sum.remove [OF assms, of "\<lambda>q. of_nat (added ((ws(p := w)) q)) * inc ((ws(p := w)) q)"]
    sum.remove [OF assms, of "\<lambda>q. of_nat (added (ws q)) * inc (ws q)"] by (simp add: total_def)
qed

lemma sync_invD:
  assumes "sync_inv n P i s"
  shows "\<And>p. p \<in> P \<Longrightarrow> worker_ok n (shared s) (workers s p)" and "\<And>p. p \<in> P \<Longrightarrow> inc (workers s p) = i p"
    and "shared s = total P (workers s)" and "distinct (snd (sem s))" and "\<And>p. p \<in> set (snd (sem s)) \<longleftrightarrow> p \<in> P \<and> w_pc (workers s p) = Queued"
    and "p \<in> P \<Longrightarrow> q \<in> P \<Longrightarrow> inside (w_pc (workers s p)) \<Longrightarrow> inside (w_pc (workers s q)) \<Longrightarrow> q = p"
    and "p \<in> P \<Longrightarrow> inside (w_pc (workers s p)) \<Longrightarrow> fst (sem s) = 0"
    and "fst (sem s) \<noteq> 0 \<Longrightarrow> p \<in> P \<Longrightarrow> \<not> inside (w_pc (workers s p))"
    and "fst (sem s) \<noteq> 0 \<Longrightarrow> fst (sem s) = 1 \<and> snd (sem s) = []"
    and "fst (sem s) = 0 \<Longrightarrow> \<exists>p \<in> P. inside (w_pc (workers s p))"
  using assms by (auto simp: sync_inv_def)

text \<open>A worker that moves without touching the semaphore or the sum.\<close>

lemma sync_inv_move:
  assumes inv: "sync_inv n P i s" and P: "finite P" "p \<in> P"
    and w: "inside (w_pc w') = inside (w_pc (workers s p))" "w_pc w' = Queued \<longleftrightarrow> w_pc (workers s p) = Queued"
      "inc w' = inc (workers s p)" "v = shared s + of_nat (added w') * inc w' - of_nat (added (workers s p)) * inc w'"
      "worker_ok n v w'" "v \<noteq> shared s \<Longrightarrow> inside (w_pc w')"
  shows "sync_inv n P i (s\<lparr>shared := v, workers := (workers s)(p := w')\<rparr>)"
proof -
  note d = sync_invD [OF inv]
  have other: "worker_ok n v (workers s q)" if q: "q \<in> P" "q \<noteq> p" for q
  proof (cases "v = shared s")
    case True
    then show ?thesis using d(1) [OF q(1)] by simp
  next
    case False
    then have "\<not> inside (w_pc (workers s q))" using w(1,6) d(6) [OF P(2) q(1)] q(2) by blast
    then show ?thesis using d(1) [OF q(1)] by (auto simp: worker_ok_def inside_def split: worker_pc.splits)
  qed
  have "v = total P ((workers s)(p := w'))" using total_update [OF P, of "workers s" w'] d(3) w(3,4) by simp
  moreover have "\<forall>q \<in> P. worker_ok n v (((workers s)(p := w')) q) \<and> inc (((workers s)(p := w')) q) = i q"
    using other w(3,5) d(2) P(2) by simp
  moreover have "\<And>q. w_pc (((workers s)(p := w')) q) = Queued \<longleftrightarrow> w_pc (workers s q) = Queued" using w(2) by simp
  moreover have "\<And>q. inside (w_pc (((workers s)(p := w')) q)) = inside (w_pc (workers s q))" using w(1) by simp
  ultimately show ?thesis using inv by (simp add: sync_inv_def)
qed

lemma sync_inv_heldI:
  assumes "fst (sem s) = 0" and "q \<in> P" and "inside (w_pc (workers s q))" and "\<And>r. r \<in> P \<Longrightarrow> inside (w_pc (workers s r)) \<Longrightarrow> r = q"
    and "distinct (snd (sem s))" and "\<And>r. r \<in> set (snd (sem s)) \<longleftrightarrow> r \<in> P \<and> w_pc (workers s r) = Queued"
    and "\<And>r. r \<in> P \<Longrightarrow> worker_ok n (shared s) (workers s r) \<and> inc (workers s r) = i r" and "shared s = total P (workers s)"
  shows "sync_inv n P i s"
  unfolding sync_inv_def using assms by blast

lemma sync_inv_freeI:
  assumes "sem s = (1, [])" and "\<And>r. r \<in> P \<Longrightarrow> \<not> inside (w_pc (workers s r)) \<and> w_pc (workers s r) \<noteq> Queued"
    and "\<And>r. r \<in> P \<Longrightarrow> worker_ok n (shared s) (workers s r) \<and> inc (workers s r) = i r" and "shared s = total P (workers s)"
  shows "sync_inv n P i s"
  unfolding sync_inv_def using assms by auto

text \<open>A worker that takes the unit or joins the queue.\<close>

lemma sync_inv_wait:
  assumes inv: "sync_inv n P i s" and P: "finite P" "p \<in> P" and at: "w_pc (workers s p) = At_wait"
  shows "sync_inv n P i (set_worker p (w_pc_update (\<lambda>_. if fst (sem s) \<noteq> 0 then At_read else Queued)) (s\<lparr>sem := asem_wait p (sem s)\<rparr>))"
    (is "sync_inv n P i ?s")
proof -
  note d = sync_invD [OF inv]
  let ?w = "workers s p\<lparr>w_pc := if fst (sem s) \<noteq> 0 then At_read else Queued\<rparr>"
  have t: "total P ((workers s)(p := ?w)) = total P (workers s)"
    using total_update [OF P, of "workers s" ?w] at by (simp add: added_def)
  have ok: "worker_ok n (shared s) ?w" using d(1) [OF P(2)] at by (simp add: worker_ok_def)
  have new: "p \<notin> set (snd (sem s))" using d(5) [of p] at by simp
  show ?thesis
  proof (cases "fst (sem s) = 0")
    case True
    from d(10) [OF True] obtain q where q: "q \<in> P" "inside (w_pc (workers s q))" by blast
    have "q \<noteq> p" using q(2) at by (auto simp: inside_def)
    have s': "?s = s\<lparr>sem := (0, snd (sem s) @ [p]), workers := (workers s)(p := ?w)\<rparr>" "?w = workers s p\<lparr>w_pc := Queued\<rparr>"
      using True by (simp_all add: set_worker_def asem_wait_def)
    show ?thesis unfolding s'(1)
    proof (rule sync_inv_heldI [where q = q])
      fix r
      show "r \<in> P \<Longrightarrow> inside (w_pc (workers (s\<lparr>sem := (0, snd (sem s) @ [p]), workers := (workers s)(p := ?w)\<rparr>) r)) \<Longrightarrow> r = q"
        using True d(6) [OF q(1) _ q(2), of r] by (cases "r = p") (simp_all add: inside_def)
      show "r \<in> set (snd (sem (s\<lparr>sem := (0, snd (sem s) @ [p]), workers := (workers s)(p := ?w)\<rparr>))) \<longleftrightarrow>
          r \<in> P \<and> w_pc (workers (s\<lparr>sem := (0, snd (sem s) @ [p]), workers := (workers s)(p := ?w)\<rparr>) r) = Queued"
        using True d(5) [of r] P(2) by (cases "r = p") simp_all
    qed (use True new d(1-4) q \<open>q \<noteq> p\<close> t ok P(2) in auto)
  next
    case False
    then show ?thesis
      using d(1-5) d(8) [OF False] d(9) [OF False] t ok P(2)
      by (auto simp: sync_inv_def set_worker_def asem_wait_def inside_def)
  qed
qed

text \<open>A worker that posts: the value grows, or the first in the queue goes inside.\<close>

lemma sync_inv_post:
  assumes inv: "sync_inv n P i s" and P: "finite P" "p \<in> P" and at: "w_pc (workers s p) = At_post"
  shows "sync_inv n P i (let s1 = set_worker p (turns_update Suc) (set_worker p (w_pc_update (\<lambda>_. At_loop)) (s\<lparr>sem := asem_post (\<lambda>_. True) (sem s)\<rparr>))
     in case snd (sem s) of [] \<Rightarrow> s1 | c # cs \<Rightarrow> set_worker c (w_pc_update (\<lambda>_. At_read)) s1)"
proof -
  note d = sync_invD [OF inv]
  let ?w = "workers s p\<lparr>w_pc := At_loop, turns := Suc (turns (workers s p))\<rparr>"
  let ?ws = "(workers s)(p := ?w)"
  have inp: "inside (w_pc (workers s p))" using at by (simp add: inside_def)
  have z: "fst (sem s) = 0" by (rule d(7) [OF P(2) inp])
  have only: "r = p" if "r \<in> P" "inside (w_pc (workers s r))" for r using d(6) [OF P(2) that(1) inp that(2)] .
  have t: "total P ?ws = total P (workers s)" using total_update [OF P, of "workers s" ?w] at by (simp add: added_def)
  have ok: "worker_ok n (shared s) ?w" using d(1) [OF P(2)] at by (simp add: worker_ok_def)
  show ?thesis
  proof (cases "snd (sem s)")
    case Nil
    have s': "(let s1 = set_worker p (turns_update Suc) (set_worker p (w_pc_update (\<lambda>_. At_loop)) (s\<lparr>sem := asem_post (\<lambda>_. True) (sem s)\<rparr>))
     in case snd (sem s) of [] \<Rightarrow> s1 | c # cs \<Rightarrow> set_worker c (w_pc_update (\<lambda>_. At_read)) s1) = s\<lparr>sem := (1, []), workers := ?ws\<rparr>"
      using Nil z by (cases "workers s p") (simp add: set_worker_def asem_post_def)
    have noq: "w_pc (workers s r) \<noteq> Queued" if "r \<in> P" for r using d(5) [of r] Nil that by simp
    show ?thesis unfolding s'
    proof (rule sync_inv_freeI)
      fix r
      assume r: "r \<in> P"
      show "\<not> inside (w_pc (workers (s\<lparr>sem := (1, []), workers := ?ws\<rparr>) r)) \<and> w_pc (workers (s\<lparr>sem := (1, []), workers := ?ws\<rparr>) r) \<noteq> Queued"
        using only [OF r] noq [OF r] by (cases "r = p") (auto simp: inside_def)
      show "worker_ok n (shared (s\<lparr>sem := (1, []), workers := ?ws\<rparr>)) (workers (s\<lparr>sem := (1, []), workers := ?ws\<rparr>) r) \<and>
          inc (workers (s\<lparr>sem := (1, []), workers := ?ws\<rparr>) r) = i r"
        using d(1,2) [OF r] ok by (cases "r = p") simp_all
    qed (use t d(3) in simp_all)
  next
    case (Cons c cs)
    have c: "c \<in> P" "w_pc (workers s c) = Queued" "c \<notin> set cs" "distinct cs" using d(5) [of c] d(4) Cons by simp_all
    have cp: "c \<noteq> p" using c(2) at by auto
    let ?wc = "workers s c\<lparr>w_pc := At_read\<rparr>"
    let ?vs = "?ws(c := ?wc)"
    have s': "(let s1 = set_worker p (turns_update Suc) (set_worker p (w_pc_update (\<lambda>_. At_loop)) (s\<lparr>sem := asem_post (\<lambda>_. True) (sem s)\<rparr>))
     in case snd (sem s) of [] \<Rightarrow> s1 | c # cs \<Rightarrow> set_worker c (w_pc_update (\<lambda>_. At_read)) s1) = s\<lparr>sem := (0, cs), workers := ?vs\<rparr>"
      using Cons z cp by (cases "workers s p") (simp add: set_worker_def asem_post_def)
    have t': "total P ?vs = total P (workers s)" using total_update [OF P(1) c(1), of ?ws ?wc] t cp c(2) by (simp add: added_def)
    have okc: "worker_ok n (shared s) ?wc" using d(1) [OF c(1)] c(2) by (simp add: worker_ok_def)
    show ?thesis unfolding s'
    proof (rule sync_inv_heldI [where q = c])
      fix r
      show "r \<in> P \<Longrightarrow> inside (w_pc (workers (s\<lparr>sem := (0, cs), workers := ?vs\<rparr>) r)) \<Longrightarrow> r = c"
      proof (rule ccontr)
        assume r: "r \<in> P" "inside (w_pc (workers (s\<lparr>sem := (0, cs), workers := ?vs\<rparr>) r))" "r \<noteq> c"
        then have "r \<noteq> p" by (auto simp: inside_def)
        with r have "inside (w_pc (workers s r))" by simp
        from only [OF r(1) this] \<open>r \<noteq> p\<close> show False by blast
      qed
      have q: "r \<in> set (c # cs) \<longleftrightarrow> r \<in> P \<and> w_pc (workers s r) = Queued" using d(5) [of r] Cons by simp
      show "r \<in> set (snd (sem (s\<lparr>sem := (0, cs), workers := ?vs\<rparr>))) \<longleftrightarrow> r \<in> P \<and> w_pc (workers (s\<lparr>sem := (0, cs), workers := ?vs\<rparr>) r) = Queued"
        using q c(3) cp at by (cases "r = c"; cases "r = p") simp_all
      show "r \<in> P \<Longrightarrow> worker_ok n (shared (s\<lparr>sem := (0, cs), workers := ?vs\<rparr>)) (workers (s\<lparr>sem := (0, cs), workers := ?vs\<rparr>) r) \<and>
          inc (workers (s\<lparr>sem := (0, cs), workers := ?vs\<rparr>) r) = i r"
        using d(1,2) [of r] ok okc by (cases "r = c"; cases "r = p") simp_all
    qed (use c cp t' d(3) in \<open>simp_all add: inside_def\<close>)
  qed
qed

lemma sync_inv_step:
  assumes inv: "sync_inv n P i s" and P: "finite P" "p \<in> P" and step: "worker_step True n p s = Some s'"
  shows "sync_inv n P i s'"
proof -
  let ?w = "workers s p"
  note ok = sync_invD(1) [OF inv P(2)]
  note move = sync_inv_move [OF inv P]
  have eq: "s\<lparr>shared := shared s, workers := ws\<rparr> = s\<lparr>workers := ws\<rparr>" for ws by simp
  show ?thesis
  proof (cases "w_pc ?w")
    case At_loop
    then have "s' = s\<lparr>shared := shared s, workers := (workers s)(p := ?w\<lparr>w_pc := if turns ?w < n then At_wait else Finished\<rparr>)\<rparr>"
      using step by (auto simp: worker_step_def Let_def set_worker_def)
    then show ?thesis using At_loop ok by (simp only:) (rule move, auto simp: inside_def added_def worker_ok_def)
  next
    case At_wait
    then have "s' = set_worker p (w_pc_update (\<lambda>_. if fst (sem s) \<noteq> 0 then At_read else Queued)) (s\<lparr>sem := asem_wait p (sem s)\<rparr>)"
      using step by (simp add: worker_step_def Let_def)
    then show ?thesis using sync_inv_wait [OF inv P At_wait] by simp
  next
    case At_read
    then have "s' = s\<lparr>shared := shared s, workers := (workers s)(p := ?w\<lparr>w_pc := At_write (shared s)\<rparr>)\<rparr>"
      using step by (simp add: worker_step_def Let_def set_worker_def)
    then show ?thesis using At_read ok by (simp only:) (rule move, auto simp: inside_def added_def worker_ok_def)
  next
    case (At_write aux)
    then have a: "aux = shared s" using ok by (simp add: worker_ok_def)
    have "s' = s\<lparr>shared := shared s + inc ?w, workers := (workers s)(p := ?w\<lparr>w_pc := At_post\<rparr>)\<rparr>"
      using step At_write a by (simp add: worker_step_def Let_def set_worker_def)
    then show ?thesis using At_write ok
      by (simp only:) (rule move, auto simp: inside_def added_def worker_ok_def algebra_simps)
  next
    case At_post
    then show ?thesis using sync_inv_post [OF inv P At_post] step by (simp add: worker_step_def Let_def)
  qed (use step in \<open>simp_all add: worker_step_def Let_def\<close>)
qed

lemma sync_inv_start:
  assumes "finite P"
  shows "sync_inv n P (\<lambda>p. if p \<in> D then - 1 else 1) (sync_start D)"
  by (simp add: sync_inv_def sync_start_def inside_def worker_ok_def total_def added_def)

lemma sync_inv_run:
  assumes "(sync_step True n P)\<^sup>*\<^sup>* s s'" and "sync_inv n P i s" and "finite P"
  shows "sync_inv n P i s'"
  using assms(1,2) by (induction rule: rtranclp_induct) (auto elim!: sync_step.cases intro: sync_inv_step [OF _ assms(3)])

lemma sync_progress:
  assumes inv: "sync_inv n P i s" and p: "p \<in> P" "w_pc (workers s p) \<noteq> Finished"
  shows "\<exists>s'. sync_step True n P s s'"
proof -
  note d = sync_invD [OF inv]
  have go: "\<exists>s'. sync_step True n P s s'" if "q \<in> P" "w_pc (workers s q) \<noteq> Finished" "w_pc (workers s q) \<noteq> Queued" for q
  proof -
    have "\<exists>s'. worker_step True n q s = Some s'"
      using that(2,3) by (cases "w_pc (workers s q)") (simp_all add: worker_step_def Let_def)
    then show ?thesis using that(1) by (blast intro: sync_step.intros)
  qed
  show ?thesis
  proof (cases "w_pc (workers s p) = Queued")
    case True
    then have "snd (sem s) \<noteq> []" using d(5) [of p] p(1) by auto
    then have "fst (sem s) = 0" using d(9) by auto
    from d(10) [OF this] obtain q where "q \<in> P" "inside (w_pc (workers s q))" by blast
    then show ?thesis using go [of q] by (auto simp: inside_def split: worker_pc.splits)
  qed (use go p in blast)
qed

section \<open>Properties\<close>


text \<open>The workers p of a list step one after the other.\<close>

fun sync_run :: "bool \<Rightarrow> nat \<Rightarrow> int list \<Rightarrow> sync \<Rightarrow> sync option" where
  "sync_run u n [] s = Some s"
| "sync_run u n (p # qs) s = Option.bind (worker_step u n p s) (sync_run u n qs)"

lemma sync_run_steps: "sync_run u n qs s = Some s' \<Longrightarrow> set qs \<subseteq> P \<Longrightarrow> (sync_step u n P)\<^sup>*\<^sup>* s s'"
  by (induction qs arbitrary: s) (auto simp: bind_eq_Some_conv intro: converse_rtranclp_into_rtranclp sync_step.intros)


text \<open>
  Without the semaphore the result depends on the timer: for one addition each and the interleaving in which all
  four workers read before the first writes, the run of \<open>test_sync\<close> ends with 1 instead of 0.
\<close>

theorem sync_races:
  "\<exists>s. (sync_step False 1 {2, 3, 4, 5})\<^sup>*\<^sup>* (sync_start {2, 4}) s \<and> (\<forall>p \<in> {2, 3, 4, 5}. w_pc (workers s p) = Finished) \<and> shared s = 1"
proof -
  let ?ps = "[2, 3, 4, 5, 2, 3, 4, 5, 2, 3, 4, 5, 2, 3, 4, 5] :: int list"
  obtain s where s: "sync_run False 1 ?ps (sync_start {2, 4}) = Some s" "\<forall>p \<in> {2, 3, 4, 5}. w_pc (workers s p) = Finished" "shared s = 1"
    by (simp add: worker_step_def Let_def set_worker_def sync_start_def)
  have "(sync_step False 1 {2, 3, 4, 5})\<^sup>*\<^sup>* (sync_start {2, 4}) s" by (rule sync_run_steps [OF s(1)]) simp
  with s show ?thesis by blast
qed

end
