(* ===== verification/Spec2Isabelle.thy ===== *)
theory Spec2Isabelle
  imports Memory_Management Memory_Manager Lib Scheduler_Liveness Keyboard Kernel_Main User_IO Shell Whole_System Sync_Test
begin

text \<open>
  A formal model of an x86-64 teaching kernel (\<open>src/Kernel\<close>), of the tool that packs it
  (\<open>src/Toolchain/ModulePacker\<close>) and of the program that runs on it (\<open>src/Userland/SampleCodeModule\<close>). Function names
  below are those of the code; a definition has the name of the function it translates.

  How the system works. The boot loader leaves the kernel with the userland's binaries appended in memory.
  The kernel copies them to their places, builds the interrupt descriptor table, creates the memory manager, the
  scheduler, the semaphores and the pipes, and creates the idle process and the shell. From then on
  everything is an interrupt: the timer runs the scheduler, the keyboard fills a ring buffer guarded by a semaphore, and
  the programs reach the kernel through 36 system calls. The shell reads lines and runs commands, alone or
  two joined by a pipe.

  Foundations.
    \<^item> \<open>Prelude\<close>: addresses, 64-bit arithmetic, pointer reads and writes into a store, fault as \<open>None\<close>.
    \<^item> \<open>Lib\<close>: \<open>lib.c\<close> and the userland's \<open>string.c\<close>, \<open>stdlib.c\<close> over a byte memory, with number formatting and parsing;
      \<open>is_str\<close> says that a terminated string lies at an address.
    \<^item> \<open>Fifo\<close>, \<open>Double_Linked_List\<close>: \<open>utils/doubleLinkedList.c\<close> on linked nodes, and as the sequence the other
      components use; the nodes refine the sequence and the sequence is a queue (locale in \<open>Fifo\<close>).

  Memory.
    \<^item> \<open>Memory_Management\<close>: \<open>include/memoryManagement.h\<close>, the contract of a memory manager as locales.
    \<^item> \<open>Bitmap\<close>, \<open>Buddy\<close>: \<open>utils/memory/bitmap.c\<close> and \<open>buddy.c\<close>, the two managers one of which is linked into the
      kernel. Both meet the contract; \<open>Memory_Manager\<close> is either of them, and the kernel is built on that.
      The accounting of the buddy manager is wrong, and a property shows that it makes the manager run dry.

  Processes.
    \<^item> \<open>Process\<close>: \<open>utils/processes/process.c\<close>, control blocks, with the stack frame of \<open>asm/process.asm\<close>.
    \<^item> \<open>Scheduler\<close>, \<open>Scheduler_Properties\<close>: \<open>utils/processes/scheduler.c\<close>, all operations on a record of its state;
      the kernel's steps as an inductive relation with its invariant \<open>kernel_inv\<close>, round robin, blocking, killing.
      \<open>Scheduler_Liveness\<close>: no ready process starves.
    \<^item> \<open>Semaphores\<close>: \<open>utils/semaphores/semaphores.c\<close>, extending the scheduler's record. The abstract semaphore is a value and a
      queue of waiters; \<open>sem_wait\<close> and \<open>sem_post\<close> refine it and units are conserved over every run.
    \<^item> \<open>Pipes\<close>: \<open>utils/pipes/pipes.c\<close>. A call that can block is a machine with a program counter, from one
      \<open>sem_wait\<close> to the next; what is delivered is what was put in, over any interleaving.

  Devices and interrupts.
    \<^item> \<open>Keyboard\<close>: \<open>utils/drivers/keyboard.c\<close> refines a bounded queue of keys.
    \<^item> \<open>Video\<close>: \<open>utils/drivers/video.c\<close> on a frame buffer in memory: what is painted, what is remembered, and that nothing
      is written elsewhere.
    \<^item> \<open>Interrupts\<close>: \<open>idtLoader.c\<close>, \<open>time.c\<close>, \<open>irqDispatcher.c\<close>, \<open>memory.c\<close>, \<open>exceptions.c\<close>; the record \<open>machine\<close> joins the
      kernel's state with its devices.
    \<^item> \<open>Syscalls\<close>: \<open>syscalls.c\<close>, the dispatcher and all of its table; calls that wait are activities.
    \<^item> \<open>Modules\<close>: \<open>ModulePacker/main.c\<close>, \<open>moduleLoader.c\<close> and the start of \<open>kernel.c\<close>; loading undoes packing.
    \<^item> \<open>Kernel_Main\<close>: \<open>main\<close> of \<open>kernel.c\<close>; the kernel built with the bitmap manager boots.

  Userland. A program is a function of what the system calls answer: the record \<open>user\<close> of \<open>User_IO\<close> has the program's memory,
  the answers that are still to come and the calls made so far, each with its arguments. A program that is given an answer of
  another kind, or none, is \<open>None\<close>.
    \<^item> \<open>User_IO\<close>: \<open>stdio.c\<close>; \<open>printf\<close> against the reference \<open>render\<close>, \<open>read_line\<close> against a line editor.
    \<^item> \<open>Apps\<close>: \<open>processFunctions.c\<close>; the programs that read to the end of their input share the locale \<open>stream_app\<close>.
    \<^item> \<open>Builtins\<close>: \<open>builtinFunctions.c\<close>; what the commands may ask of the kernel.
    \<^item> \<open>Mvar\<close>: \<open>mvar.c\<close>; the names and numbers handed to writers and readers, and the guarded printing.
    \<^item> \<open>Shell\<close>: \<open>shell.c\<close>; from the line typed to the process created.

  The two together. \<open>Whole_System\<close> has the stubs of \<open>asm/syscalls.asm\<close> and \<open>_syscallHandler\<close>, shows that each stub reaches its service,
  and runs the calls a program makes on the kernel's model: what \<open>printf\<close> renders is what the screen shows, and the keys typed
  are the line \<open>read_line\<close> returns. There the answers are no longer assumed but computed, for calls that do not wait for
  another process (\<open>settle\<close> carries a call on for three steps, which is what a read from the keyboard takes).
  \<open>Sync_Test\<close> runs the workers of \<open>tests/test_sync.c\<close> under every interleaving on the abstract semaphore the kernel's refines.

  Bounds and fuel. Machine integers are words of their width, or natural numbers with the wrap-around written out (\<open>add64\<close>,
  \<open>sub64\<close>, \<open>POW2\<close>). Loops that may not end are partial functions with \<open>None\<close> for not ending, and what is claimed of them
  includes that they return. The two loops that never end, those of \<open>loop\<close> and of the shell, are given the number of
  rounds to run (\<open>loop_rounds\<close>, \<open>shell_rounds\<close>): every finite prefix of their run is a number of rounds.

  Parameters. The glyphs of \<open>include/font.h\<close> are a field of the video state; the clock and the keyboard's scancode are arguments;
  the addresses of the handlers and of the linker's symbols are records; the tests the shell starts are functions,
  as is \<open>getUniform\<close>, which computes with floating point numbers; the addresses of string literals and stack arrays
  are records of the shell and of \<open>Mvar\<close>.

  Not modelled. The third-party boot loader and disk formatter under \<open>src/Bootloader\<close>; the glyph data; the other stress tests
  under \<open>tests\<close>; the assembly stubs that only save registers. Interrupts between two steps of a system call are the
  kernel's steps of \<open>Scheduler\<close> and \<open>Pipes\<close>: inside one step nothing intervenes, and a yield made there does not count a tick.
  An int passed through the dots of \<open>printf\<close> is the 32 bits extended with zeros.
\<close>

end
